(* ===== verification/Prelude.thy ===== *)
theory Prelude
  imports Main "HOL-Library.Word"
begin

text \<open>
  Shared material of the development: the types of addresses and machine integers, the
  outcome of a kernel routine (it returns, panics, goes to sleep, or spins forever), the
  sequencing of fallible routines, and generic facts on lists and machine words that the
  component theories use.
\<close>

unbundle bit_operations_syntax

section \<open>Machine integers\<close>

text \<open>
  \<^verbatim>\<open>kernel/types.h\<close>: the fixed-width integers of the kernel. C's \<^verbatim>\<open>int\<close> is a 32-bit word
  read through \<^const>\<open>sint\<close> where its sign matters.
\<close>

type_synonym uchar = "8 word"
type_synonym ushort = "16 word"
type_synonym uint32 = "32 word"
type_synonym uint64 = "64 word"
type_synonym addr = "64 word"

section \<open>Outcomes\<close>

text \<open>
  The channels a process can sleep on; the kernel uses the address of the object it
  waits for.
\<close>

datatype chan =
    Chan_proc nat          \<comment> \<open>\<^verbatim>\<open>wait()\<close>: the process itself\<close>
  | Chan_ticks             \<comment> \<open>\<^verbatim>\<open>sys_sleep()\<close>: the tick counter\<close>
  | Chan_log               \<comment> \<open>\<^verbatim>\<open>begin_op()\<close>: the log\<close>
  | Chan_buf nat           \<comment> \<open>a buffer's sleep-lock\<close>
  | Chan_inode nat         \<comment> \<open>an inode's sleep-lock\<close>
  | Chan_pipe_nread addr   \<comment> \<open>a pipe's reader\<close>
  | Chan_pipe_nwrite addr  \<comment> \<open>a pipe's writer\<close>
  | Chan_cons              \<comment> \<open>console input\<close>
  | Chan_uart              \<comment> \<open>space in the uart's transmit buffer\<close>
  | Chan_vdisk             \<comment> \<open>\<^verbatim>\<open>disk.free\<close>: free descriptors of the disk driver\<close>
  | Chan_bdisk nat         \<comment> \<open>a buffer in transfer\<close>

text \<open>
  The outcome of a kernel routine: \<open>Ok\<close> with the result (and the new state), \<open>Panic\<close> with
  the message given to \<^verbatim>\<open>panic()\<close>, \<open>Sleep\<close> with the channel when the routine cannot go on
  until another process acts, and \<open>Spin\<close> when it loops forever.
\<close>

datatype 'a res = Ok 'a | Panic string | Sleep chan | Spin

fun and_then :: "'a res \<Rightarrow> ('a \<Rightarrow> 'b res) \<Rightarrow> 'b res" where
  "and_then (Ok x) f = f x"
| "and_then (Panic m) f = Panic m"
| "and_then (Sleep c) f = Sleep c"
| "and_then Spin f = Spin"

lemma and_then_cong [fundef_cong]:
  "r = r' \<Longrightarrow> (\<And>x. r' = Ok x \<Longrightarrow> f x = g x) \<Longrightarrow> and_then r f = and_then r' g"
  by (cases r') auto

lemma and_then_eq_Ok: "and_then r f = Ok y \<longleftrightarrow> (\<exists>x. r = Ok x \<and> f x = Ok y)"
  by (cases r) auto

lemma and_then_eq_Panic:
  "and_then r f = Panic m \<longleftrightarrow> r = Panic m \<or> (\<exists>x. r = Ok x \<and> f x = Panic m)"
  by (cases r) auto

lemma and_then_assoc: "and_then (and_then r f) g = and_then r (\<lambda>x. and_then (f x) g)"
  by (cases r) auto

lemma and_then_Ok [simp]: "and_then r Ok = r"
  by (cases r) auto

text \<open>\<open>loop_res\<close> runs a C loop body over the indices of the loop, in order.\<close>

fun loop_res :: "('i \<Rightarrow> 's \<Rightarrow> 's res) \<Rightarrow> 'i list \<Rightarrow> 's \<Rightarrow> 's res" where
  "loop_res body [] s = Ok s"
| "loop_res body (i # is) s = and_then (body i s) (loop_res body is)"

lemma loop_res_append:
  "loop_res body (xs @ ys) s = and_then (loop_res body xs s) (loop_res body ys)"
  by (induction xs arbitrary: s) (auto simp: and_then_assoc cong: and_then_cong)

text \<open>An invariant the body keeps (and under which it returns) holds after the loop.\<close>

lemma loop_res_inv:
  assumes "P s"
    and "\<And>i s. i \<in> set is \<Longrightarrow> P s \<Longrightarrow> \<exists>s'. body i s = Ok s' \<and> P s'"
  shows "\<exists>s'. loop_res body is s = Ok s' \<and> P s'"
  using assms
proof (induction "is" arbitrary: s)
  case Nil
  then show ?case by simp
next
  case (Cons i "is")
  from Cons.prems obtain s1 where s1: "body i s = Ok s1" "P s1"
    by (meson list.set_intros(1))
  have "\<exists>s'. loop_res body is s1 = Ok s' \<and> P s'"
    by (rule Cons.IH) (use s1 Cons.prems in auto)
  with s1 show ?case by simp
qed

text \<open>The same for an invariant that counts the iterations done so far.\<close>

lemma loop_res_upt_inv:
  assumes "P a s" and "a \<le> b"
    and "\<And>i s. a \<le> i \<Longrightarrow> i < b \<Longrightarrow> P i s \<Longrightarrow> \<exists>s'. body i s = Ok s' \<and> P (Suc i) s'"
  shows "\<exists>s'. loop_res body [a..<b] s = Ok s' \<and> P b s'"
  using assms(2,1,3)
proof (induction "b - a" arbitrary: a s)
  case 0
  then show ?case by simp
next
  case (Suc n)
  then have ab: "a < b" by simp
  from Suc.prems ab obtain s1 where s1: "body a s = Ok s1" "P (Suc a) s1"
    by (meson order_refl)
  have "\<exists>s'. loop_res body [Suc a..<b] s1 = Ok s' \<and> P b s'"
    using Suc.prems Suc.hyps(2) ab s1 by (intro Suc.hyps(1)) auto
  with s1 ab show ?case by (simp add: upt_conv_Cons)
qed

section \<open>Generic facts\<close>

named_theorems frame \<open>fields of the state that an operation leaves alone\<close>

lemma all_less_Suc_conv_0: "(\<forall>i<Suc n. P i) \<longleftrightarrow> P 0 \<and> (\<forall>i<n. P (Suc i))"
  by (metis less_Suc_eq_0_disj)

lemma nth_list_update_if: "i < length xs \<Longrightarrow> xs[i := v] ! j = (if i = j then v else xs ! j)"
  by simp

lemma word_of_nat_unat_add: "word_of_nat (unat a + n) = (a :: 'a::len word) + word_of_nat n"
  by simp

lemma unat_of_nat_small: "n < 2 ^ LENGTH('a) \<Longrightarrow> unat (word_of_nat n :: 'a::len word) = n"
  by (simp add: unat_of_nat take_bit_nat_eq_self)

lemma unat_ucast_up:
  "LENGTH('a) \<le> LENGTH('b) \<Longrightarrow> unat (ucast (w :: 'a::len word) :: 'b::len word) = unat w"
  by transfer (simp add: take_bit_take_bit min_def)

lemma word_eq_of_nat: "unat w = n \<Longrightarrow> w = word_of_nat n"
  by auto

lemma unat_uminus: "x \<noteq> 0 \<Longrightarrow> unat (- x) = 2 ^ LENGTH('a) - unat (x :: 'a::len word)"
  using unat_sub_if' [of 0 x] by (simp add: unat_eq_0)

lemma unat_add_small:
  "unat a + unat b < 2 ^ LENGTH('a) \<Longrightarrow> unat (a + b) = unat a + unat (b :: 'a::len word)"
  by (simp add: unat_add_lem)

end
