(* ===== verification/Machine.thy ===== *)
theory Machine
  imports Prelude
begin

text \<open>
  Physical memory and the machine's constants: little-endian loads and stores, the paging macros of \<^verbatim>\<open>kernel/riscv.h\<close> and the memory layout of
  \<^verbatim>\<open>kernel/memlayout.h\<close>. Memory is a total map from 64-bit addresses to bytes; pointers are
  addresses, and pointer arithmetic wraps as the hardware's does.
\<close>

type_synonym ram = "addr \<Rightarrow> uchar"

section \<open>Little-endian loads and stores\<close>

fun ld :: "ram \<Rightarrow> addr \<Rightarrow> nat \<Rightarrow> uint64" where
  "ld m a 0 = 0"
| "ld m a (Suc n) = ucast (m a) OR push_bit 8 (ld m (a + 1) n)"

fun st :: "ram \<Rightarrow> addr \<Rightarrow> nat \<Rightarrow> uint64 \<Rightarrow> ram" where
  "st m a 0 v = m"
| "st m a (Suc n) v = (st m (a + 1) n (drop_bit 8 v))(a := ucast v)"

definition ld64 :: "ram \<Rightarrow> addr \<Rightarrow> uint64" where
  "ld64 m a = ld m a 8"

definition st64 :: "ram \<Rightarrow> addr \<Rightarrow> uint64 \<Rightarrow> ram" where
  "st64 m a v = st m a 8 v"

section \<open>Paging macros and memory layout\<close>

definition PGSIZE :: uint64 where "PGSIZE = 4096"

definition PGROUNDUP :: "uint64 \<Rightarrow> uint64" where
  "PGROUNDUP sz = (sz + PGSIZE - 1) AND NOT (PGSIZE - 1)"

definition PGROUNDDOWN :: "uint64 \<Rightarrow> uint64" where
  "PGROUNDDOWN a = a AND NOT (PGSIZE - 1)"

definition PTE_V :: uint64 where "PTE_V = push_bit 0 1"
definition PTE_R :: uint64 where "PTE_R = push_bit 1 1"
definition PTE_W :: uint64 where "PTE_W = push_bit 2 1"
definition PTE_X :: uint64 where "PTE_X = push_bit 3 1"
definition PTE_U :: uint64 where "PTE_U = push_bit 4 1"
definition PTE_A :: uint64 where "PTE_A = push_bit 6 1"
definition PTE_PG :: uint64 where "PTE_PG = push_bit 9 1"

definition PA2PTE :: "uint64 \<Rightarrow> uint64" where
  "PA2PTE pa = push_bit 10 (drop_bit 12 pa)"

definition PTE2PA :: "uint64 \<Rightarrow> uint64" where
  "PTE2PA pte = push_bit 12 (drop_bit 10 pte)"

definition PTE_FLAGS :: "uint64 \<Rightarrow> uint64" where
  "PTE_FLAGS pte = pte AND 0x3FF"

definition PXSHIFT :: "nat \<Rightarrow> nat" where
  "PXSHIFT level = 12 + 9 * level"

definition PX :: "nat \<Rightarrow> uint64 \<Rightarrow> uint64" where
  "PX level va = drop_bit (PXSHIFT level) va AND 0x1FF"

definition MAXVA :: uint64 where
  "MAXVA = push_bit (9 + 9 + 9 + 12 - 1) 1"

definition KERNBASE :: uint64 where "KERNBASE = 0x80000000"
definition PHYSTOP :: uint64 where "PHYSTOP = KERNBASE + 128 * 1024 * 1024"
definition TRAMPOLINE :: uint64 where "TRAMPOLINE = MAXVA - PGSIZE"
definition TRAPFRAME :: uint64 where "TRAPFRAME = TRAMPOLINE - PGSIZE"

definition KSTACK :: "uint64 \<Rightarrow> uint64" where
  "KSTACK p = TRAMPOLINE - (p + 1) * 2 * PGSIZE"

section \<open>Facts on loads and stores\<close>

lemma word_diff_Suc:
  assumes "Suc n \<le> unat (b - a)"
  shows "n \<le> unat (b - (a + 1 :: addr))"
proof -
  have "b - a \<noteq> 0" using assms by auto
  then have "unat (b - a - 1) = unat (b - a) - 1" by (rule unat_minus_one)
  then show ?thesis using assms by (simp add: diff_diff_eq)
qed

lemma st_other [simp]: "n \<le> unat (b - a) \<Longrightarrow> st m a n v b = m b"
proof (induction n arbitrary: a v)
  case (Suc n)
  then have "b \<noteq> a" by auto
  with Suc word_diff_Suc [of n b a] show ?case by simp
qed simp

lemma ld_cong:
  "(\<And>i. i < n \<Longrightarrow> m (a + word_of_nat i) = m' (a + word_of_nat i)) \<Longrightarrow> ld m a n = ld m' a n"
proof (induction n arbitrary: a)
  case (Suc n)
  have "m a = m' a" using Suc.prems [of 0] by simp
  moreover have "ld m (a + 1) n = ld m' (a + 1) n"
  proof (rule Suc.IH)
    fix i assume "i < n"
    then show "m (a + 1 + word_of_nat i) = m' (a + 1 + word_of_nat i)"
      using Suc.prems [of "Suc i"] by (simp add: algebra_simps)
  qed
  ultimately show ?case by simp
qed simp

lemma unat_word_of_nat_64: "n < 2 ^ 64 \<Longrightarrow> unat (word_of_nat n :: addr) = n"
  by (rule unat_of_nat_small) simp

lemma ld_st_same: "n \<le> 8 \<Longrightarrow> ld (st m a n v) a n = take_bit (8 * n) v"
proof (induction n arbitrary: a v)
  case (Suc n)
  have "ld ((st m (a + 1) n (drop_bit 8 v))(a := ucast v)) (a + 1) n
        = ld (st m (a + 1) n (drop_bit 8 v)) (a + 1) n"
  proof (rule ld_cong)
    fix i assume "i < n"
    with Suc.prems have "unat (1 + word_of_nat i :: addr) = Suc i"
      using unat_word_of_nat_64 [of "Suc i"] by simp
    then have "1 + word_of_nat i \<noteq> (0 :: addr)" by auto
    then have "a + 1 + word_of_nat i \<noteq> a" by (simp add: add.assoc)
    then show "((st m (a + 1) n (drop_bit 8 v))(a := ucast v)) (a + 1 + word_of_nat i)
      = st m (a + 1) n (drop_bit 8 v) (a + 1 + word_of_nat i)" by simp
  qed
  also have "\<dots> = take_bit (8 * n) (drop_bit 8 v)" using Suc by simp
  finally have rest: "ld (st m a (Suc n) v) (a + 1) n = take_bit (8 * n) (drop_bit 8 v)" by simp
  have "ld (st m a (Suc n) v) a (Suc n)
        = ucast (ucast v :: uchar) OR push_bit 8 (take_bit (8 * n) (drop_bit 8 v))"
    using rest by simp
  also have "\<dots> = take_bit (8 * Suc n) v"
    by (rule bit_word_eqI) (auto simp: bit_simps)
  finally show ?case .
qed simp

lemma ld64_st64 [simp]: "ld64 (st64 m a v) a = v"
  by (simp add: ld64_def st64_def ld_st_same take_bit_word_eq_self)

section \<open>Pages\<close>

definition page_aligned :: "addr \<Rightarrow> bool" where
  "page_aligned p \<longleftrightarrow> p mod PGSIZE = 0"

lemma mod_PGSIZE: "p mod PGSIZE = take_bit 12 p"
  by (simp add: PGSIZE_def take_bit_eq_mod)

lemma page_aligned_bit: "page_aligned p \<longleftrightarrow> (\<forall>n<12. \<not> bit p n)"
  by (auto simp: page_aligned_def mod_PGSIZE bit_eq_iff bit_simps)

lemma not_bit_ge12: "(w :: addr) < 4096 \<Longrightarrow> 12 \<le> n \<Longrightarrow> \<not> bit w n"
proof
  assume w: "w < 4096" and n: "12 \<le> n" "bit w n"
  have "take_bit 12 w = w"
    using w by (simp add: take_bit_eq_mod word_unat_eq_iff unat_mod_distrib word_less_nat_alt)
  then have "bit (take_bit 12 w) n" using n by simp
  then show False using n(1) by (simp add: bit_simps)
qed

lemma bit_PGROUNDDOWN: "bit (PGROUNDDOWN a) n \<longleftrightarrow> bit a n \<and> 12 \<le> n"
proof -
  have "PGROUNDDOWN a = a AND NOT (mask 12)"
    by (simp add: PGROUNDDOWN_def PGSIZE_def mask_eq_exp_minus_1)
  then show ?thesis
    by (auto simp: bit_simps dest: bit_imp_le_length)
qed

lemma PGROUNDDOWN_aligned [simp]: "page_aligned (PGROUNDDOWN a)"
  by (simp add: page_aligned_bit bit_PGROUNDDOWN)

lemma PGROUNDDOWN_id [simp]: "page_aligned p \<Longrightarrow> PGROUNDDOWN p = p"
  by (rule bit_word_eqI) (auto simp: bit_PGROUNDDOWN page_aligned_bit not_less)

lemma PGROUNDDOWN_add [simp]:
  assumes "page_aligned p" "off < 4096"
  shows "PGROUNDDOWN (p + off) = p"
proof -
  have "p AND off = 0"
    by (rule bit_word_eqI)
      (use assms not_bit_ge12 [of off] in \<open>auto simp: bit_simps page_aligned_bit not_less [symmetric]\<close>)
  then have "p + off = p OR off" by (rule disjunctive_add_eq_or)
  with assms not_bit_ge12 [of off] show ?thesis
    by (intro bit_word_eqI) (auto simp: bit_PGROUNDDOWN bit_simps page_aligned_bit not_less)
qed

lemma PGROUNDDOWN_plus_offset: "PGROUNDDOWN a + take_bit 12 a = a"
proof -
  have "PGROUNDDOWN a AND take_bit 12 a = 0"
    by (rule bit_word_eqI) (auto simp: bit_simps bit_PGROUNDDOWN)
  then have "PGROUNDDOWN a + take_bit 12 a = PGROUNDDOWN a OR take_bit 12 a"
    by (rule disjunctive_add_eq_or)
  also have "\<dots> = a"
    by (rule bit_word_eqI) (auto simp: bit_simps bit_PGROUNDDOWN)
  finally show ?thesis .
qed

text \<open>The bytes of a page are those that round down to its address.\<close>

lemma in_page_iff:
  assumes "page_aligned p"
  shows "unat (a - p) < 4096 \<longleftrightarrow> PGROUNDDOWN a = p"
proof
  assume "unat (a - p) < 4096"
  then have "a - p < 4096" by (simp add: word_less_nat_alt)
  with assms have "PGROUNDDOWN (p + (a - p)) = p" by (rule PGROUNDDOWN_add)
  then show "PGROUNDDOWN a = p" by simp
next
  assume "PGROUNDDOWN a = p"
  with PGROUNDDOWN_plus_offset [of a] have "a - p = take_bit 12 a"
    by (metis add_diff_cancel_left')
  then show "unat (a - p) < 4096"
    by (simp add: take_bit_eq_mod unat_mod_distrib)
qed

text \<open>The 512 eight-byte slots of a page do not overlap each other or other pages.\<close>

lemma slot_offset:
  assumes "i < (512 :: addr)" "j < 8"
  shows "8 * i + word_of_nat j < 4096"
    and "unat (8 * i + word_of_nat j) = 8 * unat i + j"
proof -
  have i: "unat i < 512" using assms(1) by (simp add: word_less_nat_alt)
  have j: "unat (word_of_nat j :: addr) = j"
    using assms(2) by (intro unat_word_of_nat_64) simp
  have m: "unat (8 * i) = 8 * unat i"
    using i by (simp add: unat_word_ariths)
  show "unat (8 * i + word_of_nat j) = 8 * unat i + j"
    using i j m assms(2) by (simp add: unat_word_ariths)
  then show "8 * i + word_of_nat j < 4096"
    using i assms(2) by (simp add: word_less_nat_alt)
qed

lemma slot_in_page:
  "page_aligned t \<Longrightarrow> i < 512 \<Longrightarrow> j < 8 \<Longrightarrow> PGROUNDDOWN (t + 8 * i + word_of_nat j) = t"
  using PGROUNDDOWN_add [of t "8 * i + word_of_nat j"] slot_offset(1) [of i j]
  by (simp add: add.assoc)

lemma ld64_page_cong:
  assumes "page_aligned t" "i < 512" "\<And>a. PGROUNDDOWN a = t \<Longrightarrow> m a = m' a"
  shows "ld64 m (t + 8 * i) = ld64 m' (t + 8 * i)"
  unfolding ld64_def by (rule ld_cong) (use assms slot_in_page in simp)

lemma st64_outside [simp]:
  assumes "page_aligned t" "i < 512" "PGROUNDDOWN a \<noteq> t"
  shows "st64 m (t + 8 * i) v a = m a"
proof -
  have "8 \<le> unat (a - (t + 8 * i))"
  proof (rule ccontr)
    assume "\<not> 8 \<le> unat (a - (t + 8 * i))"
    then have "PGROUNDDOWN (t + 8 * i + word_of_nat (unat (a - (t + 8 * i)))) = t"
      using assms by (intro slot_in_page) auto
    then show False using assms(3) by simp
  qed
  then show ?thesis unfolding st64_def by (rule st_other)
qed

lemma ld64_st64_slot:
  assumes "page_aligned t" "page_aligned t'" "i < 512" "i' < 512" "t \<noteq> t' \<or> i \<noteq> i'"
  shows "ld64 (st64 m (t + 8 * i) v) (t' + 8 * i') = ld64 m (t' + 8 * i')"
  unfolding ld64_def
proof (rule ld_cong)
  fix j :: nat assume j: "j < 8"
  show "st64 m (t + 8 * i) v (t' + 8 * i' + word_of_nat j) = m (t' + 8 * i' + word_of_nat j)"
  proof (cases "t = t'")
    case False
    then show ?thesis using assms slot_in_page [of t' i' j] j by simp
  next
    case True
    with assms(5) have ne: "unat i \<noteq> unat i'" by (simp add: word_unat_eq_iff)
    have bounds: "unat i < 512" "unat i' < 512"
      using assms(3,4) by (simp_all add: word_less_nat_alt)
    have "t' + 8 * i' + word_of_nat j - (t + 8 * i) = (8 * i' + word_of_nat j) - (8 * i + word_of_nat 0)"
      using True by simp
    also have "8 \<le> unat \<dots>"
      using ne bounds j slot_offset(2) [OF assms(4) j] slot_offset(2) [OF assms(3), of 0]
      by (subst unat_sub_if') auto
    finally show ?thesis unfolding st64_def by (rule st_other)
  qed
qed

lemma ld_zero: "(\<And>i. i < n \<Longrightarrow> m (a + word_of_nat i) = 0) \<Longrightarrow> ld m a n = 0"
proof -
  assume "\<And>i. i < n \<Longrightarrow> m (a + word_of_nat i) = 0"
  then have "ld m a n = ld (\<lambda>_. 0) a n" by (intro ld_cong) auto
  also have "\<dots> = 0" by (induction n arbitrary: a) auto
  finally show ?thesis .
qed

lemma ld64_zero_page:
  "page_aligned t \<Longrightarrow> i < 512 \<Longrightarrow> (\<And>a. PGROUNDDOWN a = t \<Longrightarrow> m a = 0) \<Longrightarrow> ld64 m (t + 8 * i) = 0"
  unfolding ld64_def by (rule ld_zero) (use slot_in_page in simp)

end
