(* ===== verification/Cstring.thy ===== *)
theory Cstring
  imports Machine
begin

text \<open>
  \<^verbatim>\<open>kernel/string.c\<close>: the byte and string routines of the kernel, as functions from memory
  to memory, and their specifications: \<^verbatim>\<open>memset\<close> and \<^verbatim>\<open>memmove\<close> (overlapping regions
  included) in closed form, the comparison routines, and the copy routines on
  NUL-terminated strings.
\<close>

section \<open>kernel/string.c\<close>

text \<open>
  A C \<^verbatim>\<open>for\<close> loop that counts up is a \<^const>\<open>fold\<close> over the indices; a \<^verbatim>\<open>while\<close> loop that
  counts \<^verbatim>\<open>n\<close> down is a recursion on the number of iterations left.
\<close>

definition memset :: "ram \<Rightarrow> addr \<Rightarrow> uint32 \<Rightarrow> uint32 \<Rightarrow> ram" where
  "memset m dst c n = fold (\<lambda>i m. m(dst + word_of_nat i := ucast c)) [0..<unat n] m"

fun memcmp_loop :: "ram \<Rightarrow> addr \<Rightarrow> addr \<Rightarrow> nat \<Rightarrow> int" where
  "memcmp_loop m s1 s2 0 = 0"
| "memcmp_loop m s1 s2 (Suc n) =
     (if m s1 \<noteq> m s2 then uint (m s1) - uint (m s2)
      else memcmp_loop m (s1 + 1) (s2 + 1) n)"

definition memcmp :: "ram \<Rightarrow> addr \<Rightarrow> addr \<Rightarrow> uint32 \<Rightarrow> int" where
  "memcmp m v1 v2 n = memcmp_loop m v1 v2 (unat n)"

fun move_backward :: "ram \<Rightarrow> addr \<Rightarrow> addr \<Rightarrow> nat \<Rightarrow> ram" where
  "move_backward m d s 0 = m"
| "move_backward m d s (Suc n) = move_backward (m(d - 1 := m (s - 1))) (d - 1) (s - 1) n"

fun move_forward :: "ram \<Rightarrow> addr \<Rightarrow> addr \<Rightarrow> nat \<Rightarrow> ram" where
  "move_forward m d s 0 = m"
| "move_forward m d s (Suc n) = move_forward (m(d := m s)) (d + 1) (s + 1) n"

definition memmove :: "ram \<Rightarrow> addr \<Rightarrow> addr \<Rightarrow> uint32 \<Rightarrow> ram" where
  "memmove m dst src n =
     (if src < dst \<and> src + ucast n > dst
      then move_backward m (dst + ucast n) (src + ucast n) (unat n)
      else move_forward m dst src (unat n))"

definition memcpy :: "ram \<Rightarrow> addr \<Rightarrow> addr \<Rightarrow> uint32 \<Rightarrow> ram" where
  "memcpy m dst src n = memmove m dst src n"

fun strncmp_loop :: "ram \<Rightarrow> addr \<Rightarrow> addr \<Rightarrow> nat \<Rightarrow> int" where
  "strncmp_loop m p q 0 = 0"
| "strncmp_loop m p q (Suc n) =
     (if m p \<noteq> 0 \<and> m p = m q then strncmp_loop m (p + 1) (q + 1) n
      else uint (m p) - uint (m q))"

definition strncmp :: "ram \<Rightarrow> addr \<Rightarrow> addr \<Rightarrow> uint32 \<Rightarrow> int" where
  "strncmp m p q n = strncmp_loop m p q (unat n)"

fun zero_fill :: "ram \<Rightarrow> addr \<Rightarrow> nat \<Rightarrow> ram" where
  "zero_fill m s 0 = m"
| "zero_fill m s (Suc n) = zero_fill (m(s := 0)) (s + 1) n"

fun strncpy_loop :: "ram \<Rightarrow> addr \<Rightarrow> addr \<Rightarrow> nat \<Rightarrow> ram" where
  "strncpy_loop m s t 0 = m"
| "strncpy_loop m s t (Suc n) =
     (let m' = m(s := m t)
      in if m t \<noteq> 0 then strncpy_loop m' (s + 1) (t + 1) n else zero_fill m' (s + 1) n)"

definition strncpy :: "ram \<Rightarrow> addr \<Rightarrow> addr \<Rightarrow> uint32 \<Rightarrow> ram" where
  "strncpy m s t n = strncpy_loop m s t (nat (sint n))"

text \<open>\<open>k\<close> counts the bytes \<^verbatim>\<open>--n > 0\<close> still allows; the last store is the final \<^verbatim>\<open>*s = 0\<close>.\<close>

fun safestrcpy_loop :: "ram \<Rightarrow> addr \<Rightarrow> addr \<Rightarrow> nat \<Rightarrow> ram" where
  "safestrcpy_loop m s t 0 = m(s := 0)"
| "safestrcpy_loop m s t (Suc k) =
     (let m' = m(s := m t)
      in if m t \<noteq> 0 then safestrcpy_loop m' (s + 1) (t + 1) k else m'(s + 1 := 0))"

definition safestrcpy :: "ram \<Rightarrow> addr \<Rightarrow> addr \<Rightarrow> uint32 \<Rightarrow> ram" where
  "safestrcpy m s t n = (if sint n \<le> 0 then m else safestrcpy_loop m s t (nat (sint n) - 1))"

text \<open>A string without a terminator makes \<^verbatim>\<open>strlen\<close> run on: then there is no result.\<close>

partial_function (option) strlen_from :: "ram \<Rightarrow> addr \<Rightarrow> nat \<Rightarrow> nat option" where
  "strlen_from m s n = (if m (s + word_of_nat n) \<noteq> 0 then strlen_from m s (Suc n) else Some n)"

definition strlen :: "ram \<Rightarrow> addr \<Rightarrow> nat option" where
  "strlen m s = strlen_from m s 0"

section \<open>memset and memmove in closed form\<close>

lemma memset_upto:
  "fold (\<lambda>i m. m(dst + word_of_nat i := c)) [0..<n] (m :: ram)
   = (\<lambda>a. if unat (a - dst) < n then c else m a)" if "n \<le> 2 ^ 64"
  using that
proof (induction n)
  case (Suc n)
  have "(\<lambda>a. if unat (a - dst) < n then c else m a)(dst + word_of_nat n := c)
        = (\<lambda>a. if unat (a - dst) < Suc n then c else m a)"
  proof
    fix a
    have "a = dst + word_of_nat n \<longleftrightarrow> a - dst = word_of_nat n"
      by (auto simp: algebra_simps)
    also have "\<dots> \<longleftrightarrow> unat (a - dst) = n"
      using Suc.prems unat_word_of_nat_64 [of n] by (auto simp flip: word_unat_eq_iff)
    finally have "a = dst + word_of_nat n \<longleftrightarrow> unat (a - dst) = n" .
    then show "((\<lambda>a. if unat (a - dst) < n then c else m a)(dst + word_of_nat n := c)) a
               = (if unat (a - dst) < Suc n then c else m a)"
      by (auto simp: less_Suc_eq)
  qed
  with Suc show ?case by (simp del: fun_upd_apply)
qed simp

text \<open>What \<^verbatim>\<open>memset\<close> leaves in memory, in one step.\<close>

lemma memset_eq:
  "memset m dst c n = (\<lambda>a. if unat (a - dst) < unat n then ucast c else m a)"
proof -
  have "unat n \<le> 2 ^ 64"
    using unsigned_less [of n] by (rule less_imp_le [OF less_le_trans]) simp
  then show ?thesis by (simp add: memset_def memset_upto)
qed

lemma move_forward_eq:
  assumes "n < 2 ^ 64" and "d = s \<or> n \<le> unat (d - s)"
  shows "move_forward m d s n = (\<lambda>a. if unat (a - d) < n then m (s + (a - d)) else m a)"
  using assms
proof (induction n arbitrary: m d s)
  case (Suc n)
  have cond: "d + 1 = s + 1 \<or> n \<le> unat ((d + 1) - (s + 1))"
    using Suc.prems(2) by auto
  have "move_forward m d s (Suc n)
        = (\<lambda>a. if unat (a - (d + 1)) < n then (m(d := m s)) (s + 1 + (a - (d + 1)))
               else (m(d := m s)) a)"
    using Suc.IH [OF _ cond, of "m(d := m s)"] Suc.prems(1) by (simp del: fun_upd_apply)
  also have "\<dots> = (\<lambda>a. if unat (a - d) < Suc n then m (s + (a - d)) else m a)"
  proof
    fix a
    have shift: "s + 1 + (a - (d + 1)) = s + (a - d)" by simp
    show "(if unat (a - (d + 1)) < n then (m(d := m s)) (s + 1 + (a - (d + 1)))
           else (m(d := m s)) a) = (if unat (a - d) < Suc n then m (s + (a - d)) else m a)"
    proof (cases "a = d")
      case True
      have "unat (- 1 :: addr) = 2 ^ 64 - 1"
        by (simp add: unsigned_minus_1_eq_mask mask_eq_exp_minus_1)
      with True Suc.prems(1) show ?thesis by simp
    next
      case False
      then have "a - d \<noteq> 0" by simp
      then have un: "unat (a - (d + 1)) = unat (a - d) - 1" and pos: "unat (a - d) \<noteq> 0"
        using unat_minus_one [of "a - d"] by (simp_all add: diff_diff_eq unat_0_iff)
      have "s + (a - d) \<noteq> d" if "unat (a - d) < Suc n"
      proof
        assume "s + (a - d) = d"
        then have "d - s = a - d" by (metis add_diff_cancel_left')
        with Suc.prems(2) that \<open>a - d \<noteq> 0\<close> show False by auto
      qed
      with un pos False shift show ?thesis by (cases "unat (a - d)") auto
    qed
  qed
  finally show ?case .
qed simp

lemma move_backward_eq:
  assumes "n < 2 ^ 64" and "s = d \<or> n \<le> unat (s - d)"
  shows "move_backward m (d + word_of_nat n) (s + word_of_nat n) n
         = (\<lambda>a. if unat (a - d) < n then m (s + (a - d)) else m a)"
  using assms
proof (induction n arbitrary: m)
  case (Suc n)
  define m' where "m' = m(d + word_of_nat n := m (s + word_of_nat n))"
  have "move_backward m (d + word_of_nat (Suc n)) (s + word_of_nat (Suc n)) (Suc n)
        = move_backward m' (d + word_of_nat n) (s + word_of_nat n) n"
    by (simp add: m'_def)
  also have "\<dots> = (\<lambda>a. if unat (a - d) < n then m' (s + (a - d)) else m' a)"
    using Suc by auto
  also have "\<dots> = (\<lambda>a. if unat (a - d) < Suc n then m (s + (a - d)) else m a)"
  proof
    fix a
    have at_n: "a = d + word_of_nat n \<longleftrightarrow> unat (a - d) = n"
    proof
      assume "unat (a - d) = n"
      then have "a - d = word_of_nat n" by (rule word_eq_of_nat)
      then show "a = d + word_of_nat n" by (metis add_diff_eq add_diff_cancel_left')
    qed (use Suc.prems(1) unat_word_of_nat_64 [of n] in simp)
    have keep: "s + (a - d) \<noteq> d + word_of_nat n" if "unat (a - d) < n"
    proof
      assume "s + (a - d) = d + word_of_nat n"
      then have eq: "s - d = word_of_nat n - (a - d)" by (simp add: algebra_simps)
      have "unat (word_of_nat n - (a - d) :: addr) = n - unat (a - d)"
        using that Suc.prems(1) unat_word_of_nat_64 [of n]
        by (subst unat_sub) (auto simp: word_le_nat_alt)
      then have "unat (s - d) = n - unat (a - d)" by (subst eq)
      with that have "0 < unat (s - d)" "unat (s - d) < Suc n" by simp_all
      with Suc.prems(2) show False by auto
    qed
    show "(if unat (a - d) < n then m' (s + (a - d)) else m' a)
          = (if unat (a - d) < Suc n then m (s + (a - d)) else m a)"
    proof (cases "unat (a - d) < n")
      case True
      with keep show ?thesis by (simp add: m'_def)
    next
      case False
      then show ?thesis using at_n by (auto simp: m'_def less_Suc_eq)
    qed
  qed
  finally show ?case .
qed simp

text \<open>
  \<^verbatim>\<open>memmove\<close> copies the source as it was before the call, whether or not the regions
  overlap, as long as neither region wraps around the end of the address space.
\<close>

lemma memmove_eq:
  assumes src: "unat src + unat n < 2 ^ 64" and dst: "unat dst + unat n \<le> 2 ^ 64"
  shows "memmove m dst src n
         = (\<lambda>a. if unat (a - dst) < unat n then m (src + (a - dst)) else m a)"
proof -
  have n: "unat n < 2 ^ 64" "word_of_nat (unat n) = (ucast n :: addr)"
    using src by simp_all
  have sn: "unat (src + ucast n) = unat src + unat n"
    using src by (subst unat_add_small) (simp_all add: unat_ucast_up)
  show ?thesis
  proof (cases "src < dst \<and> src + ucast n > dst")
    case True
    then have "unat n \<le> unat (src - dst)"
      using dst by (simp add: unat_sub_if' word_less_nat_alt)
    with move_backward_eq [OF n(1), of src dst m] True n(2) show ?thesis
      by (simp add: memmove_def)
  next
    case False
    then have "dst = src \<or> unat n \<le> unat (dst - src)"
      using src sn by (auto simp: unat_sub_if' word_less_nat_alt word_unat_eq_iff)
    with move_forward_eq [OF n(1), of dst src m] False show ?thesis
      by (auto simp: memmove_def)
  qed
qed

section \<open>Strings\<close>

text \<open>\<open>cstr m a k\<close>: a NUL-terminated string of length \<open>k\<close> starts at address \<open>a\<close>.\<close>

definition cstr :: "ram \<Rightarrow> addr \<Rightarrow> nat \<Rightarrow> bool" where
  "cstr m a k \<longleftrightarrow> (\<forall>i<k. m (a + word_of_nat i) \<noteq> 0) \<and> m (a + word_of_nat k) = 0"

lemma strlen_from_step:
  "m (s + word_of_nat n) \<noteq> 0 \<Longrightarrow> strlen_from m s n = strlen_from m s (Suc n)"
  by (subst strlen_from.simps) simp

lemma strlen_from_skip:
  "(\<And>i. n \<le> i \<Longrightarrow> i < n + k \<Longrightarrow> m (s + word_of_nat i) \<noteq> 0)
   \<Longrightarrow> strlen_from m s n = strlen_from m s (n + k)"
proof (induction k)
  case (Suc k)
  have "m (s + word_of_nat (n + k)) \<noteq> 0" by (rule Suc.prems) auto
  then have "strlen_from m s (n + k) = strlen_from m s (Suc (n + k))"
    by (rule strlen_from_step)
  with Suc show ?case by simp
qed simp

lemma strlen_cstr: "cstr m s k \<Longrightarrow> strlen m s = Some k"
  using strlen_from_skip [of 0 k m s]
  by (simp add: cstr_def strlen_def strlen_from.simps [of m s k])

lemma strlen_Some:
  assumes "strlen_from m s n = Some k"
  shows "n \<le> k \<and> (\<forall>i. n \<le> i \<longrightarrow> i < k \<longrightarrow> m (s + word_of_nat i) \<noteq> 0) \<and> m (s + word_of_nat k) = 0"
proof (rule strlen_from.raw_induct [where P = "\<lambda>m s n k. n \<le> k \<and>
    (\<forall>i. n \<le> i \<longrightarrow> i < k \<longrightarrow> m (s + word_of_nat i) \<noteq> 0) \<and> m (s + word_of_nat k) = 0",
    OF _ assms])
  fix f :: "ram \<Rightarrow> addr \<Rightarrow> nat \<Rightarrow> nat option" and m :: ram and s :: addr and n k
  assume IH: "\<And>m s n k. f m s n = Some k \<Longrightarrow> n \<le> k \<and>
      (\<forall>i. n \<le> i \<longrightarrow> i < k \<longrightarrow> m (s + word_of_nat i) \<noteq> 0) \<and> m (s + word_of_nat k) = 0"
    and eq: "(if m (s + word_of_nat n) \<noteq> 0 then f m s (Suc n) else Some n) = Some k"
  show "n \<le> k \<and> (\<forall>i. n \<le> i \<longrightarrow> i < k \<longrightarrow> m (s + word_of_nat i) \<noteq> 0) \<and> m (s + word_of_nat k) = 0"
  proof (cases "m (s + word_of_nat n) = 0")
    case True
    with eq show ?thesis by auto
  next
    case False
    with eq have ih: "Suc n \<le> k" "\<And>i. Suc n \<le> i \<Longrightarrow> i < k \<Longrightarrow> m (s + word_of_nat i) \<noteq> 0"
      "m (s + word_of_nat k) = 0" using IH [of m s "Suc n" k] by auto
    have "m (s + word_of_nat i) \<noteq> 0" if "n \<le> i" "i < k" for i
      using ih(2) [of i] that False by (cases "i = n") auto
    with ih show ?thesis by auto
  qed
qed

text \<open>\<^verbatim>\<open>strlen\<close> returns exactly the length of a terminated string.\<close>

lemma strlen_iff: "strlen m s = Some k \<longleftrightarrow> cstr m s k"
proof
  assume "strlen m s = Some k"
  then show "cstr m s k" using strlen_Some [of m s 0 k] by (simp add: strlen_def cstr_def)
qed (rule strlen_cstr)

lemma memcmp_loop_0: "memcmp_loop m p q n = 0 \<longleftrightarrow>
  (\<forall>i<n. m (p + word_of_nat i) = m (q + word_of_nat i))"
proof (induction n arbitrary: p q)
  case (Suc n)
  have "(\<forall>i<Suc n. m (p + word_of_nat i) = m (q + word_of_nat i)) \<longleftrightarrow>
        m p = m q \<and> (\<forall>i<n. m (p + 1 + word_of_nat i) = m (q + 1 + word_of_nat i))"
    by (simp add: all_less_Suc_conv_0 algebra_simps)
  with Suc show ?case by (simp flip: word_uint_eq_iff)
qed simp

lemma strncmp_loop_0: "strncmp_loop m p q n = 0 \<longleftrightarrow>
  (\<forall>i<n. (\<forall>j<i. m (p + word_of_nat j) \<noteq> 0) \<longrightarrow> m (p + word_of_nat i) = m (q + word_of_nat i))"
proof (induction n arbitrary: p q)
  case (Suc n)
  have "(\<forall>i<Suc n. (\<forall>j<i. m (p + word_of_nat j) \<noteq> 0) \<longrightarrow> m (p + word_of_nat i) = m (q + word_of_nat i))
    \<longleftrightarrow> m p = m q \<and> (m p \<noteq> 0 \<longrightarrow> (\<forall>i<n. (\<forall>j<i. m (p + 1 + word_of_nat j) \<noteq> 0) \<longrightarrow>
          m (p + 1 + word_of_nat i) = m (q + 1 + word_of_nat i)))"
    by (auto simp: all_less_Suc_conv_0 algebra_simps)
  with Suc show ?case by (auto simp flip: word_uint_eq_iff)
qed simp

lemma zero_fill_eq:
  "n \<le> 2 ^ 64 \<Longrightarrow> zero_fill m s n = (\<lambda>a. if unat (a - s) < n then 0 else m a)"
proof (induction n arbitrary: m s)
  case (Suc n)
  show ?case
  proof
    fix a
    have IH: "zero_fill (m(s := 0)) (s + 1) n a
              = (if unat (a - (s + 1)) < n then 0 else (m(s := 0)) a)"
      using Suc.IH [of "m(s := 0)" "s + 1"] Suc.prems by (simp del: fun_upd_apply)
    show "zero_fill m s (Suc n) a = (if unat (a - s) < Suc n then 0 else m a)"
    proof (cases "a = s")
      case False
      then have "unat (a - (s + 1)) = unat (a - s) - 1" "unat (a - s) \<noteq> 0"
        using unat_minus_one [of "a - s"] by (simp_all add: diff_diff_eq unat_0_iff)
      with IH False show ?thesis by auto
    qed (use IH in simp)
  qed
qed simp

text \<open>
  A destination at \<open>s\<close> whose bytes are written in order never overtakes the unread part of a
  source at \<open>t\<close>.
\<close>

definition no_clobber :: "addr \<Rightarrow> addr \<Rightarrow> nat \<Rightarrow> bool" where
  "no_clobber s t n \<longleftrightarrow> n < 2 ^ 64 \<and> (s = t \<or> n \<le> unat (s - t))"

lemma no_clobber_Suc:
  assumes "no_clobber s t (Suc n)"
  shows "no_clobber (s + 1) (t + 1) n"
    and "i < n \<Longrightarrow> t + 1 + word_of_nat i \<noteq> s"
    and "i < n \<Longrightarrow> s + 1 + word_of_nat i \<noteq> s"
proof -
  show "no_clobber (s + 1) (t + 1) n"
    using assms by (auto simp: no_clobber_def)
  assume i: "i < n"
  have u: "unat (1 + word_of_nat i :: addr) = Suc i"
    using unat_word_of_nat_64 [of "Suc i"] i assms by (simp add: no_clobber_def)
  then have "1 + word_of_nat i \<noteq> (0 :: addr)" by auto
  then show "s + 1 + word_of_nat i \<noteq> s" by (simp add: add.assoc)
  show "t + 1 + word_of_nat i \<noteq> s"
  proof
    assume "t + 1 + word_of_nat i = s"
    then have "s - t = 1 + word_of_nat i" by (simp add: algebra_simps)
    with u i assms show False by (auto simp: no_clobber_def)
  qed
qed

lemma strncpy_loop_spec:
  assumes "no_clobber s t n" and "l \<le> n" and "\<forall>i<l. m (t + word_of_nat i) \<noteq> 0"
    and "l < n \<Longrightarrow> m (t + word_of_nat l) = 0"
  shows "(\<forall>i<n. strncpy_loop m s t n (s + word_of_nat i) = (if i < l then m (t + word_of_nat i) else 0))
    \<and> (\<forall>a. n \<le> unat (a - s) \<longrightarrow> strncpy_loop m s t n a = m a)"
  using assms
proof (induction n arbitrary: m s t l)
  case (Suc n)
  note nc = no_clobber_Suc [OF Suc.prems(1)]
  have n64: "Suc n < 2 ^ 64" using Suc.prems(1) by (simp add: no_clobber_def)
  define m1 where "m1 = m(s := m t)"
  show ?case
  proof (cases l)
    case 0
    with Suc.prems(4) have "m t = 0" by simp
    then have eq: "strncpy_loop m s t (Suc n) = zero_fill m1 (s + 1) n" by (simp add: m1_def)
    have z: "strncpy_loop m s t (Suc n) a = (if unat (a - (s + 1)) < n then 0 else m1 a)" for a
      using n64 unfolding eq by (simp add: zero_fill_eq)
    have "strncpy_loop m s t (Suc n) (s + word_of_nat i) = 0" if "i < Suc n" for i
    proof (cases i)
      case 0
      with \<open>m t = 0\<close> show ?thesis by (simp add: z m1_def del: strncpy_loop.simps)
    next
      case (Suc j)
      with that n64 show ?thesis
        by (simp add: z unat_word_of_nat_64 del: strncpy_loop.simps)
    qed
    moreover have "strncpy_loop m s t (Suc n) a = m a" if "Suc n \<le> unat (a - s)" for a
      using that word_diff_Suc [of n a s] by (auto simp: z m1_def simp del: strncpy_loop.simps)
    ultimately show ?thesis using 0 by simp
  next
    case (Suc l')
    with Suc.prems(3) have "m t \<noteq> 0" by force
    then have eq: "strncpy_loop m s t (Suc n) = strncpy_loop m1 (s + 1) (t + 1) n"
      by (simp add: m1_def)
    have src: "m1 (t + 1 + word_of_nat i) = m (t + word_of_nat (Suc i))" if "i < n" for i
      using nc(2) [OF that] by (simp add: m1_def algebra_simps)
    have IH: "(\<forall>i<n. strncpy_loop m1 (s + 1) (t + 1) n (s + 1 + word_of_nat i)
        = (if i < l' then m1 (t + 1 + word_of_nat i) else 0))
      \<and> (\<forall>a. n \<le> unat (a - (s + 1)) \<longrightarrow> strncpy_loop m1 (s + 1) (t + 1) n a = m1 a)"
      using Suc Suc.prems src nc(1) by (intro Suc.IH) auto
    have "strncpy_loop m1 (s + 1) (t + 1) n (s + word_of_nat i)
          = (if i < l then m (t + word_of_nat i) else 0)" if "i < Suc n" for i
    proof (cases i)
      case 0
      have "n \<le> unat (s - (s + 1))"
        using n64 by (simp add: unsigned_minus_1_eq_mask mask_eq_exp_minus_1)
      with IH 0 Suc show ?thesis by (simp add: m1_def)
    next
      case (Suc j)
      with IH src [of j] that \<open>l = Suc l'\<close> show ?thesis
        by (simp add: algebra_simps)
    qed
    moreover have "strncpy_loop m1 (s + 1) (t + 1) n a = m a" if "Suc n \<le> unat (a - s)" for a
      using IH that word_diff_Suc [of n a s] by (auto simp: m1_def)
    ultimately show ?thesis using eq by simp
  qed
qed simp

lemma safestrcpy_loop_spec:
  assumes "no_clobber s t (Suc k)" and "\<forall>i<l. m (t + word_of_nat i) \<noteq> 0"
    and "l = k \<or> l < k \<and> m (t + word_of_nat l) = 0"
  shows "(\<forall>i<l. safestrcpy_loop m s t k (s + word_of_nat i) = m (t + word_of_nat i))
    \<and> safestrcpy_loop m s t k (s + word_of_nat l) = 0
    \<and> (\<forall>a. k < unat (a - s) \<longrightarrow> safestrcpy_loop m s t k a = m a)"
  using assms
proof (induction k arbitrary: m s t l)
  case (Suc k)
  note nc = no_clobber_Suc [OF Suc.prems(1)]
  have k64: "Suc (Suc k) < 2 ^ 64" using Suc.prems(1) by (simp add: no_clobber_def)
  define m1 where "m1 = m(s := m t)"
  show ?case
  proof (cases l)
    case 0
    with Suc.prems(3) have "m t = 0" by simp
    then have "safestrcpy_loop m s t (Suc k) = m1(s + 1 := 0)" by (simp add: m1_def)
    then show ?thesis using 0 \<open>m t = 0\<close> by (auto simp: m1_def)
  next
    case (Suc l')
    with Suc.prems(2) have "m t \<noteq> 0" by force
    then have eq: "safestrcpy_loop m s t (Suc k) = safestrcpy_loop m1 (s + 1) (t + 1) k"
      by (simp add: m1_def)
    have src: "m1 (t + 1 + word_of_nat i) = m (t + word_of_nat (Suc i))" if "i < Suc k" for i
      using nc(2) [OF that] by (simp add: m1_def algebra_simps)
    have IH: "(\<forall>i<l'. safestrcpy_loop m1 (s + 1) (t + 1) k (s + 1 + word_of_nat i)
        = m1 (t + 1 + word_of_nat i))
      \<and> safestrcpy_loop m1 (s + 1) (t + 1) k (s + 1 + word_of_nat l') = 0
      \<and> (\<forall>a. k < unat (a - (s + 1)) \<longrightarrow> safestrcpy_loop m1 (s + 1) (t + 1) k a = m1 a)"
      using Suc Suc.prems src nc(1) by (intro Suc.IH) auto
    have "safestrcpy_loop m1 (s + 1) (t + 1) k (s + word_of_nat i) = m (t + word_of_nat i)"
      if "i < l" for i
    proof (cases i)
      case 0
      have "k < unat (s - (s + 1))"
        using k64 by (simp add: unsigned_minus_1_eq_mask mask_eq_exp_minus_1)
      with IH 0 show ?thesis by (simp add: m1_def)
    next
      case (Suc j)
      then have "j < l'" "j < Suc k" using that \<open>l = Suc l'\<close> Suc.prems(3) by auto
      with IH src [of j] Suc show ?thesis by (simp add: algebra_simps)
    qed
    moreover have "safestrcpy_loop m1 (s + 1) (t + 1) k a = m a" if "Suc k < unat (a - s)" for a
      using IH that word_diff_Suc [of "Suc k" a s] by (auto simp: m1_def)
    ultimately show ?thesis using eq IH Suc by (simp add: algebra_simps)
  qed
qed auto

section \<open>Properties\<close>

text \<open>
  C15. \<^verbatim>\<open>memmove\<close> copies \<^verbatim>\<open>n\<close> bytes as they were before the call, also when source and
  destination overlap in either direction, and changes no byte outside the destination, for
  regions that do not wrap around the end of the address space.
\<close>

theorem memmove_copies:
  assumes "unat src + unat n < 2 ^ 64" "unat dst + unat n \<le> 2 ^ 64"
  shows "memmove m dst src n a = (if unat (a - dst) < unat n then m (src + (a - dst)) else m a)"
  by (simp add: memmove_eq [OF assms])

theorem memmove_copies_witness:
  "memmove (\<lambda>a. ucast a) 0x1002 0x1000 5 0x1003
   = (if unat (0x1003 - 0x1002 :: addr) < unat (5 :: uint32)
      then ucast (0x1000 + (0x1003 - 0x1002) :: addr) else ucast (0x1003 :: addr))"
  by (rule memmove_copies) simp_all

text \<open>
  C16. \<^verbatim>\<open>safestrcpy\<close> with a positive size \<^verbatim>\<open>n\<close> and a destination that does not overtake the source
  leaves a NUL-terminated string of the first \<open>l\<close> bytes of the source, where \<open>l\<close> is the
  source's length or \<open>n - 1\<close>, whichever is smaller; it writes nothing past \<^verbatim>\<open>n\<close> bytes.
\<close>

theorem safestrcpy_terminates_string:
  assumes "0 < sint n" "no_clobber s t (nat (sint n))" "\<forall>i<l. m (t + word_of_nat i) \<noteq> 0"
    and "l = nat (sint n) - 1 \<or> l < nat (sint n) - 1 \<and> m (t + word_of_nat l) = 0"
  shows "cstr (safestrcpy m s t n) s l \<and>
    (\<forall>i<l. safestrcpy m s t n (s + word_of_nat i) = m (t + word_of_nat i)) \<and>
    (\<forall>a. nat (sint n) \<le> unat (a - s) \<longrightarrow> safestrcpy m s t n a = m a)"
proof -
  define k where "k = nat (sint n) - 1"
  have k: "nat (sint n) = Suc k" and eq: "safestrcpy m s t n = safestrcpy_loop m s t k"
    using assms(1) by (simp_all add: k_def safestrcpy_def)
  show ?thesis
    using safestrcpy_loop_spec [of s t k l m] assms(2,3,4) unfolding k eq cstr_def by auto
qed

theorem safestrcpy_terminates_string_witness:
  "cstr (safestrcpy (\<lambda>_. 65) 0x2000 0x1000 16) 0x2000 15 \<and>
   safestrcpy (\<lambda>_. 65) 0x2000 0x1000 16 0x2010 = 65"
  using safestrcpy_terminates_string [of 16 "0x2000" "0x1000" 15 "\<lambda>_. 65"]
  by (simp add: no_clobber_def)

end
