(* ===== verification/Kalloc.thy ===== *)
theory Kalloc
  imports Cstring
begin

text \<open>
  \<^verbatim>\<open>kernel/kalloc.c\<close>: the allocator of 4096-byte physical pages. The free pages are linked
  through their own first eight bytes, so the model keeps the list where the code does: in
  memory, with only the head pointer \<^verbatim>\<open>kmem.freelist\<close> beside it. \<open>kinv s xs\<close> says that the
  list in memory is \<open>xs\<close>; the operations refine a stack of pages. The routines run under
  \<^verbatim>\<open>kmem.lock\<close>, so each of them is one atomic step of the model.
\<close>

section \<open>State and operations\<close>

text \<open>
  \<open>ram\<close> is the physical memory, \<open>freelist\<close> the field of \<^verbatim>\<open>kmem\<close>; \<open>kend\<close>, \<open>ketext\<close> and
  \<open>ktrampoline\<close> are the linker's symbols \<^verbatim>\<open>end\<close>, \<^verbatim>\<open>etext\<close> and
  \<^verbatim>\<open>trampoline\<close> (\<^verbatim>\<open>kernel/kernel.ld\<close>), which never change.
\<close>

record kmem =
  ram :: ram
  freelist :: addr
  kend :: addr
  ketext :: addr
  ktrampoline :: addr

definition kfree :: "addr \<Rightarrow> 'z kmem_scheme \<Rightarrow> 'z kmem_scheme res" where
  "kfree pa s =
     (if pa mod PGSIZE \<noteq> 0 \<or> pa < kend s \<or> pa \<ge> PHYSTOP then Panic ''kfree''
      else let m = memset (ram s) pa 1 (ucast PGSIZE);
               m' = st64 m pa (freelist s)
           in Ok (s\<lparr>ram := m', freelist := pa\<rparr>))"

definition kalloc :: "'z kmem_scheme \<Rightarrow> addr \<times> 'z kmem_scheme" where
  "kalloc s =
     (let r = freelist s;
          s1 = (if r \<noteq> 0 then s\<lparr>freelist := ld64 (ram s) r\<rparr> else s);
          s2 = (if r \<noteq> 0 then s1\<lparr>ram := memset (ram s1) r 5 (ucast PGSIZE)\<rparr> else s1)
      in (r, s2))"

text \<open>
  The loop of \<^verbatim>\<open>freerange\<close> stops because \<^verbatim>\<open>kfree\<close> panics on any page at or beyond
  \<^verbatim>\<open>PHYSTOP\<close>.
\<close>

function freerange_loop :: "addr \<Rightarrow> addr \<Rightarrow> 'z kmem_scheme \<Rightarrow> 'z kmem_scheme res" where
  "freerange_loop p pa_end s =
     (if p + PGSIZE \<le> pa_end
      then and_then (kfree p s) (\<lambda>s'. freerange_loop (p + PGSIZE) pa_end s')
      else Ok s)"
  by pat_completeness auto
termination
proof (relation "measure (\<lambda>(p, _, _). unat PHYSTOP - unat p)")
  fix p pa_end :: addr and s s' :: "'z kmem_scheme"
  assume "kfree p s = Ok s'"
  then have "p < PHYSTOP" by (auto simp: kfree_def split: if_splits)
  then have lt: "unat p < unat PHYSTOP" by (simp add: word_less_nat_alt)
  moreover have "unat PHYSTOP + 4096 < 2 ^ 64" by (simp add: PHYSTOP_def KERNBASE_def)
  ultimately have "unat (p + PGSIZE) = unat p + 4096"
    by (subst unat_add_small) (simp_all add: PGSIZE_def)
  with lt show "((p + PGSIZE, pa_end, s'), (p, pa_end, s))
      \<in> measure (\<lambda>(p, _, _). unat PHYSTOP - unat p)" by simp
qed auto

declare freerange_loop.simps [simp del]

definition freerange :: "addr \<Rightarrow> addr \<Rightarrow> 'z kmem_scheme \<Rightarrow> 'z kmem_scheme res" where
  "freerange pa_start pa_end s = freerange_loop (PGROUNDUP pa_start) pa_end s"

definition kinit :: "'z kmem_scheme \<Rightarrow> 'z kmem_scheme res" where
  "kinit s = freerange (kend s) PHYSTOP s"

section \<open>The list in memory\<close>

text \<open>\<open>page_ok s p\<close>: the pages \<^verbatim>\<open>kfree\<close> accepts.\<close>

definition page_ok :: "'z kmem_scheme \<Rightarrow> addr \<Rightarrow> bool" where
  "page_ok s p \<longleftrightarrow> page_aligned p \<and> kend s \<le> p \<and> p < PHYSTOP"

fun flist :: "ram \<Rightarrow> addr \<Rightarrow> addr list \<Rightarrow> bool" where
  "flist m h [] \<longleftrightarrow> h = 0"
| "flist m h (x # xs) \<longleftrightarrow> h = x \<and> x \<noteq> 0 \<and> flist m (ld64 m x) xs"

definition kinv :: "'z kmem_scheme \<Rightarrow> addr list \<Rightarrow> bool" where
  "kinv s xs \<longleftrightarrow> KERNBASE \<le> kend s \<and> flist (ram s) (freelist s) xs \<and> (\<forall>x\<in>set xs. page_ok s x)"

lemma flist_0 [simp]: "flist m 0 xs \<longleftrightarrow> xs = []"
  by (cases xs) auto

lemma flist_unique: "flist m h xs \<Longrightarrow> flist m h ys \<Longrightarrow> xs = ys"
proof (induction xs arbitrary: h ys)
  case (Cons x xs)
  then show ?case by (cases ys) auto
qed auto

lemma flist_append: "flist m h (xs @ y # ys) \<Longrightarrow> flist m y (y # ys)"
  by (induction xs arbitrary: h) auto

lemma flist_distinct: "flist m h xs \<Longrightarrow> distinct xs"
proof (induction xs arbitrary: h)
  case (Cons x xs)
  have "x \<notin> set xs"
  proof
    assume "x \<in> set xs"
    then obtain as bs where xs: "xs = as @ x # bs" by (meson split_list)
    from Cons.prems have "flist m x (x # xs)" by auto
    moreover from Cons.prems xs have "flist m x (x # bs)" using flist_append [of m h "x # as" x bs] by simp
    ultimately have "x # xs = x # bs" by (rule flist_unique)
    with xs show False by simp
  qed
  with Cons show ?case by auto
qed simp

lemma flist_mono:
  assumes "flist m h xs" and "\<forall>a. PGROUNDDOWN a \<in> set xs \<longrightarrow> m' a = m a"
    and "\<forall>x\<in>set xs. page_aligned x"
  shows "flist m' h xs"
  using assms
proof (induction xs arbitrary: h)
  case (Cons x xs)
  have "ld64 m' (x + 8 * 0) = ld64 m (x + 8 * 0)"
    by (rule ld64_page_cong) (use Cons.prems in auto)
  with Cons show ?case by auto
qed simp

lemma kinv_distinct: "kinv s xs \<Longrightarrow> distinct xs"
  by (auto simp: kinv_def dest: flist_distinct)

lemma page_ok_nonzero: "KERNBASE \<le> kend s \<Longrightarrow> page_ok s p \<Longrightarrow> p \<noteq> 0"
  by (auto simp: page_ok_def KERNBASE_def)

lemma memset_page:
  "page_aligned p \<Longrightarrow>
   memset m p c (ucast PGSIZE) = (\<lambda>a. if PGROUNDDOWN a = p then ucast c else m a)"
  by (simp add: memset_eq in_page_iff PGSIZE_def flip: in_page_iff)

lemma kfree_ok_iff: "(\<exists>s'. kfree p s = Ok s') \<longleftrightarrow> page_ok s p"
  by (auto simp: kfree_def page_ok_def page_aligned_def Let_def)

lemma kfree_panic: "\<not> page_ok s p \<Longrightarrow> kfree p s = Panic ''kfree''"
  by (cases "p mod PGSIZE = 0") (auto simp: kfree_def page_ok_def page_aligned_def)

section \<open>kalloc and kfree on the list of free pages\<close>

text \<open>
  \<^verbatim>\<open>kfree\<close> pushes a page that is not free already, and writes to no other page.
\<close>

lemma kfree_spec:
  assumes inv: "kinv s xs" and ok: "page_ok s p" and new: "p \<notin> set xs"
  obtains s' where "kfree p s = Ok s'" and "kinv s' (p # xs)"
    and "\<And>a. PGROUNDDOWN a \<noteq> p \<Longrightarrow> ram s' a = ram s a"
    and "s' = s\<lparr>ram := ram s', freelist := p\<rparr>"
proof -
  have al: "page_aligned p" using ok by (simp add: page_ok_def)
  define m where "m = st64 (memset (ram s) p 1 (ucast PGSIZE)) p (freelist s)"
  let ?s' = "s\<lparr>ram := m, freelist := p\<rparr>"
  have step: "kfree p s = Ok ?s'"
    using ok by (cases "p mod PGSIZE = 0") (auto simp: kfree_def m_def page_ok_def page_aligned_def Let_def)
  have out: "m a = ram s a" if "PGROUNDDOWN a \<noteq> p" for a
    using that al st64_outside [of p 0 a] by (simp add: m_def memset_page)
  have "ld64 m p = freelist s" by (simp add: m_def)
  moreover have "flist m (freelist s) xs"
    by (rule flist_mono [of "ram s"]) (use inv new out in \<open>fastforce simp: kinv_def page_ok_def\<close>)+
  ultimately have "kinv ?s' (p # xs)"
    using inv ok page_ok_nonzero [of s p] by (auto simp: kinv_def page_ok_def)
  with step out show thesis by (intro that [of ?s']) auto
qed

text \<open>\<^verbatim>\<open>kalloc\<close> pops the list, fills the page with junk and writes to no other page.\<close>

lemma kalloc_spec:
  assumes inv: "kinv s (p # xs)"
  obtains s' where "kalloc s = (p, s')" and "kinv s' xs" and "page_ok s p" and "p \<notin> set xs" and "p \<noteq> 0"
    and "\<And>a. ram s' a = (if PGROUNDDOWN a = p then 5 else ram s a)"
    and "s' = s\<lparr>ram := ram s', freelist := freelist s'\<rparr>"
proof -
  have ok: "page_ok s p" and al: "page_aligned p" and nz: "p \<noteq> 0" and fp: "freelist s = p"
    using inv by (auto simp: kinv_def page_ok_def)
  have new: "p \<notin> set xs" using kinv_distinct [OF inv] by simp
  let ?m = "memset (ram s) p 5 (ucast PGSIZE)"
  let ?s' = "s\<lparr>ram := ?m, freelist := ld64 (ram s) p\<rparr>"
  have step: "kalloc s = (p, ?s')" using fp nz by (simp add: kalloc_def Let_def)
  have m: "?m a = (if PGROUNDDOWN a = p then 5 else ram s a)" for a
    using al by (simp add: memset_page)
  have "flist ?m (ld64 (ram s) p) xs"
    by (rule flist_mono [of "ram s"]) (use inv new m in \<open>auto simp: kinv_def page_ok_def\<close>)
  then have "kinv ?s' xs" using inv by (auto simp: kinv_def page_ok_def)
  with step m ok new nz show thesis by (intro that [of ?s']) auto
qed

lemma kalloc_empty: "kinv s [] \<Longrightarrow> kalloc s = (0, s)"
  by (simp add: kinv_def kalloc_def)

lemma kalloc_cases:
  assumes "kinv s xs"
  obtains (none) "xs = []" "kalloc s = (0, s)"
  | (page) p ys s' where "xs = p # ys" "kalloc s = (p, s')" "kinv s' ys" "page_ok s p"
      "p \<notin> set ys" "p \<noteq> 0" "\<And>a. ram s' a = (if PGROUNDDOWN a = p then 5 else ram s a)"
      "s' = s\<lparr>ram := ram s', freelist := freelist s'\<rparr>"
  using assms by (cases xs) (auto dest: kalloc_empty elim: kalloc_spec)

text \<open>A store into a page that is not free leaves the list alone.\<close>

lemma kinv_ram_update:
  assumes "kinv s xs" and "\<And>a. PGROUNDDOWN a \<in> set xs \<Longrightarrow> m a = ram s a"
  shows "kinv (s\<lparr>ram := m\<rparr>) xs"
proof -
  have "flist m (freelist s) xs"
    by (rule flist_mono [of "ram s"]) (use assms in \<open>auto simp: kinv_def page_ok_def\<close>)
  with assms(1) show ?thesis by (auto simp: kinv_def page_ok_def)
qed

section \<open>Boot: kinit\<close>

lemma page_aligned_unat: "page_aligned p \<longleftrightarrow> unat p mod 4096 = 0"
  by (simp add: page_aligned_def PGSIZE_def word_unat_eq_iff unat_mod_distrib)

lemma unat_PGROUNDDOWN: "unat (PGROUNDDOWN a) = unat a div 4096 * 4096"
proof -
  have "PGROUNDDOWN a = a - take_bit 12 a"
    using PGROUNDDOWN_plus_offset [of a] by (metis add_diff_cancel_right')
  moreover have t: "unat (take_bit 12 a) = unat a mod 4096"
    by (simp add: take_bit_eq_mod unat_mod_distrib)
  moreover have "take_bit 12 a \<le> a"
    using t by (simp add: word_le_nat_alt)
  ultimately have "unat (PGROUNDDOWN a) = unat a - unat a mod 4096"
    by (simp add: unat_sub)
  then show ?thesis by (simp add: minus_mod_eq_div_mult)
qed

lemma PGROUNDUP_eq: "PGROUNDUP a = PGROUNDDOWN (a + 4095)"
  by (simp add: PGROUNDUP_def PGROUNDDOWN_def PGSIZE_def add.commute)

lemma unat_PGROUNDUP: "unat a + 4095 < 2 ^ 64 \<Longrightarrow> unat (PGROUNDUP a) = (unat a + 4095) div 4096 * 4096"
  by (simp add: PGROUNDUP_eq unat_PGROUNDDOWN unat_add_small)

lemma mult_4096_step:
  fixes a b :: nat
  assumes "a mod 4096 = 0" "b mod 4096 = 0" "a < b"
  shows "a + 4096 \<le> b"
proof -
  obtain i j where "a = 4096 * i" "b = 4096 * j"
    using assms(1,2) by (metis dvdE mod_eq_0_iff_dvd)
  with assms(3) show ?thesis by simp
qed

lemma round_up_le_iff:
  fixes e q :: nat
  assumes "q mod 4096 = 0"
  shows "(e + 4095) div 4096 * 4096 \<le> q \<longleftrightarrow> e \<le> q"
proof -
  obtain k where q: "q = 4096 * k" using assms by (metis dvdE mod_eq_0_iff_dvd)
  have "(e + 4095) div 4096 * 4096 \<le> q \<longleftrightarrow> (e + 4095) div 4096 < Suc k"
    by (simp add: q less_Suc_eq_le mult.commute)
  also have "\<dots> \<longleftrightarrow> e + 4095 < Suc k * 4096" by (rule div_less_iff_less_mult) simp
  also have "\<dots> \<longleftrightarrow> e \<le> q" by (auto simp: q)
  finally show ?thesis .
qed

lemma freerange_loop_spec:
  assumes "kinv s xs" "page_aligned p" "kend s \<le> p" "\<forall>x\<in>set xs. x < p" "p \<le> PHYSTOP"
  shows "\<exists>s' ys. freerange_loop p PHYSTOP s = Ok s' \<and> kinv s' ys \<and> kend s' = kend s \<and>
    set ys = set xs \<union> {q. page_aligned q \<and> p \<le> q \<and> q < PHYSTOP}"
  using assms
proof (induction p PHYSTOP s arbitrary: xs rule: freerange_loop.induct)
  case (1 p s)
  have top: "unat PHYSTOP = 2281701376" by (simp add: PHYSTOP_def KERNBASE_def)
  have alp: "unat p mod 4096 = 0" using 1(3) by (simp add: page_aligned_unat)
  show ?case
  proof (cases "p < PHYSTOP")
    case True
    have next_p: "unat (p + PGSIZE) = unat p + 4096"
      using True top by (subst unat_add_small) (simp_all add: PGSIZE_def word_less_nat_alt)
    have guard: "p + PGSIZE \<le> PHYSTOP"
      using mult_4096_step [OF alp, of "unat PHYSTOP"] True top
      by (simp add: word_le_nat_alt word_less_nat_alt next_p)
    have okp: "page_ok s p" using 1 True by (simp add: page_ok_def)
    have newp: "p \<notin> set xs" using 1(5) by auto
    obtain s1 where s1: "kfree p s = Ok s1" "kinv s1 (p # xs)" "s1 = s\<lparr>ram := ram s1, freelist := p\<rparr>"
      using kfree_spec [OF 1(2) okp newp] by metis
    have kend1: "kend s1 = kend s" by (subst s1(3)) simp
    have lt: "p < p + PGSIZE" using next_p by (simp add: word_less_nat_alt)
    have "\<exists>s' ys. freerange_loop (p + PGSIZE) PHYSTOP s1 = Ok s' \<and> kinv s' ys \<and> kend s' = kend s1 \<and>
      set ys = set (p # xs) \<union> {q. page_aligned q \<and> p + PGSIZE \<le> q \<and> q < PHYSTOP}"
      using guard s1 1 kend1 lt alp next_p
      by (intro 1(1)) (auto simp: page_aligned_unat intro: order.strict_trans order.trans)
    moreover have "{q. page_aligned q \<and> p \<le> q \<and> q < PHYSTOP}
      = insert p {q. page_aligned q \<and> p + PGSIZE \<le> q \<and> q < PHYSTOP}"
    proof -
      have "p + PGSIZE \<le> q" if "page_aligned q" "p \<le> q" "q \<noteq> p" for q
      proof -
        have "unat q mod 4096 = 0" "unat p \<le> unat q" "unat q \<noteq> unat p"
          using that by (simp_all add: page_aligned_unat word_le_nat_alt word_unat_eq_iff)
        then have "unat p + 4096 \<le> unat q" using alp by (intro mult_4096_step) auto
        then show ?thesis by (simp add: word_le_nat_alt next_p)
      qed
      then show ?thesis using lt True 1(3) by (auto intro: order.trans less_imp_le)
    qed
    ultimately show ?thesis
      using guard s1(1) kend1 by (subst freerange_loop.simps) auto
  next
    case False
    with 1(6) have p: "p = PHYSTOP" by simp
    then have "\<not> p + PGSIZE \<le> PHYSTOP"
      by (simp add: PHYSTOP_def KERNBASE_def PGSIZE_def)
    with p 1(2) show ?thesis by (subst freerange_loop.simps) auto
  qed
qed

lemma kinit_spec:
  assumes "KERNBASE \<le> kend s" "kend s \<le> PHYSTOP" "freelist s = 0"
  shows "\<exists>s' xs. kinit s = Ok s' \<and> kinv s' xs \<and> kend s' = kend s \<and> set xs = {p. page_ok s p}"
proof -
  have top: "unat PHYSTOP = 2281701376" by (simp add: PHYSTOP_def KERNBASE_def)
  have kend: "unat (kend s) \<le> 2281701376"
    using assms(2) top by (simp add: word_le_nat_alt)
  have up: "unat (PGROUNDUP (kend s)) = (unat (kend s) + 4095) div 4096 * 4096"
    by (rule unat_PGROUNDUP) (use kend in simp)
  have le: "PGROUNDUP (kend s) \<le> q \<longleftrightarrow> kend s \<le> q" if "page_aligned q" for q
  proof -
    have q: "unat q mod 4096 = 0" using that by (simp add: page_aligned_unat)
    then show ?thesis by (simp only: word_le_nat_alt up round_up_le_iff)
  qed
  have "page_aligned PHYSTOP" by (simp add: page_aligned_unat top)
  from le [OF this] assms(2) have le_top: "PGROUNDUP (kend s) \<le> PHYSTOP" by simp
  have al: "page_aligned (PGROUNDUP (kend s))" by (simp add: PGROUNDUP_eq)
  have "\<exists>s' ys. freerange_loop (PGROUNDUP (kend s)) PHYSTOP s = Ok s' \<and> kinv s' ys \<and> kend s' = kend s \<and>
    set ys = set [] \<union> {q. page_aligned q \<and> PGROUNDUP (kend s) \<le> q \<and> q < PHYSTOP}"
    using assms al le_top le [OF al] by (intro freerange_loop_spec) (auto simp: kinv_def)
  then show ?thesis
    using le by (auto simp: kinit_def freerange_def page_ok_def)
qed

section \<open>The allocator's contract\<close>

text \<open>
  A client asks for pages and gives back pages it holds. \<open>serve\<close> runs a sequence of such
  requests against an allocator; \<open>own\<close> are the pages the client holds.
\<close>

datatype request = Alloc | Free nat

fun serve ::
  "('s \<Rightarrow> addr \<times> 's) \<Rightarrow> (addr \<Rightarrow> 's \<Rightarrow> 's res) \<Rightarrow> request list \<Rightarrow> addr list \<Rightarrow> 's \<Rightarrow> (addr list \<times> 's) res"
where
  "serve alloc free [] own s = Ok (own, s)"
| "serve alloc free (Alloc # rs) own s =
     (case alloc s of (p, s') \<Rightarrow> serve alloc free rs (if p = 0 then own else p # own) s')"
| "serve alloc free (Free i # rs) own s =
     (if i < length own
      then and_then (free (own ! i) s) (\<lambda>s'. serve alloc free rs (remove1 (own ! i) own) s')
      else serve alloc free rs own s)"

locale page_allocator =
  fixes alloc :: "'s \<Rightarrow> addr \<times> 's"
    and free :: "addr \<Rightarrow> 's \<Rightarrow> 's res"
    and ok :: "'s \<Rightarrow> addr \<Rightarrow> bool"
    and rep :: "'s \<Rightarrow> addr list \<Rightarrow> bool"
  assumes alloc_empty: "rep s [] \<Longrightarrow> alloc s = (0, s)"
    and alloc_page: "rep s (p # xs) \<Longrightarrow>
      \<exists>s'. alloc s = (p, s') \<and> rep s' xs \<and> p \<noteq> 0 \<and> ok s p \<and> ok s' = ok s"
    and free_page: "rep s xs \<Longrightarrow> ok s p \<Longrightarrow> p \<notin> set xs \<Longrightarrow>
      \<exists>s'. free p s = Ok s' \<and> rep s' (p # xs) \<and> ok s' = ok s"
begin

text \<open>
  Whatever the client does, no page is lost, invented or held twice, and no call panics.
\<close>

lemma serve_conserves:
  assumes "rep s xs" "distinct (own @ xs)" "\<forall>p\<in>set own. ok s p"
  shows "\<exists>own' s' xs'. serve alloc free rs own s = Ok (own', s') \<and> rep s' xs' \<and>
    distinct (own' @ xs') \<and> set (own' @ xs') = set (own @ xs)"
  using assms
proof (induction rs arbitrary: own s xs)
  case Nil
  then show ?case by auto
next
  case (Cons r rs)
  show ?case
  proof (cases r)
    case Alloc
    show ?thesis
    proof (cases xs)
      case Nil
      with Cons.prems Cons.IH [of s "[]" own] Alloc alloc_empty [of s] show ?thesis by simp
    next
      case (Cons p ys)
      then obtain s' where s': "alloc s = (p, s')" "rep s' ys" "p \<noteq> 0" "ok s p" "ok s' = ok s"
        using alloc_page [of s p ys] Cons.prems(1) by auto
      with Cons Cons.prems Cons.IH [of s' ys "p # own"] Alloc show ?thesis by auto
    qed
  next
    case (Free i)
    show ?thesis
    proof (cases "i < length own")
      case True
      then have mem: "own ! i \<in> set own" by simp
      with Cons.prems obtain s' where
        s': "free (own ! i) s = Ok s'" "rep s' (own ! i # xs)" "ok s' = ok s"
        using free_page [of s xs "own ! i"] by auto
      let ?own = "remove1 (own ! i) own"
      have sets: "set ?own = set own - {own ! i}"
        using Cons.prems(2) by simp
      then have same: "set (?own @ own ! i # xs) = set (own @ xs)" using mem by auto
      have "distinct (?own @ own ! i # xs)" "\<forall>p\<in>set ?own. ok s' p"
        using Cons.prems mem sets s'(3) by auto
      from Cons.IH [OF s'(2) this] show ?thesis
        using Free True s'(1) by (simp only: same) simp
    next
      case False
      with Free Cons show ?thesis by simp
    qed
  qed
qed

end

interpretation kpages: page_allocator kalloc kfree page_ok kinv
proof
  fix s :: "'a kmem_scheme" and p xs
  show "kinv s [] \<Longrightarrow> kalloc s = (0, s)" by (rule kalloc_empty)
  show "kinv s (p # xs) \<Longrightarrow>
      \<exists>s'. kalloc s = (p, s') \<and> kinv s' xs \<and> p \<noteq> 0 \<and> page_ok s p \<and> page_ok s' = page_ok s"
  proof -
    assume "kinv s (p # xs)"
    then obtain s' where s': "kalloc s = (p, s')" "kinv s' xs" "p \<noteq> 0" "page_ok s p"
      "s' = s\<lparr>ram := ram s', freelist := freelist s'\<rparr>"
      by (elim kalloc_spec)
    moreover have "page_ok s' = page_ok s" by (subst s'(5)) (simp add: page_ok_def fun_eq_iff)
    ultimately show ?thesis by blast
  qed
  show "kinv s xs \<Longrightarrow> page_ok s p \<Longrightarrow> p \<notin> set xs \<Longrightarrow>
      \<exists>s'. kfree p s = Ok s' \<and> kinv s' (p # xs) \<and> page_ok s' = page_ok s"
  proof -
    assume pre: "kinv s xs" "page_ok s p" "p \<notin> set xs"
    obtain s' where s': "kfree p s = Ok s'" "kinv s' (p # xs)" "s' = s\<lparr>ram := ram s', freelist := p\<rparr>"
      using kfree_spec [OF pre] by metis
    moreover have "page_ok s' = page_ok s" by (subst s'(3)) (simp add: page_ok_def fun_eq_iff)
    ultimately show ?thesis by blast
  qed
qed

section \<open>Properties\<close>

text \<open>A concrete memory: two free pages, the first linked to the second.\<close>

definition two_pages :: kmem where
  "two_pages = \<lparr>ram = st64 (\<lambda>_. 0) 0x80001000 0x80002000, freelist = 0x80001000,
     kend = 0x80000000, ketext = 0x80000000, ktrampoline = 0x80000000\<rparr>"

lemma two_pages_kinv: "kinv two_pages [0x80001000, 0x80002000]"
proof -
  have al: "page_aligned 0x80001000" "page_aligned 0x80002000"
    by (simp_all add: page_aligned_def PGSIZE_def)
  have "ld64 (st64 (\<lambda>_. 0) 0x80001000 0x80002000) (0x80002000 + 8 * 0) = 0"
    by (rule ld64_zero_page [OF al(2)]) (use st64_outside [OF al(1), of 0] in auto)
  then show ?thesis
    using al by (simp add: kinv_def two_pages_def page_ok_def KERNBASE_def PHYSTOP_def)
qed

text \<open>
  C2. The page allocator never loses, invents or double-allocates a page: for every sequence
  of requests in which the client frees only pages it holds, no call panics, the pages held
  and the pages still on the free list in memory stay distinct, and together they are the
  pages that were free at the start.
\<close>

theorem kalloc_conserves_pages:
  assumes "kinv s xs"
  shows "\<exists>own s' xs'. serve kalloc kfree rs [] s = Ok (own, s') \<and> kinv s' xs' \<and>
    distinct (own @ xs') \<and> set (own @ xs') = set xs"
  using kpages.serve_conserves [of s xs "[]" rs] assms kinv_distinct [OF assms] by simp

theorem kalloc_conserves_pages_witness:
  "kinv two_pages [0x80001000, 0x80002000] \<and>
   (\<exists>own s' xs'. serve kalloc kfree [Alloc, Alloc, Free 1, Alloc] [] two_pages = Ok (own, s') \<and>
     kinv s' xs' \<and> distinct (own @ xs') \<and> set (own @ xs') = {0x80001000, 0x80002000})"
  using kalloc_conserves_pages [OF two_pages_kinv, of "[Alloc, Alloc, Free 1, Alloc]"] two_pages_kinv
  by simp

text \<open>
  C12. \<^verbatim>\<open>kinit\<close> at boot, with an empty list and \<^verbatim>\<open>end\<close> inside RAM, terminates without a panic
  and puts exactly the pages \<^verbatim>\<open>kfree\<close> accepts on the free list, each once.
\<close>

theorem kinit_frees_all_pages:
  assumes "KERNBASE \<le> kend s" "kend s \<le> PHYSTOP" "freelist s = 0"
  shows "\<exists>s' xs. kinit s = Ok s' \<and> kinv s' xs \<and> distinct xs \<and> set xs = {p. page_ok s p}"
  using kinit_spec [OF assms] kinv_distinct by blast

theorem kinit_frees_all_pages_witness:
  "\<exists>s' xs. kinit (two_pages\<lparr>freelist := 0\<rparr>) = Ok s' \<and> kinv s' xs \<and> distinct xs \<and>
     set xs = {p. page_ok (two_pages\<lparr>freelist := 0\<rparr>) p}"
  by (rule kinit_frees_all_pages) (simp_all add: two_pages_def KERNBASE_def PHYSTOP_def)

text \<open>
  C13. \<^verbatim>\<open>kfree\<close> panics exactly on a pointer that is not page aligned, lies below \<^verbatim>\<open>end\<close> or at or
  above \<^verbatim>\<open>PHYSTOP\<close>; on a page that is not free already it pushes that page on the list, and a
  following \<^verbatim>\<open>kalloc\<close> returns it, filled with junk, with every other byte of memory as it was
  before.
\<close>

theorem kfree_then_kalloc:
  assumes "kinv s xs" "p \<notin> set xs"
  shows "(if page_ok s p
     then \<exists>s1 s2. kfree p s = Ok s1 \<and> kinv s1 (p # xs) \<and> kalloc s1 = (p, s2) \<and> kinv s2 xs \<and>
       (\<forall>a. ram s2 a = (if PGROUNDDOWN a = p then 5 else ram s a))
     else kfree p s = Panic ''kfree'')"
proof (cases "page_ok s p")
  case True
  obtain s1 where s1: "kfree p s = Ok s1" "kinv s1 (p # xs)"
    "\<And>a. PGROUNDDOWN a \<noteq> p \<Longrightarrow> ram s1 a = ram s a"
    using kfree_spec [OF assms(1) True assms(2)] by metis
  obtain s2 where "kalloc s1 = (p, s2)" "kinv s2 xs"
    "\<And>a. ram s2 a = (if PGROUNDDOWN a = p then 5 else ram s1 a)"
    using kalloc_spec [OF s1(2)] by metis
  with s1 True show ?thesis by auto
qed (simp add: kfree_panic)

theorem kfree_then_kalloc_witness:
  "kinv two_pages [0x80001000, 0x80002000] \<and> 0x80003000 \<notin> set [0x80001000, 0x80002000 :: addr] \<and>
   (\<exists>s1 s2. kfree 0x80003000 two_pages = Ok s1 \<and> kalloc s1 = (0x80003000, s2))"
proof -
  have "page_ok two_pages 0x80003000"
    by (simp add: page_ok_def two_pages_def page_aligned_def PGSIZE_def PHYSTOP_def KERNBASE_def)
  with kfree_then_kalloc [OF two_pages_kinv, of "0x80003000"] two_pages_kinv show ?thesis
    by auto
qed

end
