(* ===== verification/PageTable.thy ===== *)
theory PageTable
  imports Kalloc
begin

text \<open>
  The Sv39 page tables of \<^verbatim>\<open>kernel/vm.c\<close>: \<^verbatim>\<open>walk\<close>, \<^verbatim>\<open>walkaddr\<close>, \<^verbatim>\<open>mappages\<close>, \<^verbatim>\<open>mappage\<close>,
  \<^verbatim>\<open>uvmcreate\<close> and \<^verbatim>\<open>uvmclear\<close>. The tables live in physical memory, three levels of 512
  eight-byte entries, in pages taken from the allocator. \<open>pt_wf\<close> says that the pages
  reachable from a root form a tree of allocated pages that share nothing; \<open>pte_of\<close> is the
  abstract page table, a function from virtual addresses to leaf entries, and the operations
  are shown to update it as intended.
\<close>

section \<open>Configuration\<close>

text \<open>
  The Makefile's \<^verbatim>\<open>SELECTION\<close>: the page replacement policy the kernel is compiled with.
  The preprocessor's \<^verbatim>\<open>#ifdef\<close>s become tests on this parameter.
\<close>

datatype selection = NONE | NFUA | LAPA | SCFIFO

section \<open>Operations\<close>

text \<open>
  The loop of \<^verbatim>\<open>walk\<close>, from \<^verbatim>\<open>level\<close> down to 1, then the address of the level-0 entry;
  0 is the null pointer.
\<close>

fun walk_loop :: "nat \<Rightarrow> addr \<Rightarrow> uint64 \<Rightarrow> bool \<Rightarrow> 'z kmem_scheme \<Rightarrow> addr \<times> 'z kmem_scheme" where
  "walk_loop 0 pagetable va alloc s = (pagetable + 8 * PX 0 va, s)"
| "walk_loop (Suc l) pagetable va alloc s =
     (let pte = pagetable + 8 * PX (Suc l) va;
          e = ld64 (ram s) pte
      in if e AND PTE_V \<noteq> 0 then walk_loop l (PTE2PA e) va alloc s
         else if \<not> alloc then (0, s)
         else case kalloc s of (r, s1) \<Rightarrow>
           if r = 0 then (0, s1)
           else let m = memset (ram s1) r 0 (ucast PGSIZE);
                    m' = st64 m pte (PA2PTE r OR PTE_V)
                in walk_loop l r va alloc (s1\<lparr>ram := m'\<rparr>))"

definition walk :: "addr \<Rightarrow> uint64 \<Rightarrow> bool \<Rightarrow> 'z kmem_scheme \<Rightarrow> (addr \<times> 'z kmem_scheme) res" where
  "walk pagetable va alloc s =
     (if va \<ge> MAXVA then Panic ''walk'' else Ok (walk_loop 2 pagetable va alloc s))"

definition walkaddr :: "addr \<Rightarrow> uint64 \<Rightarrow> 'z kmem_scheme \<Rightarrow> uint64 res" where
  "walkaddr pagetable va s =
     (if va \<ge> MAXVA then Ok 0
      else and_then (walk pagetable va False s) (\<lambda>(pte, s).
        if pte = 0 then Ok 0
        else let e = ld64 (ram s) pte
             in if e AND PTE_V = 0 then Ok 0
                else if e AND PTE_U = 0 then Ok 0
                else Ok (PTE2PA e)))"

lemma walk_Ok_less: "walk pagetable va alloc s = Ok r \<Longrightarrow> va < MAXVA"
  by (auto simp: walk_def split: if_splits)

lemma MAXVA_step: "a < MAXVA \<Longrightarrow> unat (a + PGSIZE) = unat a + 4096"
  by (subst unat_add_small) (simp_all add: PGSIZE_def MAXVA_def word_less_nat_alt)

text \<open>
  The mapping loops stop because \<^verbatim>\<open>walk\<close> panics once the address reaches \<^verbatim>\<open>MAXVA\<close>.
\<close>

function mappages_NONE_loop ::
  "addr \<Rightarrow> uint64 \<Rightarrow> uint64 \<Rightarrow> uint64 \<Rightarrow> uint64 \<Rightarrow> uint64 \<Rightarrow> 'z kmem_scheme \<Rightarrow> (int \<times> 'z kmem_scheme) res"
where
  "mappages_NONE_loop pagetable va a lst pa perm s =
     and_then (walk pagetable a True s) (\<lambda>(pte, s).
       if pte = 0 then Ok (-1, s)
       else and_then (if ld64 (ram s) pte AND PTE_V \<noteq> 0 then walkaddr pagetable va s else Ok 0) (\<lambda>w.
         if w \<noteq> 0 then Panic ''remap''
         else let s = s\<lparr>ram := st64 (ram s) pte (PA2PTE pa OR perm OR PTE_V)\<rparr>
              in if a = lst then Ok (0, s)
                 else mappages_NONE_loop pagetable va (a + PGSIZE) lst (pa + PGSIZE) perm s))"
  by pat_completeness auto
termination
  by (relation "measure (\<lambda>(_, _, a, _, _, _, _). unat MAXVA - unat a)")
    (auto dest!: walk_Ok_less simp: MAXVA_step word_less_nat_alt)

function mappages_not_NONE_loop ::
  "addr \<Rightarrow> uint64 \<Rightarrow> uint64 \<Rightarrow> uint64 \<Rightarrow> uint64 \<Rightarrow> 'z kmem_scheme \<Rightarrow> (int \<times> 'z kmem_scheme) res"
where
  "mappages_not_NONE_loop pagetable a lst pa perm s =
     and_then (walk pagetable a True s) (\<lambda>(pte, s).
       if pte = 0 then Ok (-1, s)
       else if ld64 (ram s) pte AND PTE_V \<noteq> 0 then Panic ''remap''
       else let s = s\<lparr>ram := st64 (ram s) pte (PA2PTE pa OR perm OR PTE_V)\<rparr>
            in if a = lst then Ok (0, s)
               else mappages_not_NONE_loop pagetable (a + PGSIZE) lst (pa + PGSIZE) perm s)"
  by pat_completeness auto
termination
  by (relation "measure (\<lambda>(_, a, _, _, _, _). unat MAXVA - unat a)")
    (auto dest!: walk_Ok_less simp: MAXVA_step word_less_nat_alt)

declare mappages_NONE_loop.simps [simp del] mappages_not_NONE_loop.simps [simp del]

definition mappages_NONE ::
  "addr \<Rightarrow> uint64 \<Rightarrow> uint64 \<Rightarrow> uint64 \<Rightarrow> uint64 \<Rightarrow> 'z kmem_scheme \<Rightarrow> (int \<times> 'z kmem_scheme) res"
where
  "mappages_NONE pagetable va sz pa perm s =
     mappages_NONE_loop pagetable va (PGROUNDDOWN va) (PGROUNDDOWN (va + sz - 1)) pa perm s"

definition mappages_not_NONE ::
  "addr \<Rightarrow> uint64 \<Rightarrow> uint64 \<Rightarrow> uint64 \<Rightarrow> uint64 \<Rightarrow> 'z kmem_scheme \<Rightarrow> (int \<times> 'z kmem_scheme) res"
where
  "mappages_not_NONE pagetable va sz pa perm s =
     mappages_not_NONE_loop pagetable (PGROUNDDOWN va) (PGROUNDDOWN (va + sz - 1)) pa perm s"

definition mappages ::
  "selection \<Rightarrow> addr \<Rightarrow> uint64 \<Rightarrow> uint64 \<Rightarrow> uint64 \<Rightarrow> uint64 \<Rightarrow> 'z kmem_scheme \<Rightarrow> (int \<times> 'z kmem_scheme) res"
where
  "mappages sel pagetable va sz pa perm s =
     (if sel = NONE then mappages_NONE pagetable va sz pa perm s
      else mappages_not_NONE pagetable va sz pa perm s)"

definition kvmmap ::
  "selection \<Rightarrow> addr \<Rightarrow> uint64 \<Rightarrow> uint64 \<Rightarrow> uint64 \<Rightarrow> uint64 \<Rightarrow> 'z kmem_scheme \<Rightarrow> 'z kmem_scheme res"
where
  "kvmmap sel kpgtbl va pa sz perm s =
     and_then (mappages sel kpgtbl va sz pa perm s) (\<lambda>(r, s).
       if r \<noteq> 0 then Panic ''kvmmap'' else Ok s)"

definition mappage ::
  "addr \<Rightarrow> uint64 \<Rightarrow> uint64 \<Rightarrow> uint64 \<Rightarrow> 'z kmem_scheme \<Rightarrow> (int \<times> 'z kmem_scheme) res"
where
  "mappage pagetable va pa perm s =
     and_then (walk pagetable (PGROUNDDOWN va) True s) (\<lambda>(pte, s).
       if pte = 0 then Ok (-1, s)
       else if ld64 (ram s) pte AND PTE_V \<noteq> 0 then Panic ''remap''
       else Ok (0, s\<lparr>ram := st64 (ram s) pte (PA2PTE pa OR perm OR PTE_V)\<rparr>))"

definition uvmcreate :: "'z kmem_scheme \<Rightarrow> addr \<times> 'z kmem_scheme" where
  "uvmcreate s =
     (case kalloc s of (pagetable, s) \<Rightarrow>
        if pagetable = 0 then (0, s)
        else (pagetable, s\<lparr>ram := memset (ram s) pagetable 0 (ucast PGSIZE)\<rparr>))"

definition uvmclear :: "addr \<Rightarrow> uint64 \<Rightarrow> 'z kmem_scheme \<Rightarrow> 'z kmem_scheme res" where
  "uvmclear pagetable va s =
     and_then (walk pagetable va False s) (\<lambda>(pte, s).
       if pte = 0 then Panic ''uvmclear''
       else Ok (s\<lparr>ram := st64 (ram s) pte (ld64 (ram s) pte AND NOT PTE_U)\<rparr>))"

section \<open>The tree of tables\<close>

text \<open>
  \<open>child m t i\<close> is the table the valid entry \<open>i\<close> of table \<open>t\<close> points to; \<open>tbl m t p\<close> follows
  the indices \<open>p\<close> down from \<open>t\<close>.
\<close>

definition child :: "ram \<Rightarrow> addr \<Rightarrow> uint64 \<Rightarrow> addr option" where
  "child m t i =
     (if ld64 m (t + 8 * i) AND PTE_V \<noteq> 0 then Some (PTE2PA (ld64 m (t + 8 * i))) else None)"

fun tbl :: "ram \<Rightarrow> addr \<Rightarrow> uint64 list \<Rightarrow> addr option" where
  "tbl m t [] = Some t"
| "tbl m t (i # is) = (case child m t i of None \<Rightarrow> None | Some t' \<Rightarrow> tbl m t' is)"

text \<open>The tables of a page table are reached by at most two indices.\<close>

definition path :: "uint64 list \<Rightarrow> bool" where
  "path p \<longleftrightarrow> length p \<le> 2 \<and> (\<forall>i\<in>set p. i < 512)"

definition pt_pages :: "ram \<Rightarrow> addr \<Rightarrow> addr set" where
  "pt_pages m root = {t. \<exists>p. path p \<and> tbl m root p = Some t}"

definition pt_wf :: "'z kmem_scheme \<Rightarrow> addr \<Rightarrow> addr list \<Rightarrow> bool" where
  "pt_wf s root xs \<longleftrightarrow> kinv s xs \<and>
     (\<forall>p t. path p \<longrightarrow> tbl (ram s) root p = Some t \<longrightarrow> page_ok s t \<and> t \<notin> set xs) \<and>
     (\<forall>p q t. path p \<longrightarrow> path q \<longrightarrow> tbl (ram s) root p = Some t \<longrightarrow> tbl (ram s) root q = Some t \<longrightarrow> p = q)"

text \<open>The leaf entry of a virtual address; an entry in a missing table counts as 0.\<close>

definition pte_of :: "ram \<Rightarrow> addr \<Rightarrow> uint64 \<Rightarrow> uint64" where
  "pte_of m root va =
     (case tbl m root [PX 2 va, PX 1 va] of None \<Rightarrow> 0 | Some t \<Rightarrow> ld64 m (t + 8 * PX 0 va))"

lemma tbl_append: "tbl m t (p @ [i]) = (case tbl m t p of None \<Rightarrow> None | Some t' \<Rightarrow> child m t' i)"
  by (induction p arbitrary: t) (auto split: option.splits)

lemma PX_less: "PX l va < 512"
proof -
  have "unat (PX l va) \<le> unat (0x1FF :: addr)"
    unfolding PX_def by (rule word_and_le1 [THEN word_le_nat_alt [THEN iffD1]])
  then show ?thesis by (simp add: word_less_nat_alt)
qed

lemma path_simps [simp]:
  "path []" "path [i] \<longleftrightarrow> i < 512" "path [i, j] \<longleftrightarrow> i < 512 \<and> j < 512"
  by (auto simp: path_def)

lemma path_butlast: "path (p @ [i]) \<Longrightarrow> path p \<and> i < 512 \<and> length p \<le> 1"
  by (auto simp: path_def)

lemma pt_wfD:
  assumes "pt_wf s root xs" "path p" "tbl (ram s) root p = Some t"
  shows "page_ok s t" "t \<notin> set xs" "page_aligned t" "t \<noteq> 0"
  using assms page_ok_nonzero [of s t] by (auto simp: pt_wf_def kinv_def page_ok_def)

lemma pt_wf_inj:
  "pt_wf s root xs \<Longrightarrow> path p \<Longrightarrow> path q \<Longrightarrow> tbl (ram s) root p = Some t \<Longrightarrow>
   tbl (ram s) root q = Some t \<Longrightarrow> p = q"
  unfolding pt_wf_def by blast

lemma child_cong:
  "page_aligned t \<Longrightarrow> i < 512 \<Longrightarrow> (\<And>a. PGROUNDDOWN a = t \<Longrightarrow> m a = m' a) \<Longrightarrow> child m t i = child m' t i"
  using ld64_page_cong [of t i m m'] by (simp add: child_def)

text \<open>A memory that agrees on the tables holds the same tree and the same entries.\<close>

lemma tbl_frame:
  assumes wf: "pt_wf s root xs" and m: "\<And>a. PGROUNDDOWN a \<in> pt_pages (ram s) root \<Longrightarrow> m a = ram s a"
  shows "path p \<Longrightarrow> tbl m root p = tbl (ram s) root p"
proof (induction p rule: rev_induct)
  case (snoc i p)
  then have p: "path p" "i < 512" using path_butlast by blast+
  show ?case
  proof (cases "tbl (ram s) root p")
    case None
    with snoc p show ?thesis by (simp add: tbl_append)
  next
    case (Some t)
    then have "t \<in> pt_pages (ram s) root" using p by (auto simp: pt_pages_def)
    then have "child m t i = child (ram s) t i"
      using pt_wfD(3) [OF wf p(1) Some] p(2) m by (intro child_cong) auto
    with Some snoc p show ?thesis by (simp add: tbl_append)
  qed
qed simp

lemma pte_of_frame:
  assumes wf: "pt_wf s root xs" and m: "\<And>a. PGROUNDDOWN a \<in> pt_pages (ram s) root \<Longrightarrow> m a = ram s a"
  shows "pte_of m root va = pte_of (ram s) root va"
proof -
  have p: "path [PX 2 va, PX 1 va]" using PX_less by simp
  have t: "tbl m root [PX 2 va, PX 1 va] = tbl (ram s) root [PX 2 va, PX 1 va]"
    by (rule tbl_frame [OF wf m p])
  show ?thesis
  proof (cases "tbl (ram s) root [PX 2 va, PX 1 va]")
    case None
    with t show ?thesis unfolding pte_of_def by (simp del: tbl.simps)
  next
    case (Some t')
    then have "t' \<in> pt_pages (ram s) root" using p unfolding pt_pages_def by blast
    then have "ld64 m (t' + 8 * PX 0 va) = ld64 (ram s) (t' + 8 * PX 0 va)"
      using pt_wfD(3) [OF wf p Some] PX_less m by (intro ld64_page_cong) auto
    with t Some show ?thesis unfolding pte_of_def by (simp del: tbl.simps)
  qed
qed

section \<open>Entries\<close>

lemma flag_bit:
  "(e AND PTE_V = 0) \<longleftrightarrow> \<not> bit e 0" "(e AND PTE_R = 0) \<longleftrightarrow> \<not> bit e 1"
  "(e AND PTE_W = 0) \<longleftrightarrow> \<not> bit e 2" "(e AND PTE_X = 0) \<longleftrightarrow> \<not> bit e 3"
  "(e AND PTE_U = 0) \<longleftrightarrow> \<not> bit e 4" "(e AND PTE_A = 0) \<longleftrightarrow> \<not> bit e 6"
  "(e AND PTE_PG = 0) \<longleftrightarrow> \<not> bit e 9"
  unfolding PTE_V_def PTE_R_def PTE_W_def PTE_X_def PTE_U_def PTE_A_def PTE_PG_def push_bit_of_1
  by (rule and_exp_eq_0_iff_not_bit)+

lemma PTE_FLAGS_eq: "PTE_FLAGS e = take_bit 10 e"
  by (simp add: PTE_FLAGS_def take_bit_eq_mask mask_eq_exp_minus_1)

text \<open>
  An entry keeps the page address and the flags apart, for addresses of the 56-bit physical
  address space and the ten flag bits.
\<close>

lemma PTE2PA_make:
  assumes "page_aligned pa" "pa < PHYSTOP" "perm < 1024"
  shows "PTE2PA (PA2PTE pa OR perm) = pa"
    and "PTE_FLAGS (PA2PTE pa OR perm) = perm"
proof -
  have hi: "\<not> bit pa n" if "32 \<le> n" for n
  proof -
    have "take_bit 32 pa = pa"
      using assms(2)
      by (simp add: take_bit_eq_mod word_unat_eq_iff unat_mod_distrib word_less_nat_alt PHYSTOP_def KERNBASE_def)
    then show ?thesis using that by (metis bit_take_bit_iff leD)
  qed
  have lo: "\<not> bit pa n" if "n < 12" for n using assms(1) that by (simp add: page_aligned_bit)
  have fl: "\<not> bit perm n" if "10 \<le> n" for n
  proof -
    have "take_bit 10 perm = perm"
      using assms(3) by (simp add: take_bit_eq_mod word_unat_eq_iff unat_mod_distrib word_less_nat_alt)
    then show ?thesis using that by (metis bit_take_bit_iff leD)
  qed
  show "PTE2PA (PA2PTE pa OR perm) = pa"
  proof (rule bit_word_eqI)
    fix n assume n: "n < LENGTH(64)"
    show "bit (PTE2PA (PA2PTE pa OR perm)) n = bit pa n"
    proof (cases "n < 12")
      case True
      with lo show ?thesis by (simp add: PTE2PA_def bit_simps)
    next
      case False
      then obtain k where "n = 12 + k" by (metis le_add_diff_inverse not_less)
      with n hi fl [of "10 + k"] show ?thesis
        by (auto simp: PTE2PA_def PA2PTE_def bit_simps)
    qed
  qed
  show "PTE_FLAGS (PA2PTE pa OR perm) = perm"
    unfolding PTE_FLAGS_eq
    by (intro bit_word_eqI) (use fl in \<open>auto simp: PA2PTE_def bit_simps not_less [symmetric]\<close>)
qed

section \<open>walk\<close>

text \<open>The indices followed before level \<open>l\<close>.\<close>

definition idx :: "nat \<Rightarrow> uint64 \<Rightarrow> uint64 list" where
  "idx l va = map (\<lambda>k. PX k va) (rev [Suc l..<3])"

lemma idx_2 [simp]: "idx 2 va = []"
  by (simp add: idx_def)

lemma idx_0: "idx 0 va = [PX 2 va, PX 1 va]"
  by (simp add: idx_def upt_rec numeral_2_eq_2)

lemma idx_Suc: "l < 2 \<Longrightarrow> idx l va = idx (Suc l) va @ [PX (Suc l) va]"
  by (simp add: idx_def upt_conv_Cons)

lemma path_idx [simp]: "path (idx l va)"
  using PX_less by (auto simp: path_def idx_def)

text \<open>Without \<^verbatim>\<open>alloc\<close>, \<^verbatim>\<open>walk\<close> changes nothing and finds the entry if its table exists.\<close>

lemma walk_loop_noalloc:
  "walk_loop l t va False s =
     (case tbl (ram s) t (map (\<lambda>k. PX k va) (rev [1..<Suc l])) of
        None \<Rightarrow> 0 | Some t' \<Rightarrow> t' + 8 * PX 0 va, s)"
  by (induction l arbitrary: t) (auto simp: child_def split: option.splits)

lemma walk_noalloc:
  "va < MAXVA \<Longrightarrow> walk root va False s =
     Ok (case tbl (ram s) root (idx 0 va) of None \<Rightarrow> 0 | Some t \<Rightarrow> t + 8 * PX 0 va, s)"
  by (simp add: walk_def walk_loop_noalloc idx_0 upt_rec numeral_2_eq_2 not_le [symmetric])

lemma pte_of_Some: "tbl m root (idx 0 va) = Some t \<Longrightarrow> pte_of m root va = ld64 m (t + 8 * PX 0 va)"
  by (simp add: pte_of_def idx_0)

lemma pte_of_None: "tbl m root (idx 0 va) = None \<Longrightarrow> pte_of m root va = 0"
  by (simp add: pte_of_def idx_0)

lemma pte_addr_nonzero:
  assumes "page_aligned t" "t \<noteq> 0" "i < 512"
  shows "t + 8 * i \<noteq> 0"
proof
  assume "t + 8 * i = 0"
  moreover have "PGROUNDDOWN (t + 8 * i) = t" using slot_in_page [of t i 0] assms by simp
  ultimately show False using assms by (simp add: PGROUNDDOWN_def)
qed

text \<open>
  \<open>pt_grow\<close>: \<open>root\<close> is well formed again, it grew tables out of the front of the free list
  only, and nothing but free pages and tables of \<open>root\<close> was written. \<open>pt_ext\<close>: moreover,
  every mapping is as before.
\<close>

definition pt_grow :: "addr \<Rightarrow> 'z kmem_scheme \<Rightarrow> addr list \<Rightarrow> 'z kmem_scheme \<Rightarrow> addr list \<Rightarrow> bool" where
  "pt_grow root s xs s' xs' \<longleftrightarrow> pt_wf s' root xs' \<and>
     (\<exists>zs. xs = zs @ xs' \<and> pt_pages (ram s') root = pt_pages (ram s) root \<union> set zs) \<and>
     (\<forall>a. PGROUNDDOWN a \<notin> set xs \<union> pt_pages (ram s) root \<longrightarrow> ram s' a = ram s a) \<and>
     s' = s\<lparr>ram := ram s', freelist := freelist s'\<rparr>"

definition pt_ext :: "addr \<Rightarrow> 'z kmem_scheme \<Rightarrow> addr list \<Rightarrow> 'z kmem_scheme \<Rightarrow> addr list \<Rightarrow> bool" where
  "pt_ext root s xs s' xs' \<longleftrightarrow> pt_grow root s xs s' xs' \<and>
     (\<forall>va. pte_of (ram s') root va = pte_of (ram s) root va)"

lemma pt_growD: "pt_grow root s xs s' xs' \<Longrightarrow> pt_wf s' root xs'"
  by (simp add: pt_grow_def)

lemma pt_extD: "pt_ext root s xs s' xs' \<Longrightarrow> pt_wf s' root xs'"
  by (simp add: pt_ext_def pt_grow_def)

lemma pt_grow_refl: "pt_wf s root xs \<Longrightarrow> pt_grow root s xs s xs"
  by (simp add: pt_grow_def)

lemma pt_ext_refl: "pt_wf s root xs \<Longrightarrow> pt_ext root s xs s xs"
  by (simp add: pt_ext_def pt_grow_refl)

lemma pt_grow_trans:
  assumes "pt_grow root s xs s1 ys" "pt_grow root s1 ys s2 zs"
  shows "pt_grow root s xs s2 zs"
proof -
  from assms obtain as bs where ab: "xs = as @ ys" "ys = bs @ zs"
    "pt_pages (ram s1) root = pt_pages (ram s) root \<union> set as"
    "pt_pages (ram s2) root = pt_pages (ram s1) root \<union> set bs"
    unfolding pt_grow_def by blast
  have eq: "s2 = s\<lparr>ram := ram s2, freelist := freelist s2\<rparr>"
    using assms unfolding pt_grow_def
    by (metis (no_types, lifting) kmem.update_convs(1,2) kmem.surjective kmem.select_convs)
  show ?thesis
    unfolding pt_grow_def
  proof (intro conjI)
    show "pt_wf s2 root zs" using assms(2) by (simp add: pt_grow_def)
    show "\<exists>cs. xs = cs @ zs \<and> pt_pages (ram s2) root = pt_pages (ram s) root \<union> set cs"
      using ab by (intro exI [of _ "as @ bs"]) auto
    show "\<forall>a. PGROUNDDOWN a \<notin> set xs \<union> pt_pages (ram s) root \<longrightarrow> ram s2 a = ram s a"
      using assms ab by (auto simp: pt_grow_def)
    show "s2 = s\<lparr>ram := ram s2, freelist := freelist s2\<rparr>" by (rule eq)
  qed
qed

lemma pt_ext_trans: "pt_ext root s xs s1 ys \<Longrightarrow> pt_ext root s1 ys s2 zs \<Longrightarrow> pt_ext root s xs s2 zs"
  unfolding pt_ext_def using pt_grow_trans by metis

text \<open>Linking a fresh, zeroed table \<open>r\<close> into an empty slot adds exactly that table.\<close>

lemma install_table:
  assumes wf: "pt_wf s root (r # ys)" and p: "path (p @ [i])" and t: "tbl (ram s) root p = Some t"
    and free: "ld64 (ram s) (t + 8 * i) AND PTE_V = 0"
    and m0: "\<And>a. m0 a = (if PGROUNDDOWN a = r then c else ram s a)"
    and m: "m = st64 (memset m0 r 0 (ucast PGSIZE)) (t + 8 * i) (PA2PTE r OR PTE_V)"
  shows "\<And>j. j < 512 \<Longrightarrow> ld64 m (r + 8 * j) = 0"
    and "\<And>a. PGROUNDDOWN a \<notin> {r, t} \<Longrightarrow> m a = ram s a"
    and "\<And>q. path q \<Longrightarrow> tbl m root q = (if q = p @ [i] then Some r else tbl (ram s) root q)"
proof -
  have pi: "path p" "i < 512" "length p \<le> 1" using path_butlast [OF p] by auto
  have kinv: "kinv s (r # ys)" using wf by (simp add: pt_wf_def)
  have r: "page_aligned r" "r < PHYSTOP" using kinv by (auto simp: kinv_def page_ok_def)
  have ta: "page_aligned t" "t \<notin> set (r # ys)" using pt_wfD [OF wf pi(1) t] by auto
  then have tr: "t \<noteq> r" by simp
  define m1 where "m1 = memset m0 r 0 (ucast PGSIZE)"
  have m1: "m1 a = (if PGROUNDDOWN a = r then 0 else ram s a)" for a
    using r m0 by (simp add: m1_def memset_page)
  show zero: "ld64 m (r + 8 * j) = 0" if "j < 512" for j
  proof -
    have "ld64 m (r + 8 * j) = ld64 m1 (r + 8 * j)"
      using that r ta pi tr by (simp add: m m1_def [symmetric] ld64_st64_slot)
    also have "\<dots> = 0" using r that m1 by (intro ld64_zero_page) auto
    finally show ?thesis .
  qed
  show out: "m a = ram s a" if "PGROUNDDOWN a \<notin> {r, t}" for a
    using that ta pi by (simp add: m m1_def [symmetric] m1)
  have ent: "ld64 m (t + 8 * j) = (if j = i then PA2PTE r OR PTE_V else ld64 (ram s) (t + 8 * j))"
    if "j < 512" for j
  proof (cases "j = i")
    case True
    then show ?thesis by (simp add: m)
  next
    case False
    have "ld64 m (t + 8 * j) = ld64 m1 (t + 8 * j)"
      using that ta pi False by (simp add: m m1_def [symmetric] ld64_st64_slot)
    also have "\<dots> = ld64 (ram s) (t + 8 * j)"
      using that ta tr m1 by (intro ld64_page_cong) auto
    finally show ?thesis using False by simp
  qed
  have mk: "PTE2PA (PA2PTE r OR PTE_V) = r" "bit (PA2PTE r OR PTE_V) 0"
    using PTE2PA_make(1) [of r PTE_V] r by (simp_all add: PTE_V_def bit_simps)
  show "tbl m root q = (if q = p @ [i] then Some r else tbl (ram s) root q)" if "path q" for q
    using that
  proof (induction q rule: rev_induct)
    case (snoc j q)
    then have q: "path q" "j < 512" using path_butlast by blast+
    note IH = snoc.IH [OF q(1)]
    show ?case
    proof (cases "q = p @ [i]")
      case True
      have "tbl (ram s) root q = None" using t free True by (simp add: tbl_append child_def)
      moreover have "tbl m root q = Some r" using IH True by simp
      moreover have "child m r j = None" using zero q by (simp add: child_def)
      ultimately have "tbl m root (q @ [j]) = None" "tbl (ram s) root (q @ [j]) = None"
        by (simp_all add: tbl_append)
      then show ?thesis using True by auto
    next
      case False
      show ?thesis
      proof (cases "tbl (ram s) root q")
        case None
        with IH False t show ?thesis by (auto simp: tbl_append)
      next
        case (Some t')
        have t': "page_aligned t'" "t' \<notin> set (r # ys)" using pt_wfD [OF wf q(1) Some] by auto
        show ?thesis
        proof (cases "t' = t")
          case True
          then have "q = p" using pt_wf_inj [OF wf q(1) pi(1) Some] t by simp
          then show ?thesis using IH Some True ent [OF q(2)] mk False
            by (auto simp: tbl_append child_def flag_bit)
        next
          case False
          then have "child m t' j = child (ram s) t' j"
            using t' q out by (intro child_cong) auto
          moreover have "q \<noteq> p" using False Some t by auto
          ultimately show ?thesis using IH Some \<open>q \<noteq> p @ [i]\<close> by (simp add: tbl_append)
        qed
      qed
    qed
  qed simp
qed

lemma install_table_ext:
  assumes wf: "pt_wf s root (r # ys)" and p: "path (p @ [i])" and t: "tbl (ram s) root p = Some t"
    and free: "ld64 (ram s) (t + 8 * i) AND PTE_V = 0"
    and s1: "kinv s1 ys" "\<And>a. ram s1 a = (if PGROUNDDOWN a = r then 5 else ram s a)"
      "s1 = s\<lparr>ram := ram s1, freelist := freelist s1\<rparr>"
    and s2: "s2 = s1\<lparr>ram := st64 (memset (ram s1) r 0 (ucast PGSIZE)) (t + 8 * i) (PA2PTE r OR PTE_V)\<rparr>"
  shows "pt_ext root s (r # ys) s2 ys" and "tbl (ram s2) root (p @ [i]) = Some r"
proof -
  note inst = install_table [OF wf p t free s1(2) refl, folded kmem.select_convs]
  let ?m = "ram s2"
  have m: "?m = st64 (memset (ram s1) r 0 (ucast PGSIZE)) (t + 8 * i) (PA2PTE r OR PTE_V)"
    by (simp add: s2)
  have zero: "ld64 ?m (r + 8 * j) = 0" if "j < 512" for j
    unfolding m using inst(1) that by blast
  have out: "?m a = ram s a" if "PGROUNDDOWN a \<notin> {r, t}" for a
    unfolding m using inst(2) that by blast
  have tbl: "tbl ?m root q = (if q = p @ [i] then Some r else tbl (ram s) root q)" if "path q" for q
    unfolding m using inst(3) that by blast
  have pi: "path p" "length p \<le> 1" using path_butlast [OF p] by auto
  have kinv: "kinv s (r # ys)" using wf by (simp add: pt_wf_def)
  have r: "page_ok s r" "r \<notin> set ys" using kinv kinv_distinct [OF kinv] by (auto simp: kinv_def)
  have t_used: "t \<notin> set (r # ys)" "page_ok s t" using pt_wfD [OF wf pi(1) t] by auto
  have none: "tbl (ram s) root (p @ [i]) = None" using t free by (simp add: tbl_append child_def)
  have ok2: "page_ok s2 = page_ok s" by (subst s2, subst s1(3)) (simp add: page_ok_def fun_eq_iff)
  show "tbl (ram s2) root (p @ [i]) = Some r" using tbl p by simp
  have kinv2: "kinv s2 ys"
    unfolding s2 using s1(1,2) t_used r out [unfolded m]
    by (intro kinv_ram_update) (auto split: if_splits)
  have wf2: "pt_wf s2 root ys"
    unfolding pt_wf_def
  proof (intro conjI allI impI)
    show "kinv s2 ys" by (rule kinv2)
    fix q t' assume q: "path q" "tbl (ram s2) root q = Some t'"
    show "page_ok s2 t'" "t' \<notin> set ys"
      using q tbl [OF q(1)] pt_wfD [OF wf q(1)] r by (auto simp: ok2 split: if_splits)
    fix q' assume "path q'" "tbl (ram s2) root q' = Some t'"
    then show "q = q'"
      using q tbl pt_wfD(2) [OF wf] pt_wf_inj [OF wf] by (auto split: if_splits)
  qed
  have pages: "pt_pages (ram s2) root = pt_pages (ram s) root \<union> set [r]"
    unfolding pt_pages_def using tbl p none by (auto split: if_splits) (metis option.distinct(1))+
  have pte: "pte_of (ram s2) root va = pte_of (ram s) root va" for va
  proof (cases "idx 0 va = p @ [i]")
    case True
    then have "tbl ?m root (idx 0 va) = Some r" using tbl p by simp
    then have "pte_of ?m root va = 0" using zero PX_less by (simp add: pte_of_Some)
    with none True show ?thesis by (simp add: pte_of_None)
  next
    case False
    then have same: "tbl ?m root (idx 0 va) = tbl (ram s) root (idx 0 va)" using tbl by simp
    show ?thesis
    proof (cases "tbl (ram s) root (idx 0 va)")
      case None
      with same show ?thesis by (simp add: pte_of_None)
    next
      case (Some t')
      have "t' \<noteq> t"
      proof
        assume "t' = t"
        then have "idx 0 va = p" using pt_wf_inj [OF wf _ pi(1) Some] t by simp
        then show False using pi(2) by (auto simp: idx_def)
      qed
      moreover have "t' \<noteq> r" "page_aligned t'" using pt_wfD [OF wf _ Some] by auto
      ultimately have "ld64 ?m (t' + 8 * PX 0 va) = ld64 (ram s) (t' + 8 * PX 0 va)"
        using out PX_less by (intro ld64_page_cong) auto
      with Some same show ?thesis by (simp add: pte_of_Some)
    qed
  qed
  have "t \<in> pt_pages (ram s) root" using pi t by (auto simp: pt_pages_def)
  then have frame: "ram s2 a = ram s a" if "PGROUNDDOWN a \<notin> set (r # ys) \<union> pt_pages (ram s) root" for a
    using that out [of a] by auto
  have "s2 = s\<lparr>ram := ram s2, freelist := freelist s2\<rparr>" by (subst s2, subst s1(3)) (simp add: s2)
  with wf2 pages pte frame show "pt_ext root s (r # ys) s2 ys"
    unfolding pt_ext_def pt_grow_def by (intro conjI exI [of _ "[r]"]) auto
qed

text \<open>With \<^verbatim>\<open>alloc\<close>, \<^verbatim>\<open>walk\<close> fails only when no page is free; otherwise the table exists.\<close>

lemma walk_loop_alloc:
  assumes "pt_wf s root xs" "tbl (ram s) root (idx l va) = Some t" "l \<le> 2"
  shows "\<exists>pte s' xs'. walk_loop l t va True s = (pte, s') \<and> pt_ext root s xs s' xs' \<and>
    (pte = 0 \<and> xs' = [] \<or> (\<exists>t'. tbl (ram s') root (idx 0 va) = Some t' \<and> pte = t' + 8 * PX 0 va))"
  using assms
proof (induction l arbitrary: s t xs)
  case 0
  then show ?case using pt_ext_refl by fastforce
next
  case (Suc l)
  let ?i = "PX (Suc l) va"
  have idx: "idx l va = idx (Suc l) va @ [?i]" using Suc.prems(3) by (intro idx_Suc) simp
  have kinv: "kinv s xs" using Suc.prems(1) by (simp add: pt_wf_def)
  show ?case
  proof (cases "ld64 (ram s) (t + 8 * ?i) AND PTE_V = 0")
    case False
    then have "tbl (ram s) root (idx l va) = Some (PTE2PA (ld64 (ram s) (t + 8 * ?i)))"
      using Suc.prems(2) by (simp add: idx tbl_append child_def)
    with Suc False show ?thesis by (auto simp: Let_def)
  next
    case True
    from kinv show ?thesis
    proof (cases rule: kalloc_cases)
      case none
      with True pt_ext_refl [OF Suc.prems(1)] show ?thesis by (auto simp: Let_def)
    next
      case (page r ys s1)
      define s2 where "s2 = s1\<lparr>ram := st64 (memset (ram s1) r 0 (ucast PGSIZE)) (t + 8 * ?i) (PA2PTE r OR PTE_V)\<rparr>"
      have "path (idx (Suc l) va @ [?i])" using path_idx [of l va] by (simp add: idx)
      note ext = install_table_ext [OF Suc.prems(1) [unfolded page(1)] this Suc.prems(2) True
          page(3) page(7) page(8) s2_def]
      then have "pt_wf s2 root ys" by (blast intro: pt_extD)
      moreover have "tbl (ram s2) root (idx l va) = Some r" using ext(2) by (simp add: idx)
      ultimately obtain pte s' xs' where IH: "walk_loop l r va True s2 = (pte, s')"
        "pt_ext root s2 ys s' xs'"
        "pte = 0 \<and> xs' = [] \<or> (\<exists>t'. tbl (ram s') root (idx 0 va) = Some t' \<and> pte = t' + 8 * PX 0 va)"
        using Suc.IH [of s2 ys r] Suc.prems(3) by auto
      have "walk_loop (Suc l) t va True s = (pte, s')"
        using True page IH(1) by (simp add: Let_def s2_def)
      with IH pt_ext_trans [OF ext(1) IH(2)] page(1) show ?thesis by blast
    qed
  qed
qed

lemma walk_alloc:
  assumes "pt_wf s root xs" "va < MAXVA"
  obtains (fail) s' where "walk root va True s = Ok (0, s')" "pt_ext root s xs s' []"
  | (found) t s' xs' where "walk root va True s = Ok (t + 8 * PX 0 va, s')"
      "pt_ext root s xs s' xs'" "tbl (ram s') root (idx 0 va) = Some t"
proof -
  obtain pte s' xs' where "walk_loop 2 root va True s = (pte, s')" "pt_ext root s xs s' xs'"
    "pte = 0 \<and> xs' = [] \<or> (\<exists>t'. tbl (ram s') root (idx 0 va) = Some t' \<and> pte = t' + 8 * PX 0 va)"
    using walk_loop_alloc [of s root xs 2 va root] assms(1) by auto
  moreover have "\<not> MAXVA \<le> va" using assms(2) by simp
  ultimately show thesis using fail [of s'] found [of _ s' xs'] by (auto simp: walk_def)
qed

section \<open>Writing an entry\<close>

lemma bit_PX: "bit (PX l va) k \<longleftrightarrow> k < 9 \<and> bit va (12 + 9 * l + k)"
proof -
  have "PX l va = take_bit 9 (drop_bit (12 + 9 * l) va)"
    by (simp add: PX_def PXSHIFT_def take_bit_eq_mask mask_eq_exp_minus_1)
  then show ?thesis by (auto simp: bit_simps)
qed

text \<open>Below \<^verbatim>\<open>MAXVA\<close>, addresses with the same three indices are in the same page.\<close>

lemma same_leaf_iff:
  assumes "va < MAXVA" "va' < MAXVA"
  shows "idx 0 va = idx 0 va' \<and> PX 0 va = PX 0 va' \<longleftrightarrow> PGROUNDDOWN va = PGROUNDDOWN va'"
proof -
  have hi: "\<not> bit w n" if "w < MAXVA" "38 \<le> n" for w :: addr and n
  proof -
    have "take_bit 38 w = w"
      using that(1)
      by (simp add: take_bit_eq_mod word_unat_eq_iff unat_mod_distrib word_less_nat_alt MAXVA_def)
    then show ?thesis using that(2) by (metis bit_take_bit_iff leD)
  qed
  have px: "PX l va = PX l va' \<longleftrightarrow> (\<forall>k<9. bit va (12 + 9 * l + k) = bit va' (12 + 9 * l + k))" for l
  proof
    assume eq: "PX l va = PX l va'"
    show "\<forall>k<9. bit va (12 + 9 * l + k) = bit va' (12 + 9 * l + k)"
      using eq by (metis bit_PX)
  qed (auto intro!: bit_word_eqI simp: bit_PX)
  have split: "\<exists>l k. l < 3 \<and> k < 9 \<and> n = 12 + 9 * l + k" if "12 \<le> n" "n < 39" for n :: nat
    by (rule exI [of _ "(n - 12) div 9"], rule exI [of _ "(n - 12) mod 9"]) (use that in auto)
  have "PGROUNDDOWN va = PGROUNDDOWN va' \<longleftrightarrow> (\<forall>n. 12 \<le> n \<longrightarrow> bit va n = bit va' n)"
  proof
    assume "PGROUNDDOWN va = PGROUNDDOWN va'"
    then show "\<forall>n. 12 \<le> n \<longrightarrow> bit va n = bit va' n" by (metis bit_PGROUNDDOWN)
  qed (auto intro!: bit_word_eqI simp: bit_PGROUNDDOWN)
  also have "\<dots> \<longleftrightarrow> (\<forall>n. 12 \<le> n \<longrightarrow> n < 39 \<longrightarrow> bit va n = bit va' n)"
  proof -
    have "bit va n = bit va' n" if "\<not> n < 39" for n
      using that hi [OF assms(1), of n] hi [OF assms(2), of n] by simp
    then show ?thesis by blast
  qed
  also have "\<dots> \<longleftrightarrow> (\<forall>l<3. \<forall>k<9. bit va (12 + 9 * l + k) = bit va' (12 + 9 * l + k))"
  proof
    assume H: "\<forall>l<3. \<forall>k<9. bit va (12 + 9 * l + k) = bit va' (12 + 9 * l + k)"
    show "\<forall>n. 12 \<le> n \<longrightarrow> n < 39 \<longrightarrow> bit va n = bit va' n" using split H by metis
  qed auto
  also have "\<dots> \<longleftrightarrow> (\<forall>l<3. PX l va = PX l va')" by (simp add: px)
  also have "\<dots> \<longleftrightarrow> idx 0 va = idx 0 va' \<and> PX 0 va = PX 0 va'"
    by (auto simp: idx_0 numeral_3_eq_3 less_Suc_eq numeral_2_eq_2)
  finally show ?thesis by simp
qed

lemma pte_of_same_page:
  assumes "va < MAXVA" "va' < MAXVA" "PGROUNDDOWN va = PGROUNDDOWN va'"
  shows "pte_of m root va = pte_of m root va'"
proof -
  have "idx 0 va = idx 0 va'" "PX 0 va = PX 0 va'" using same_leaf_iff assms by blast+
  then show ?thesis unfolding pte_of_def idx_0 [symmetric] by (auto split: option.split)
qed

text \<open>Storing into the level-0 entry of \<open>va\<close> changes the mapping of that page only.\<close>

lemma set_pte:
  assumes wf: "pt_wf s root xs" and t: "tbl (ram s) root (idx 0 va) = Some t"
    and s': "s' = s\<lparr>ram := st64 (ram s) (t + 8 * PX 0 va) v\<rparr>"
  shows "pt_grow root s xs s' xs"
    and "pte_of (ram s') root va' =
      (if idx 0 va = idx 0 va' \<and> PX 0 va = PX 0 va' then v else pte_of (ram s) root va')"
proof -
  have t_ok: "page_ok s t" "t \<notin> set xs" "page_aligned t" using pt_wfD [OF wf _ t] by auto
  have out: "ram s' a = ram s a" if "PGROUNDDOWN a \<noteq> t" for a
    using that t_ok PX_less by (simp add: s')
  have tbl: "tbl (ram s') root q = tbl (ram s) root q" if "path q" for q
    using that
  proof (induction q rule: rev_induct)
    case (snoc j q)
    then have q: "path q" "j < 512" "length q \<le> 1" using path_butlast by blast+
    show ?case
    proof (cases "tbl (ram s) root q")
      case None
      with snoc q show ?thesis by (simp add: tbl_append)
    next
      case (Some t')
      have "t' \<noteq> t"
      proof
        assume "t' = t"
        then have "q = idx 0 va" using pt_wf_inj [OF wf q(1) path_idx Some] t by simp
        with q(3) show False by (simp add: idx_0)
      qed
      then have "child (ram s') t' j = child (ram s) t' j"
        using pt_wfD(3) [OF wf q(1) Some] q(2) out by (intro child_cong) auto
      with Some snoc q show ?thesis by (simp add: tbl_append)
    qed
  qed simp
  have pages: "pt_pages (ram s') root = pt_pages (ram s) root"
    unfolding pt_pages_def using tbl by auto
  have "kinv s' xs"
    unfolding s'
  proof (rule kinv_ram_update)
    show "kinv s xs" using wf by (simp add: pt_wf_def)
    show "st64 (ram s) (t + 8 * PX 0 va) v a = ram s a" if "PGROUNDDOWN a \<in> set xs" for a
      using out [of a] that t_ok(2) by (auto simp: s')
  qed
  moreover have "page_ok s' = page_ok s" by (simp add: s' page_ok_def fun_eq_iff)
  ultimately have "pt_wf s' root xs"
    using wf unfolding pt_wf_def by (metis tbl)
  moreover have "t \<in> pt_pages (ram s) root" using t path_idx unfolding pt_pages_def by blast
  moreover from this have "\<forall>a. PGROUNDDOWN a \<notin> set xs \<union> pt_pages (ram s) root \<longrightarrow> ram s' a = ram s a"
    using out by (metis UnI2)
  ultimately show "pt_grow root s xs s' xs"
    using pages unfolding pt_grow_def by (simp add: s')
  show "pte_of (ram s') root va' =
      (if idx 0 va = idx 0 va' \<and> PX 0 va = PX 0 va' then v else pte_of (ram s) root va')"
  proof (cases "tbl (ram s) root (idx 0 va')")
    case None
    then have "idx 0 va \<noteq> idx 0 va'" using t by auto
    with None tbl show ?thesis by (simp add: pte_of_None)
  next
    case (Some t')
    have al: "page_aligned t'" using pt_wfD(3) [OF wf _ Some] by simp
    have "t = t' \<longleftrightarrow> idx 0 va = idx 0 va'"
      using pt_wf_inj [OF wf _ _ t, of "idx 0 va'"] Some t by auto
    then have "ld64 (ram s') (t' + 8 * PX 0 va') =
      (if idx 0 va = idx 0 va' \<and> PX 0 va = PX 0 va' then v else ld64 (ram s) (t' + 8 * PX 0 va'))"
      using al t_ok(3) PX_less ld64_st64_slot [of t t' "PX 0 va" "PX 0 va'"] by (auto simp: s')
    with Some tbl show ?thesis by (simp add: pte_of_Some)
  qed
qed

section \<open>Look-up and mapping\<close>

text \<open>\<^verbatim>\<open>walkaddr\<close> never panics: it reads the abstract page table, and 0 stands for no user page.\<close>

lemma walkaddr_eq:
  assumes "pt_wf s root xs"
  shows "walkaddr root va s =
    Ok (if va < MAXVA \<and> bit (pte_of (ram s) root va) 0 \<and> bit (pte_of (ram s) root va) 4
        then PTE2PA (pte_of (ram s) root va) else 0)"
proof (cases "tbl (ram s) root (idx 0 va)")
  case None
  then show ?thesis by (simp add: walkaddr_def walk_noalloc pte_of_None)
next
  case (Some t)
  then have "t + 8 * PX 0 va \<noteq> 0"
    using pt_wfD [OF assms _ Some] PX_less by (intro pte_addr_nonzero) auto
  with Some show ?thesis
    by (auto simp: walkaddr_def walk_noalloc pte_of_Some flag_bit Let_def)
qed

text \<open>
  The entries after mapping \<open>j\<close> pages from \<open>a\<close> on to the frames from \<open>pa\<close> on: the page at
  distance \<open>d\<close> from \<open>a\<close> goes to the frame at distance \<open>d\<close> from \<open>pa\<close>.
\<close>

definition mapped :: "uint64 \<Rightarrow> uint64 \<Rightarrow> uint64 \<Rightarrow> nat \<Rightarrow> (uint64 \<Rightarrow> uint64) \<Rightarrow> uint64 \<Rightarrow> uint64" where
  "mapped a pa perm j old va =
     (let d = PGROUNDDOWN va - a
      in if unat d < 4096 * j then PA2PTE (pa + d) OR perm OR PTE_V else old va)"

lemma mapped_0 [simp]: "mapped a pa perm 0 old = old"
  by (simp add: mapped_def fun_eq_iff)

lemma page_dist:
  assumes "page_aligned a" "page_aligned D" "D \<noteq> a"
  shows "4096 \<le> unat (D - a)" and "unat (D - (a + PGSIZE)) = unat (D - a) - 4096"
proof -
  have "\<not> unat (D - a) < 4096" using in_page_iff [OF assms(1), of D] assms(2,3) by simp
  then show ge: "4096 \<le> unat (D - a)" by simp
  have "D - (a + PGSIZE) = (D - a) - 4096" by (simp add: PGSIZE_def)
  also have "unat \<dots> = unat (D - a) - 4096"
    using ge by (subst unat_sub) (simp_all add: word_le_nat_alt)
  finally show "unat (D - (a + PGSIZE)) = unat (D - a) - 4096" .
qed

lemma unat_page_before: "unat (a - (a + PGSIZE)) = 2 ^ 64 - 4096"
  using unat_uminus [of "4096 :: addr"] by (simp add: PGSIZE_def)

lemma mapped_Suc:
  assumes "page_aligned a" "4096 * Suc j \<le> 2 ^ 64"
  shows "mapped (a + PGSIZE) (pa + PGSIZE) perm j
      (\<lambda>va. if PGROUNDDOWN va = a then PA2PTE pa OR perm OR PTE_V else old va) va
    = mapped a pa perm (Suc j) old va"
proof (cases "PGROUNDDOWN va = a")
  case True
  have "unat (a - (a + PGSIZE)) = 2 ^ 64 - 4096"
    by (rule unat_page_before)
  with True assms(2) show ?thesis by (simp add: mapped_def Let_def)
next
  case False
  have shift: "pa + PGSIZE + (PGROUNDDOWN va - (a + PGSIZE)) = pa + (PGROUNDDOWN va - a)" by simp
  note d = page_dist [OF assms(1) PGROUNDDOWN_aligned False]
  have "unat (PGROUNDDOWN va - (a + PGSIZE)) < 4096 * j \<longleftrightarrow> unat (PGROUNDDOWN va - a) < 4096 * Suc j"
    using d by auto
  with False show ?thesis by (simp only: mapped_def Let_def shift if_False)
qed

text \<open>
  One entry: \<^verbatim>\<open>walk\<close> with \<^verbatim>\<open>alloc\<close> either runs out of memory or gives a pointer through which
  the entry of the page can be read and written.
\<close>

lemma walk_set_pte:
  assumes wf: "pt_wf s root xs" and a: "a < MAXVA"
  obtains (fail) s' where "walk root a True s = Ok (0, s')" "pt_ext root s xs s' []"
  | (ok) pte s1 xs' where "walk root a True s = Ok (pte, s1)" "pte \<noteq> 0" "pt_ext root s xs s1 xs'"
      "ld64 (ram s1) pte = pte_of (ram s) root a"
      "\<And>v. pt_grow root s xs (s1\<lparr>ram := st64 (ram s1) pte v\<rparr>) xs'"
      "\<And>v va. va < MAXVA \<Longrightarrow> pte_of (st64 (ram s1) pte v) root va =
         (if PGROUNDDOWN va = PGROUNDDOWN a then v else pte_of (ram s) root va)"
proof -
  from wf a show thesis
  proof (cases rule: walk_alloc)
    case (fail s')
    then show thesis by (rule that(1))
  next
    case (found t s1 xs')
    have wf1: "pt_wf s1 root xs'" using found(2) by (rule pt_extD)
    let ?pte = "t + 8 * PX 0 a"
    have "?pte \<noteq> 0" using pt_wfD [OF wf1 _ found(3)] PX_less by (intro pte_addr_nonzero) auto
    moreover have "ld64 (ram s1) ?pte = pte_of (ram s) root a"
      using found by (simp add: pt_ext_def pte_of_Some [symmetric])
    moreover have "pt_grow root s xs (s1\<lparr>ram := st64 (ram s1) ?pte v\<rparr>) xs'" for v
      by (rule pt_grow_trans [of root s xs s1 xs'])
        (use set_pte(1) [OF wf1 found(3) refl] found(2) in \<open>auto simp: pt_ext_def\<close>)
    moreover have "pte_of (st64 (ram s1) ?pte v) root va =
         (if PGROUNDDOWN va = PGROUNDDOWN a then v else pte_of (ram s) root va)" if "va < MAXVA" for v va
      using set_pte(2) [OF wf1 found(3) refl, of v va] same_leaf_iff [OF a that] found(2)
      by (simp add: pt_ext_def eq_commute)
    ultimately show thesis using found(1,2) by (intro that(2)) auto
  qed
qed

text \<open>
  Mapping \<open>k + 1\<close> unmapped pages: either all of them are mapped, or memory ran out after
  \<open>j\<close> of them and the result is -1.
\<close>

lemma mappages_loop_spec:
  assumes "pt_wf s root xs" "page_aligned a" "unat a + 4096 * Suc k \<le> unat MAXVA"
    and "lst = a + word_of_nat k * PGSIZE"
    and "\<forall>va<MAXVA. unat (PGROUNDDOWN va - a) < 4096 * Suc k \<longrightarrow> pte_of (ram s) root va AND PTE_V = 0"
  shows "\<exists>j s' xs'. mappages_not_NONE_loop root a lst pa perm s = Ok (if j = Suc k then 0 else -1, s') \<and>
    j \<le> Suc k \<and> (j \<noteq> Suc k \<longrightarrow> xs' = []) \<and> pt_grow root s xs s' xs' \<and>
    (\<forall>va<MAXVA. pte_of (ram s') root va = mapped a pa perm j (pte_of (ram s) root) va)"
  using assms
proof (induction k arbitrary: a pa s xs)
  case 0
  have aM: "a < MAXVA" using 0(3) by (simp add: word_less_nat_alt)
  from 0(1) aM show ?case
  proof (cases rule: walk_set_pte)
    case (fail s')
    then show ?thesis
      by (intro exI [of _ 0] exI [of _ s'] exI [of _ "[]"], subst mappages_not_NONE_loop.simps)
        (simp add: pt_ext_def)
  next
    case (ok pte s1 xs')
    let ?s' = "s1\<lparr>ram := st64 (ram s1) pte (PA2PTE pa OR perm OR PTE_V)\<rparr>"
    have free: "ld64 (ram s1) pte AND PTE_V = 0" using 0(2,5) aM ok(4) by auto
    have "pte_of (ram ?s') root va = mapped a pa perm 1 (pte_of (ram s) root) va" if "va < MAXVA" for va
      using mapped_Suc [of a 0 pa perm "pte_of (ram s) root" va] 0(2) ok(6) [OF that] by simp
    with ok free 0 show ?thesis
      by (intro exI [of _ 1] exI [of _ ?s'] exI [of _ xs'], subst mappages_not_NONE_loop.simps)
        (simp add: Let_def)
  qed
next
  case (Suc k)
  have aM: "a < MAXVA" using Suc.prems(3) by (simp add: word_less_nat_alt)
  from Suc.prems(1) aM show ?case
  proof (cases rule: walk_set_pte)
    case (fail s')
    then show ?thesis
      by (intro exI [of _ 0] exI [of _ s'] exI [of _ "[]"], subst mappages_not_NONE_loop.simps)
        (simp add: pt_ext_def)
  next
    case (ok pte s1 xs1)
    let ?s' = "s1\<lparr>ram := st64 (ram s1) pte (PA2PTE pa OR perm OR PTE_V)\<rparr>"
    let ?a = "a + PGSIZE"
    have free: "ld64 (ram s1) pte AND PTE_V = 0" using Suc.prems(2,5) aM ok(4) by auto
    have ua: "unat ?a = unat a + 4096" using aM by (rule MAXVA_step)
    have kM: "4096 * Suc (Suc k) \<le> 2 ^ 64"
      using Suc.prems(3) by (simp add: MAXVA_def)
    have ne: "a \<noteq> lst"
    proof
      assume "a = lst"
      then have "word_of_nat (Suc k) * PGSIZE = (0 :: addr)"
        using Suc.prems(4) by (metis add_cancel_right_right)
      then have "word_of_nat (Suc k * 4096) = (0 :: addr)" by (simp add: PGSIZE_def)
      then have "unat (word_of_nat (Suc k * 4096) :: addr) = 0" by simp
      moreover have "Suc k * 4096 < 2 ^ 64"
        using Suc.prems(3) by (simp add: MAXVA_def)
      ultimately show False by (subst (asm) unat_word_of_nat_64) simp_all
    qed
    have al: "page_aligned ?a" using Suc.prems(2) ua by (simp add: page_aligned_unat)
    have old: "pte_of (ram ?s') root va =
      (if PGROUNDDOWN va = a then PA2PTE pa OR perm OR PTE_V else pte_of (ram s) root va)"
      if "va < MAXVA" for va using ok(6) [OF that] Suc.prems(2) by simp
    have "\<exists>j s' xs'. mappages_not_NONE_loop root ?a lst (pa + PGSIZE) perm ?s'
        = Ok (if j = Suc k then 0 else -1, s') \<and>
      j \<le> Suc k \<and> (j \<noteq> Suc k \<longrightarrow> xs' = []) \<and> pt_grow root ?s' xs1 s' xs' \<and>
      (\<forall>va<MAXVA. pte_of (ram s') root va = mapped ?a (pa + PGSIZE) perm j (pte_of (ram ?s') root) va)"
    proof (rule Suc.IH)
      show "pt_wf ?s' root xs1" using ok(5) by (rule pt_growD)
      show "page_aligned ?a" by (rule al)
      show "unat ?a + 4096 * Suc k \<le> unat MAXVA" using Suc.prems(3) ua by simp
      show "lst = ?a + word_of_nat k * PGSIZE" using Suc.prems(4) by (simp add: algebra_simps)
      show "\<forall>va<MAXVA. unat (PGROUNDDOWN va - ?a) < 4096 * Suc k \<longrightarrow> pte_of (ram ?s') root va AND PTE_V = 0"
      proof (intro allI impI)
        fix va assume va: "va < MAXVA" "unat (PGROUNDDOWN va - ?a) < 4096 * Suc k"
        have "PGROUNDDOWN va \<noteq> a"
        proof
          assume "PGROUNDDOWN va = a"
          moreover have "unat (a - ?a) = 2 ^ 64 - 4096"
            by (rule unat_page_before)
          ultimately show False using va(2) kM by simp
        qed
        then show "pte_of (ram ?s') root va AND PTE_V = 0"
          using old va Suc.prems(2,5) page_dist [OF Suc.prems(2) PGROUNDDOWN_aligned] by auto
      qed
    qed
    then obtain j s' xs' where IH: "mappages_not_NONE_loop root ?a lst (pa + PGSIZE) perm ?s'
        = Ok (if j = Suc k then 0 else -1, s')" "j \<le> Suc k" "j \<noteq> Suc k \<longrightarrow> xs' = []"
      "pt_grow root ?s' xs1 s' xs'"
      "\<And>va. va < MAXVA \<Longrightarrow> pte_of (ram s') root va = mapped ?a (pa + PGSIZE) perm j (pte_of (ram ?s') root) va"
      by blast
    have "pte_of (ram s') root va = mapped a pa perm (Suc j) (pte_of (ram s) root) va" if "va < MAXVA" for va
    proof -
      have "mapped ?a (pa + PGSIZE) perm j (pte_of (ram ?s') root) va
        = mapped ?a (pa + PGSIZE) perm j
            (\<lambda>va. if PGROUNDDOWN va = a then PA2PTE pa OR perm OR PTE_V else pte_of (ram s) root va) va"
        using old [OF that] by (simp add: mapped_def Let_def)
      also have "\<dots> = mapped a pa perm (Suc j) (pte_of (ram s) root) va"
        using Suc.prems(2) kM IH(2) by (intro mapped_Suc) auto
      finally show ?thesis using IH(5) [OF that] by simp
    qed
    moreover have "mappages_not_NONE_loop root a lst pa perm s = Ok (if Suc j = Suc (Suc k) then 0 else -1, s')"
      using ok(1,2) free ne IH(1) by (subst mappages_not_NONE_loop.simps) (simp add: Let_def)
    moreover have "pt_grow root s xs s' xs'" using ok(5) IH(4) by (rule pt_grow_trans)
    ultimately show ?thesis using IH(2,3)
      by (intro exI [of _ "Suc j"] exI [of _ s'] exI [of _ xs']) auto
  qed
qed

text \<open>The variant compiled for \<^verbatim>\<open>NONE\<close> agrees wherever the other one does not panic.\<close>

lemma mappages_NONE_loop_eq:
  "mappages_not_NONE_loop root a lst pa perm s = Ok r \<Longrightarrow>
   mappages_NONE_loop root va a lst pa perm s = Ok r"
proof (induction root a lst pa perm s rule: mappages_not_NONE_loop.induct)
  case (1 root a lst pa perm s)
  from 1(2) obtain pte s1 where w: "walk root a True s = Ok (pte, s1)"
    by (subst (asm) mappages_not_NONE_loop.simps) (auto simp: and_then_eq_Ok)
  show ?case
  proof (cases "pte = 0")
    case True
    with w 1(2) show ?thesis
      by (subst mappages_NONE_loop.simps, subst (asm) mappages_not_NONE_loop.simps) simp
  next
    case False
    with w 1(2) have free: "ld64 (ram s1) pte AND PTE_V = 0"
      by (subst (asm) mappages_not_NONE_loop.simps) (simp split: if_splits)
    let ?s2 = "s1\<lparr>ram := st64 (ram s1) pte (PA2PTE pa OR perm OR PTE_V)\<rparr>"
    show ?thesis
    proof (cases "a = lst")
      case True
      with w 1(2) False free show ?thesis
        by (subst mappages_NONE_loop.simps, subst (asm) mappages_not_NONE_loop.simps) (simp add: Let_def)
    next
      case ne: False
      have "mappages_not_NONE_loop root (a + PGSIZE) lst (pa + PGSIZE) perm ?s2 = Ok r"
        using w 1(2) False free ne by (subst (asm) mappages_not_NONE_loop.simps) (simp add: Let_def)
      then have "mappages_NONE_loop root va (a + PGSIZE) lst (pa + PGSIZE) perm ?s2 = Ok r"
        using w False free ne by (intro 1(1) [where x = "(pte, s1)"]) auto
      with w False free ne show ?thesis by (subst mappages_NONE_loop.simps) (simp add: Let_def)
    qed
  qed
qed

lemma PGROUNDDOWN_last:
  assumes "page_aligned va" "unat va + 4096 * Suc k \<le> unat MAXVA"
  shows "PGROUNDDOWN (va + word_of_nat (Suc k) * PGSIZE - 1) = va + word_of_nat k * PGSIZE"
proof -
  let ?p = "va + word_of_nat k * PGSIZE"
  have k: "4096 * Suc k < 2 ^ 64" using assms(2) by (simp add: MAXVA_def)
  have eq: "word_of_nat k * PGSIZE = (word_of_nat (4096 * k) :: addr)" by (simp add: PGSIZE_def)
  have "unat (word_of_nat (4096 * k) :: addr) = 4096 * k"
    using k by (intro unat_word_of_nat_64) simp
  then have "unat ?p = unat va + 4096 * k"
    unfolding eq using assms(2) by (subst unat_add_small) (simp_all add: MAXVA_def)
  then have "page_aligned ?p" using assms(1) by (simp add: page_aligned_unat mod_add_eq)
  then have "PGROUNDDOWN (?p + 4095) = ?p" by (rule PGROUNDDOWN_add) simp
  moreover have "va + word_of_nat (Suc k) * PGSIZE - 1 = ?p + 4095"
    by (simp add: algebra_simps PGSIZE_def)
  ultimately show ?thesis by (simp only:)
qed

lemma mappages_spec:
  assumes wf: "pt_wf s root xs" and va: "page_aligned va" "unat va + 4096 * n \<le> unat MAXVA" "0 < n"
    and free: "\<forall>v<MAXVA. unat (PGROUNDDOWN v - va) < 4096 * n \<longrightarrow> pte_of (ram s) root v AND PTE_V = 0"
  shows "\<exists>j s' xs'. mappages sel root va (word_of_nat n * PGSIZE) pa perm s = Ok (if j = n then 0 else -1, s') \<and>
    j \<le> n \<and> (j \<noteq> n \<longrightarrow> xs' = []) \<and> pt_grow root s xs s' xs' \<and>
    (\<forall>v<MAXVA. pte_of (ram s') root v = mapped va pa perm j (pte_of (ram s) root) v)"
proof -
  obtain k where n: "n = Suc k" using va(3) by (cases n) auto
  have "PGROUNDDOWN (va + word_of_nat n * PGSIZE - 1) = va + word_of_nat k * PGSIZE"
    unfolding n by (rule PGROUNDDOWN_last) (use va n in auto)
  then have step: "mappages_not_NONE root va (word_of_nat n * PGSIZE) pa perm s
      = mappages_not_NONE_loop root va (va + word_of_nat k * PGSIZE) pa perm s"
    "mappages_NONE root va (word_of_nat n * PGSIZE) pa perm s
      = mappages_NONE_loop root va va (va + word_of_nat k * PGSIZE) pa perm s"
    using va(1) by (simp_all add: mappages_not_NONE_def mappages_NONE_def)
  obtain j s' xs' where loop: "mappages_not_NONE_loop root va (va + word_of_nat k * PGSIZE) pa perm s
      = Ok (if j = n then 0 else -1, s')"
    and rest: "j \<le> n" "j \<noteq> n \<longrightarrow> xs' = []" "pt_grow root s xs s' xs'"
      "\<forall>v<MAXVA. pte_of (ram s') root v = mapped va pa perm j (pte_of (ram s) root) v"
    using mappages_loop_spec [OF wf va(1), of k _ pa perm] va(2) free unfolding n by blast
  have "mappages sel root va (word_of_nat n * PGSIZE) pa perm s = Ok (if j = n then 0 else -1, s')"
    using loop mappages_NONE_loop_eq [OF loop] by (simp add: mappages_def step)
  with rest show ?thesis by blast
qed

lemma mappage_spec:
  assumes wf: "pt_wf s root xs" and va: "va < MAXVA" and free: "pte_of (ram s) root va AND PTE_V = 0"
  shows "\<exists>j s' xs'. mappage root va pa perm s = Ok (if j = 1 then 0 else -1, s') \<and>
    j \<le> 1 \<and> (j \<noteq> 1 \<longrightarrow> xs' = []) \<and> pt_grow root s xs s' xs' \<and>
    (\<forall>v<MAXVA. pte_of (ram s') root v = mapped (PGROUNDDOWN va) pa perm j (pte_of (ram s) root) v)"
proof -
  have le: "PGROUNDDOWN va \<le> va" by (simp add: word_le_nat_alt unat_PGROUNDDOWN)
  then have aM: "PGROUNDDOWN va < MAXVA" using va by simp
  have same: "pte_of (ram s) root (PGROUNDDOWN va) = pte_of (ram s) root va"
    using aM va by (rule pte_of_same_page) simp
  from wf aM show ?thesis
  proof (cases rule: walk_set_pte)
    case (fail s')
    then show ?thesis
      by (intro exI [of _ 0] exI [of _ s'] exI [of _ "[]"]) (simp add: mappage_def pt_ext_def)
  next
    case (ok pte s1 xs')
    let ?s' = "s1\<lparr>ram := st64 (ram s1) pte (PA2PTE pa OR perm OR PTE_V)\<rparr>"
    have "pte_of (ram ?s') root v = mapped (PGROUNDDOWN va) pa perm 1 (pte_of (ram s) root) v"
      if "v < MAXVA" for v
      using mapped_Suc [of "PGROUNDDOWN va" 0 pa perm "pte_of (ram s) root" v] ok(6) [OF that] by simp
    with ok free same show ?thesis
      by (intro exI [of _ 1] exI [of _ ?s'] exI [of _ xs']) (simp add: mappage_def)
  qed
qed

section \<open>Fresh page tables\<close>

lemma pt_wf_zero_page:
  assumes "kinv s xs" "page_ok s root" "root \<notin> set xs" "\<And>a. PGROUNDDOWN a = root \<Longrightarrow> ram s a = 0"
  shows "pt_wf s root xs" and "pt_pages (ram s) root = {root}" and "pte_of (ram s) root va = 0"
proof -
  have al: "page_aligned root" using assms(2) by (simp add: page_ok_def)
  have none: "child (ram s) root i = None" if "i < 512" for i
    using ld64_zero_page [of root i "ram s"] al that assms(4) by (simp add: child_def)
  have tbl: "tbl (ram s) root p = Some t \<longleftrightarrow> p = [] \<and> t = root" if "path p" for p t
    using that none by (cases p) (auto simp: path_def)
  show "pt_wf s root xs" using assms tbl by (simp add: pt_wf_def)
  show "pt_pages (ram s) root = {root}" using tbl path_simps(1) unfolding pt_pages_def by blast
  show "pte_of (ram s) root va = 0"
    using none PX_less by (simp add: pte_of_def)
qed

lemma uvmcreate_spec:
  assumes "kinv s (root # xs)"
  obtains s' where "uvmcreate s = (root, s')" "pt_wf s' root xs" "pt_pages (ram s') root = {root}"
    "\<And>va. pte_of (ram s') root va = 0" "\<And>a. PGROUNDDOWN a \<noteq> root \<Longrightarrow> ram s' a = ram s a"
    "s' = s\<lparr>ram := ram s', freelist := freelist s'\<rparr>"
proof -
  from assms obtain s1 where s1: "kalloc s = (root, s1)" "kinv s1 xs" "page_ok s root" "root \<notin> set xs"
    "root \<noteq> 0" "\<And>a. ram s1 a = (if PGROUNDDOWN a = root then 5 else ram s a)"
    "s1 = s\<lparr>ram := ram s1, freelist := freelist s1\<rparr>"
    by (elim kalloc_spec) blast
  let ?s' = "s1\<lparr>ram := memset (ram s1) root 0 (ucast PGSIZE)\<rparr>"
  have al: "page_aligned root" using s1(3) by (simp add: page_ok_def)
  have m: "ram ?s' a = (if PGROUNDDOWN a = root then 0 else ram s a)" for a
    using al s1(6) by (simp add: memset_page)
  have "kinv ?s' xs" by (rule kinv_ram_update [OF s1(2)]) (use s1(4) al in \<open>auto simp: memset_page\<close>)
  moreover have "page_ok ?s' root" using s1(3) by (subst s1(7)) (simp add: page_ok_def)
  ultimately have wf: "pt_wf ?s' root xs" "pt_pages (ram ?s') root = {root}" "\<And>va. pte_of (ram ?s') root va = 0"
    using pt_wf_zero_page [of ?s' xs root] s1(4) m by auto
  have "uvmcreate s = (root, ?s')" using s1 by (simp add: uvmcreate_def)
  moreover have "?s' = s\<lparr>ram := ram ?s', freelist := freelist ?s'\<rparr>" by (subst s1(7)) simp
  ultimately show thesis using wf m by (intro that [of ?s']) auto
qed

section \<open>Independent page tables\<close>

lemma pt_pages_frame:
  assumes wf: "pt_wf s root xs" and m: "\<And>a. PGROUNDDOWN a \<in> pt_pages (ram s) root \<Longrightarrow> m a = ram s a"
  shows "pt_pages m root = pt_pages (ram s) root"
  using tbl_frame [OF assms] unfolding pt_pages_def by auto

lemma pt_wf_transfer:
  assumes wf: "pt_wf s root xs" and kinv: "kinv s' xs'" and sub: "set xs' \<inter> pt_pages (ram s) root = {}"
    and m: "\<And>a. PGROUNDDOWN a \<in> pt_pages (ram s) root \<Longrightarrow> ram s' a = ram s a"
    and kend: "kend s' = kend s"
  shows "pt_wf s' root xs'"
proof -
  have tbl: "tbl (ram s') root p = tbl (ram s) root p" if "path p" for p
    using tbl_frame [OF wf m that] by simp
  have mem: "t \<in> pt_pages (ram s) root" if "path p" "tbl (ram s) root p = Some t" for p t
    using that unfolding pt_pages_def by blast
  have "page_ok s' t \<and> t \<notin> set xs'" if "path p" "tbl (ram s) root p = Some t" for p t
    using pt_wfD(1) [OF wf that] mem [OF that] sub kend by (auto simp: page_ok_def)
  moreover have "p = q" if "path p" "path q" "tbl (ram s) root p = Some t" "tbl (ram s) root q = Some t"
    for p q t using pt_wf_inj [OF wf that] .
  ultimately show ?thesis using kinv tbl unfolding pt_wf_def by metis
qed

lemma pt_grow_other:
  assumes wf: "pt_wf s root2 xs" and grow: "pt_grow root s xs s' xs'"
    and dj: "pt_pages (ram s) root \<inter> pt_pages (ram s) root2 = {}"
  shows "pt_wf s' root2 xs'" "pt_pages (ram s') root2 = pt_pages (ram s) root2"
    "pte_of (ram s') root2 va = pte_of (ram s) root2 va"
proof -
  have fr: "pt_pages (ram s) root2 \<inter> set xs = {}"
    using pt_wfD(2) [OF wf] unfolding pt_pages_def by blast
  have m: "ram s' a = ram s a" if "PGROUNDDOWN a \<in> pt_pages (ram s) root2" for a
    using grow that fr dj unfolding pt_grow_def by blast
  have "kend s' = kend s" using grow unfolding pt_grow_def by (metis kmem.select_convs(3) kmem.surjective kmem.update_convs(1,2))
  moreover have "kinv s' xs'" using grow by (simp add: pt_grow_def pt_wf_def)
  moreover have "set xs' \<inter> pt_pages (ram s) root2 = {}"
    using grow fr unfolding pt_grow_def by auto
  ultimately show "pt_wf s' root2 xs'" using m by (intro pt_wf_transfer [OF wf]) auto
  show "pt_pages (ram s') root2 = pt_pages (ram s) root2" by (rule pt_pages_frame [OF wf m])
  show "pte_of (ram s') root2 va = pte_of (ram s) root2 va" by (rule pte_of_frame [OF wf m])
qed

section \<open>Properties\<close>

text \<open>The entry a mapping writes reads back as the frame and, with \<^verbatim>\<open>PTE_U\<close>, as a user page.\<close>

lemma mapped_entry:
  assumes "page_aligned pa" "unat pa + 4096 * n \<le> unat PHYSTOP" "perm < 1024" "page_aligned d"
    "unat d < 4096 * n"
  shows "PTE2PA (PA2PTE (pa + d) OR perm OR PTE_V) = pa + d"
    "bit (PA2PTE (pa + d) OR perm OR PTE_V) 0"
    "bit perm 4 \<Longrightarrow> bit (PA2PTE (pa + d) OR perm OR PTE_V) 4"
proof -
  have "unat (pa + d) = unat pa + unat d"
    using assms(2,5) by (intro unat_add_small) (simp add: PHYSTOP_def KERNBASE_def)
  then have "page_aligned (pa + d)" "pa + d < PHYSTOP"
    using assms mod_add_eq [of "unat pa" 4096 "unat d"]
    by (simp_all add: page_aligned_unat word_less_nat_alt)
  moreover have "perm OR PTE_V < 1024"
  proof -
    have "take_bit 10 perm = perm"
      using assms(3) by (simp add: take_bit_eq_mod word_unat_eq_iff unat_mod_distrib word_less_nat_alt)
    then have "take_bit 10 (perm OR PTE_V) = perm OR PTE_V"
      by (simp add: PTE_V_def)
    then show ?thesis
      using take_bit_nat_less_exp [of 10 "unat (perm OR PTE_V)"]
      by (simp add: word_less_nat_alt word_unat_eq_iff unat_mod_distrib take_bit_eq_mod)
  qed
  ultimately show "PTE2PA (PA2PTE (pa + d) OR perm OR PTE_V) = pa + d"
    using PTE2PA_make(1) [of "pa + d" "perm OR PTE_V"] by (simp add: or.assoc)
  show "bit (PA2PTE (pa + d) OR perm OR PTE_V) 0" by (simp add: bit_simps PTE_V_def)
  show "bit (PA2PTE (pa + d) OR perm OR PTE_V) 4" if "bit perm 4" using that by (simp add: bit_simps)
qed

lemma page_aligned_diff: "page_aligned a \<Longrightarrow> page_aligned b \<Longrightarrow> page_aligned (a - b)"
  by (auto simp: page_aligned_unat unat_sub_if' elim!: dvdE simp: dvd_eq_mod_eq_0 [symmetric])

text \<open>Two empty page tables in the example memory.\<close>

lemma two_pages_pt:
  assumes "root \<in> {0x80003000, 0x80004000}"
  shows "pt_wf two_pages root [0x80001000, 0x80002000]" "pt_pages (ram two_pages) root = {root}"
    "pte_of (ram two_pages) root va = 0"
proof -
  have "PGROUNDDOWN (0x80001000 + 8 * 0 + word_of_nat i) = 0x80001000" if "i < 8" for i
    using that by (intro slot_in_page) (simp_all add: page_aligned_def PGSIZE_def)
  have al: "page_aligned 0x80001000" by (simp add: page_aligned_def PGSIZE_def)
  have z: "ram two_pages a = 0" if "PGROUNDDOWN a = root" for a
    using st64_outside [OF al, of 0 a "\<lambda>_. 0" "0x80002000"] that assms
    by (auto simp: two_pages_def)
  have ok: "page_ok two_pages root" "root \<notin> set [0x80001000, 0x80002000]"
    using assms by (auto simp: page_ok_def two_pages_def page_aligned_def PGSIZE_def PHYSTOP_def KERNBASE_def)
  note * = pt_wf_zero_page [OF two_pages_kinv ok z]
  show "pt_wf two_pages root [0x80001000, 0x80002000]" "pt_pages (ram two_pages) root = {root}"
    "pte_of (ram two_pages) root va = 0"
    using * by auto
qed

text \<open>
  C3. \<^verbatim>\<open>mappages\<close>, whichever policy the kernel is built for, on a page-aligned range of unmapped
  user pages below \<^verbatim>\<open>MAXVA\<close> never panics. It returns 0, and then \<^verbatim>\<open>walkaddr\<close> translates every
  address of the range to its frame and every other address as before the call; or it
  returns -1, and then the allocator has run out of pages. In both cases the tables still
  form a tree of allocated pages, and only free pages and tables of this root were written.
\<close>

theorem mappages_walkaddr:
  assumes "pt_wf s root xs" "page_aligned va" "unat va + 4096 * n \<le> unat MAXVA" "0 < n"
    and "\<forall>v<MAXVA. unat (PGROUNDDOWN v - va) < 4096 * n \<longrightarrow> pte_of (ram s) root v AND PTE_V = 0"
    and "page_aligned pa" "unat pa + 4096 * n \<le> unat PHYSTOP" "perm < 1024" "bit perm 4"
  shows "\<exists>r s' xs'. mappages sel root va (word_of_nat n * PGSIZE) pa perm s = Ok (r, s') \<and>
    pt_wf s' root xs' \<and> (r = 0 \<or> r = -1 \<and> freelist s' = 0) \<and>
    (r = 0 \<longrightarrow> (\<forall>v<MAXVA. walkaddr root v s' =
       (if unat (PGROUNDDOWN v - va) < 4096 * n then Ok (pa + (PGROUNDDOWN v - va)) else walkaddr root v s))) \<and>
    (\<forall>a. PGROUNDDOWN a \<notin> set xs \<union> pt_pages (ram s) root \<longrightarrow> ram s' a = ram s a)"
proof -
  obtain j s' xs' where m: "mappages sel root va (word_of_nat n * PGSIZE) pa perm s
      = Ok (if j = n then 0 else -1, s')"
    "j \<le> n" "j \<noteq> n \<longrightarrow> xs' = []" "pt_grow root s xs s' xs'"
    "\<forall>v<MAXVA. pte_of (ram s') root v = mapped va pa perm j (pte_of (ram s) root) v"
    using mappages_spec [OF assms(1-5)] by blast
  have wf: "pt_wf s' root xs'" using m(4) by (rule pt_growD)
  have "walkaddr root v s' =
      (if unat (PGROUNDDOWN v - va) < 4096 * n then Ok (pa + (PGROUNDDOWN v - va)) else walkaddr root v s)"
    if "j = n" "v < MAXVA" for v
    using that m(5) mapped_entry [OF assms(6-8) page_aligned_diff [OF PGROUNDDOWN_aligned assms(2)], of v] assms(9)
    by (simp add: walkaddr_eq [OF wf] walkaddr_eq [OF assms(1)] mapped_def Let_def)
  moreover have "freelist s' = 0" if "xs' = []" using wf that by (simp add: pt_wf_def kinv_def)
  ultimately show ?thesis using m wf unfolding pt_grow_def
    by (intro exI [of _ "if j = n then 0 else -1"] exI [of _ s'] exI [of _ xs']) simp
qed

theorem mappages_walkaddr_witness:
  "\<exists>r s' xs'. mappages NFUA 0x80003000 0 (word_of_nat 2 * PGSIZE) 0x80004000 PTE_U two_pages = Ok (r, s') \<and>
    pt_wf s' 0x80003000 xs' \<and> (r = 0 \<or> r = -1 \<and> freelist s' = 0) \<and>
    (r = 0 \<longrightarrow> (\<forall>v<MAXVA. walkaddr 0x80003000 v s' =
       (if unat (PGROUNDDOWN v - 0) < 4096 * 2 then Ok (0x80004000 + (PGROUNDDOWN v - 0))
        else walkaddr 0x80003000 v two_pages))) \<and>
    (\<forall>a. PGROUNDDOWN a \<notin> set [0x80001000, 0x80002000] \<union> pt_pages (ram two_pages) 0x80003000 \<longrightarrow>
      ram s' a = ram two_pages a)"
  by (rule mappages_walkaddr)
    (simp_all add: two_pages_pt page_aligned_def PGSIZE_def MAXVA_def PHYSTOP_def KERNBASE_def PTE_U_def bit_simps)

text \<open>
  C14. Page tables are independent: a call of \<^verbatim>\<open>mappages\<close> on one root leaves every page table
  that shares no table page with it well formed, with the same tables and the same entry
  for every virtual address.
\<close>

theorem mappages_isolated:
  assumes "pt_wf s root xs" "pt_wf s root2 xs" "pt_pages (ram s) root \<inter> pt_pages (ram s) root2 = {}"
    and "page_aligned va" "unat va + 4096 * n \<le> unat MAXVA" "0 < n"
    and "\<forall>v<MAXVA. unat (PGROUNDDOWN v - va) < 4096 * n \<longrightarrow> pte_of (ram s) root v AND PTE_V = 0"
  shows "\<exists>r s' xs'. mappages sel root va (word_of_nat n * PGSIZE) pa perm s = Ok (r, s') \<and>
    pt_wf s' root2 xs' \<and> pt_pages (ram s') root \<inter> pt_pages (ram s') root2 = {} \<and>
    (\<forall>v. pte_of (ram s') root2 v = pte_of (ram s) root2 v)"
proof -
  obtain r s' xs' where m: "mappages sel root va (word_of_nat n * PGSIZE) pa perm s = Ok (r, s')"
    "pt_grow root s xs s' xs'"
    using mappages_spec [OF assms(1,4-7)] by blast
  note o = pt_grow_other [OF assms(2) m(2) assms(3)]
  have "pt_pages (ram s) root2 \<inter> set xs = {}"
    using pt_wfD(2) [OF assms(2)] unfolding pt_pages_def by blast
  then have "pt_pages (ram s') root \<inter> pt_pages (ram s') root2 = {}"
    using m(2) assms(3) o(2) unfolding pt_grow_def by auto
  with m o show ?thesis by blast
qed

theorem mappages_isolated_witness:
  "\<exists>r s' xs'. mappages NONE 0x80003000 0x1000 (word_of_nat 1 * PGSIZE) 0x80005000 PTE_U two_pages = Ok (r, s') \<and>
    pt_wf s' 0x80004000 xs' \<and> pt_pages (ram s') 0x80003000 \<inter> pt_pages (ram s') 0x80004000 = {} \<and>
    (\<forall>v. pte_of (ram s') 0x80004000 v = pte_of (ram two_pages) 0x80004000 v)"
  by (rule mappages_isolated [where xs = "[0x80001000, 0x80002000]"])
    (simp_all add: two_pages_pt page_aligned_def PGSIZE_def MAXVA_def)

end
