(* ===== verification/UserMem.thy ===== *)
theory UserMem
  imports PageTable
begin

text \<open>
  Moving bytes between kernel and user memory: \<^verbatim>\<open>copyout\<close>, \<^verbatim>\<open>copyin\<close> and \<^verbatim>\<open>copyinstr\<close> of
  \<^verbatim>\<open>kernel/vm.c\<close>. A kernel buffer is given by its contents: the source of \<^verbatim>\<open>copyout\<close> as the
  list of bytes to copy, the destination of \<^verbatim>\<open>copyin\<close> and \<^verbatim>\<open>copyinstr\<close> as the list of bytes
  stored there so far, which is what the caller finds in its buffer also when the call fails.
  \<open>uread\<close> is user memory as the process sees it; the three routines are shown to read and
  write exactly that.
\<close>

section \<open>Blocks of bytes\<close>

definition load_bytes :: "ram \<Rightarrow> addr \<Rightarrow> nat \<Rightarrow> uchar list" where
  "load_bytes m a n = map (\<lambda>i. m (a + word_of_nat i)) [0..<n]"

definition store_bytes :: "ram \<Rightarrow> addr \<Rightarrow> uchar list \<Rightarrow> ram" where
  "store_bytes m a bs = (\<lambda>x. if unat (x - a) < length bs then bs ! unat (x - a) else m x)"

lemma length_load_bytes [simp]: "length (load_bytes m a n) = n"
  by (simp add: load_bytes_def)

lemma nth_load_bytes [simp]: "i < n \<Longrightarrow> load_bytes m a n ! i = m (a + word_of_nat i)"
  by (simp add: load_bytes_def)

lemma store_bytes_Nil [simp]: "store_bytes m a [] = m"
  by (simp add: store_bytes_def)

text \<open>Copying a block of memory into place is \<^verbatim>\<open>memmove\<close>.\<close>

lemma store_load_memmove:
  assumes "unat src + unat n < 2 ^ 64" "unat dst + unat n \<le> 2 ^ 64"
  shows "store_bytes m dst (load_bytes m src (unat n)) = memmove m dst src n"
  by (auto simp: memmove_eq [OF assms] store_bytes_def fun_eq_iff)

section \<open>Operations\<close>

lemma page_rest: "0 < unat (PGSIZE - (va - PGROUNDDOWN va))" "unat (PGSIZE - (va - PGROUNDDOWN va)) \<le> 4096"
proof -
  have "unat (va - PGROUNDDOWN va) < 4096"
    using in_page_iff [OF PGROUNDDOWN_aligned, of va va] by simp
  then have "unat (PGSIZE - (va - PGROUNDDOWN va)) = 4096 - unat (va - PGROUNDDOWN va)"
    by (subst unat_sub) (simp_all add: PGSIZE_def word_le_nat_alt)
  with \<open>unat (va - PGROUNDDOWN va) < 4096\<close>
  show "0 < unat (PGSIZE - (va - PGROUNDDOWN va))" "unat (PGSIZE - (va - PGROUNDDOWN va)) \<le> 4096"
    by simp_all
qed

function copyout :: "addr \<Rightarrow> uint64 \<Rightarrow> uchar list \<Rightarrow> 'z kmem_scheme \<Rightarrow> (int \<times> 'z kmem_scheme) res" where
  "copyout pagetable dstva src s =
     (if src = [] then Ok (0, s)
      else let va0 = PGROUNDDOWN dstva
           in and_then (walkaddr pagetable va0 s) (\<lambda>pa0.
             if pa0 = 0 then Ok (-1, s)
             else let n = min (unat (PGSIZE - (dstva - va0))) (length src)
                  in copyout pagetable (va0 + PGSIZE) (drop n src)
                       (s\<lparr>ram := store_bytes (ram s) (pa0 + (dstva - va0)) (take n src)\<rparr>)))"
  by pat_completeness auto
termination
  by (relation "measure (\<lambda>(_, _, src, _). length src)") (use page_rest(1) in auto)

function copyin :: "addr \<Rightarrow> uint64 \<Rightarrow> nat \<Rightarrow> 'z kmem_scheme \<Rightarrow> (int \<times> uchar list) res" where
  "copyin pagetable srcva len s =
     (if len = 0 then Ok (0, [])
      else let va0 = PGROUNDDOWN srcva
           in and_then (walkaddr pagetable va0 s) (\<lambda>pa0.
             if pa0 = 0 then Ok (-1, [])
             else let n = min (unat (PGSIZE - (srcva - va0))) len;
                      bs = load_bytes (ram s) (pa0 + (srcva - va0)) n
                  in and_then (copyin pagetable (va0 + PGSIZE) (len - n) s) (\<lambda>(r, bs').
                       Ok (r, bs @ bs'))))"
  by pat_completeness auto
termination
  by (relation "measure (\<lambda>(_, _, len, _). len)") (use page_rest(1) in auto)

text \<open>The inner loop of \<^verbatim>\<open>copyinstr\<close>: the bytes it stores and whether it met the terminator.\<close>

fun copyinstr_page :: "ram \<Rightarrow> addr \<Rightarrow> nat \<Rightarrow> uchar list \<times> bool" where
  "copyinstr_page m p 0 = ([], False)"
| "copyinstr_page m p (Suc n) =
     (if m p = 0 then ([0], True)
      else case copyinstr_page m (p + 1) n of (bs, got_null) \<Rightarrow> (m p # bs, got_null))"

function copyinstr :: "addr \<Rightarrow> uint64 \<Rightarrow> nat \<Rightarrow> 'z kmem_scheme \<Rightarrow> (int \<times> uchar list) res" where
  "copyinstr pagetable srcva mx s =
     (if mx = 0 then Ok (-1, [])
      else let va0 = PGROUNDDOWN srcva
           in and_then (walkaddr pagetable va0 s) (\<lambda>pa0.
             if pa0 = 0 then Ok (-1, [])
             else let n = min (unat (PGSIZE - (srcva - va0))) mx
                  in case copyinstr_page (ram s) (pa0 + (srcva - va0)) n of (bs, got_null) \<Rightarrow>
                    if got_null then Ok (0, bs)
                    else and_then (copyinstr pagetable (va0 + PGSIZE) (mx - n) s) (\<lambda>(r, bs').
                       Ok (r, bs @ bs'))))"
  by pat_completeness auto
termination
  by (relation "measure (\<lambda>(_, _, mx, _). mx)") (use page_rest(1) in auto)

declare copyout.simps [simp del] copyin.simps [simp del] copyinstr.simps [simp del]

section \<open>User memory\<close>

text \<open>The byte a process reads at a virtual address; \<open>None\<close> where it has no page.\<close>

definition uread :: "'z kmem_scheme \<Rightarrow> addr \<Rightarrow> uint64 \<Rightarrow> uchar option" where
  "uread s root va =
     (let e = pte_of (ram s) root va
      in if va < MAXVA \<and> bit e 0 \<and> bit e 4 then Some (ram s (PTE2PA e + (va - PGROUNDDOWN va))) else None)"

definition user_pte :: "uint64 \<Rightarrow> bool" where
  "user_pte e \<longleftrightarrow> bit e 0 \<and> bit e 4"

definition user_frames :: "ram \<Rightarrow> addr \<Rightarrow> addr set" where
  "user_frames m root = {PTE2PA (pte_of m root va) |va. va < MAXVA \<and> user_pte (pte_of m root va)}"

text \<open>
  A well-formed address space: the frames of user pages are allocated pages that are neither
  page tables nor free, and no frame is shared by two user pages.
\<close>

definition uspace :: "'z kmem_scheme \<Rightarrow> addr \<Rightarrow> addr list \<Rightarrow> bool" where
  "uspace s root xs \<longleftrightarrow> pt_wf s root xs \<and>
     (\<forall>f \<in> user_frames (ram s) root. page_ok s f \<and> f \<notin> set xs \<and> f \<notin> pt_pages (ram s) root) \<and>
     (\<forall>va<MAXVA. \<forall>vb<MAXVA. user_pte (pte_of (ram s) root va) \<longrightarrow> user_pte (pte_of (ram s) root vb) \<longrightarrow>
        PTE2PA (pte_of (ram s) root va) = PTE2PA (pte_of (ram s) root vb) \<longrightarrow> PGROUNDDOWN va = PGROUNDDOWN vb)"

lemma user_framesI:
  "va < MAXVA \<Longrightarrow> user_pte (pte_of m root va) \<Longrightarrow> PTE2PA (pte_of m root va) \<in> user_frames m root"
  by (auto simp: user_frames_def)

lemma MAXVA_PGROUNDDOWN: "PGROUNDDOWN va < MAXVA \<longleftrightarrow> va < MAXVA"
proof -
  have "unat va div 4096 * 4096 < 2 ^ 38 \<longleftrightarrow> unat va < 2 ^ 38"
    by (auto simp: div_less_iff_less_mult less_mult_imp_div_less)
  then show ?thesis by (simp add: word_less_nat_alt unat_PGROUNDDOWN MAXVA_def)
qed

text \<open>The bytes of one page from \<open>va\<close> on.\<close>

lemma page_chunk:
  assumes "i < unat (PGSIZE - (va - PGROUNDDOWN va))"
  shows "PGROUNDDOWN (va + word_of_nat i) = PGROUNDDOWN va"
proof -
  let ?off = "va - PGROUNDDOWN va"
  have off: "unat ?off < 4096" using in_page_iff [OF PGROUNDDOWN_aligned, of va va] by simp
  have "unat (PGSIZE - ?off) = 4096 - unat ?off"
    using off by (subst unat_sub) (simp_all add: PGSIZE_def word_le_nat_alt)
  then have i: "unat ?off + i < 4096" using assms by simp
  then have "unat (?off + word_of_nat i) < 4096"
    by (subst unat_add_small) (simp_all add: unat_word_of_nat_64)
  then have "PGROUNDDOWN (PGROUNDDOWN va + (?off + word_of_nat i)) = PGROUNDDOWN va"
    by (intro PGROUNDDOWN_add) (simp_all add: word_less_nat_alt)
  then show ?thesis by simp
qed

lemma page_next: "PGROUNDDOWN va + PGSIZE = va + word_of_nat (unat (PGSIZE - (va - PGROUNDDOWN va)))"
  by simp

lemma uread_page:
  assumes sp: "uspace s root xs" and i: "i < unat (PGSIZE - (va - PGROUNDDOWN va))"
    and w: "walkaddr root (PGROUNDDOWN va) s = Ok pa"
  shows "uread s root (va + word_of_nat i) =
    (if pa = 0 then None else Some (ram s (pa + (va - PGROUNDDOWN va) + word_of_nat i)))"
proof -
  let ?v = "va + word_of_nat i"
  have pg: "PGROUNDDOWN ?v = PGROUNDDOWN va" by (rule page_chunk [OF i])
  have M: "?v < MAXVA \<longleftrightarrow> PGROUNDDOWN va < MAXVA" using MAXVA_PGROUNDDOWN [of ?v] pg by simp
  have wf: "pt_wf s root xs" using sp by (simp add: uspace_def)
  show ?thesis
  proof (cases "PGROUNDDOWN va < MAXVA")
    case True
    then have e: "pte_of (ram s) root ?v = pte_of (ram s) root (PGROUNDDOWN va)"
      using M pg by (intro pte_of_same_page) simp_all
    have "PTE2PA (pte_of (ram s) root ?v) \<noteq> 0" if "user_pte (pte_of (ram s) root ?v)"
      using sp user_framesI [of ?v "ram s" root] that True M page_ok_nonzero [of s]
      by (auto simp: uspace_def pt_wf_def kinv_def)
    with w True M e show ?thesis
      by (auto simp: walkaddr_eq [OF wf] uread_def Let_def pg user_pte_def algebra_simps)
  qed (use w M in \<open>auto simp: walkaddr_eq [OF wf] uread_def\<close>)
qed

lemma walkaddr_Ok: "uspace s root xs \<Longrightarrow> \<exists>pa. walkaddr root va s = Ok pa"
  by (auto simp: uspace_def walkaddr_eq)

section \<open>copyin and copyinstr\<close>

lemma copyin_spec:
  assumes sp: "uspace s root xs"
  shows "\<exists>r bs. copyin root va len s = Ok (r, bs) \<and> length bs \<le> len \<and>
    (\<forall>i<length bs. uread s root (va + word_of_nat i) = Some (bs ! i)) \<and>
    (if length bs = len then r = 0 else r = -1 \<and> uread s root (va + word_of_nat (length bs)) = None)"
  using sp
proof (induction root va len s rule: copyin.induct)
  case (1 root va len s)
  show ?case
  proof (cases "len = 0")
    case False
    let ?n = "min (unat (PGSIZE - (va - PGROUNDDOWN va))) len"
    obtain pa where w: "walkaddr root (PGROUNDDOWN va) s = Ok pa" using walkaddr_Ok [OF 1(2)] by blast
    note rd = uread_page [OF 1(2) _ w]
    show ?thesis
    proof (cases "pa = 0")
      case True
      then have "uread s root va = None" using rd [of 0] page_rest(1) by simp
      with True w False show ?thesis by (subst copyin.simps) simp
    next
      case pa: False
      obtain r bs where IH: "copyin root (PGROUNDDOWN va + PGSIZE) (len - ?n) s = Ok (r, bs)"
        "length bs \<le> len - ?n"
        "\<And>i. i < length bs \<Longrightarrow> uread s root (PGROUNDDOWN va + PGSIZE + word_of_nat i) = Some (bs ! i)"
        "if length bs = len - ?n then r = 0
         else r = -1 \<and> uread s root (PGROUNDDOWN va + PGSIZE + word_of_nat (length bs)) = None"
        using 1(1) [OF False refl w pa refl refl 1(2)] by blast
      let ?bs = "load_bytes (ram s) (pa + (va - PGROUNDDOWN va)) ?n @ bs"
      have sh: "PGROUNDDOWN va + PGSIZE + word_of_nat i = va + word_of_nat (?n + i)" if "?n < len" for i
        using that page_next [of va] by (simp add: min_def split: if_splits)
      have "uread s root (va + word_of_nat i) = Some (?bs ! i)" if i: "i < length ?bs" for i
      proof (cases "i < ?n")
        case True
        then show ?thesis using rd [of i] pa by (simp add: nth_append)
      next
        case ge: False
        then obtain j where j: "i = ?n + j" using le_Suc_ex not_less by metis
        then have "j < length bs" "?n < len" using i IH(2) by auto
        then show ?thesis using IH(3) [of j] sh [of j] by (simp add: j nth_append)
      qed
      moreover have "if length ?bs = len then r = 0
        else r = -1 \<and> uread s root (va + word_of_nat (length ?bs)) = None"
        using IH(2,4) sh [of "length bs"] by (auto simp: not_less ac_simps split: if_splits)
      moreover have "copyin root va len s = Ok (r, ?bs)"
        using w False pa IH(1) by (subst copyin.simps) (simp add: Let_def)
      moreover have "length ?bs \<le> len" using IH(2) by simp
      ultimately show ?thesis by blast
    qed
  qed (simp add: copyin.simps)
qed

lemma copyinstr_page_spec:
  "case copyinstr_page m p n of (bs, got) \<Rightarrow>
     (\<forall>i<length bs. bs ! i = m (p + word_of_nat i)) \<and>
     (if got then bs \<noteq> [] \<and> length bs \<le> n \<and> last bs = 0 \<and> 0 \<notin> set (butlast bs)
      else length bs = n \<and> 0 \<notin> set bs)"
proof (induction n arbitrary: p)
  case (Suc n)
  obtain bs got where r: "copyinstr_page m (p + 1) n = (bs, got)" by fastforce
  show ?case
    using Suc [of "p + 1"] r by (auto simp: nth_Cons' algebra_simps split: if_splits)
qed simp

text \<open>
  \<^verbatim>\<open>copyinstr\<close> succeeds exactly when a terminator is found within the limit, and then has copied
  the user's string up to and including it.
\<close>

lemma copyinstr_spec:
  assumes sp: "uspace s root xs"
  shows "\<exists>r bs. copyinstr root va mx s = Ok (r, bs) \<and> length bs \<le> mx \<and>
    (\<forall>i<length bs. uread s root (va + word_of_nat i) = Some (bs ! i)) \<and>
    (if r = 0 then bs \<noteq> [] \<and> last bs = 0 \<and> 0 \<notin> set (butlast bs)
     else r = -1 \<and> 0 \<notin> set bs \<and> (length bs = mx \<or> uread s root (va + word_of_nat (length bs)) = None))"
  using sp
proof (induction root va mx s rule: copyinstr.induct)
  case (1 root va mx s)
  show ?case
  proof (cases "mx = 0")
    case False
    let ?n = "min (unat (PGSIZE - (va - PGROUNDDOWN va))) mx"
    obtain pa where w: "walkaddr root (PGROUNDDOWN va) s = Ok pa" using walkaddr_Ok [OF 1(2)] by blast
    note rd = uread_page [OF 1(2) _ w]
    show ?thesis
    proof (cases "pa = 0")
      case True
      then have "uread s root va = None" using rd [of 0] page_rest(1) by simp
      with True w False show ?thesis by (subst copyinstr.simps) simp
    next
      case pa: False
      obtain b0 got where c: "copyinstr_page (ram s) (pa + (va - PGROUNDDOWN va)) ?n = (b0, got)"
        by fastforce
      note cs = copyinstr_page_spec [of "ram s" "pa + (va - PGROUNDDOWN va)" ?n, unfolded c, simplified]
      have le: "length b0 \<le> ?n" using cs by (auto split: if_splits)
      have b0: "uread s root (va + word_of_nat i) = Some (b0 ! i)" if "i < length b0" for i
        using rd [of i] pa le that cs by simp
      show ?thesis
      proof (cases got)
        case True
        then have "copyinstr root va mx s = Ok (0, b0)"
          using w False pa c by (subst copyinstr.simps) (simp add: Let_def)
        then show ?thesis using b0 cs True le by auto
      next
        case got: False
        then have n: "length b0 = ?n" using cs by simp
        obtain r bs where IH: "copyinstr root (PGROUNDDOWN va + PGSIZE) (mx - ?n) s = Ok (r, bs)"
          "length bs \<le> mx - ?n"
          "\<And>i. i < length bs \<Longrightarrow> uread s root (PGROUNDDOWN va + PGSIZE + word_of_nat i) = Some (bs ! i)"
          "if r = 0 then bs \<noteq> [] \<and> last bs = 0 \<and> 0 \<notin> set (butlast bs)
           else r = -1 \<and> 0 \<notin> set bs \<and> (length bs = mx - ?n \<or>
             uread s root (PGROUNDDOWN va + PGSIZE + word_of_nat (length bs)) = None)"
          using 1(1) [OF False refl w pa refl c [symmetric] got 1(2)] by blast
        have sh: "PGROUNDDOWN va + PGSIZE + word_of_nat i = va + word_of_nat (?n + i)" if "?n < mx" for i
          using that page_next [of va] by (simp add: min_def split: if_splits)
        have "uread s root (va + word_of_nat i) = Some ((b0 @ bs) ! i)" if i: "i < length (b0 @ bs)" for i
        proof (cases "i < ?n")
          case True
          then show ?thesis using b0 [of i] n by (simp add: nth_append)
        next
          case ge: False
          then obtain j where j: "i = ?n + j" using le_Suc_ex not_less by metis
          then have "j < length bs" "?n < mx" using i IH(2) n by auto
          then show ?thesis using IH(3) [of j] sh [of j] n by (simp add: j nth_append)
        qed
        moreover have "copyinstr root va mx s = Ok (r, b0 @ bs)"
          using w False pa c IH(1) got by (subst copyinstr.simps) (simp add: Let_def)
        moreover have "length (b0 @ bs) \<le> mx" using IH(2) n by simp
        moreover have "if r = 0 then b0 @ bs \<noteq> [] \<and> last (b0 @ bs) = 0 \<and> 0 \<notin> set (butlast (b0 @ bs))
          else r = -1 \<and> 0 \<notin> set (b0 @ bs) \<and> (length (b0 @ bs) = mx \<or>
             uread s root (va + word_of_nat (length (b0 @ bs))) = None)"
        proof (cases "?n < mx")
          case True
          note a = sh [OF True, of "length bs"]
          show ?thesis
            using IH(2,4) n cs got True unfolding a
            by (auto simp: butlast_append simp del: of_nat_add split: if_splits)
        next
          case no: False
          then have "bs = []" "?n = mx" using IH(2) by auto
          then show ?thesis using IH(4) n cs got by (auto split: if_splits)
        qed
        ultimately show ?thesis by blast
      qed
    qed
  qed (simp add: copyinstr.simps)
qed

section \<open>copyout\<close>

lemma user_frames_cong:
  "(\<And>va. pte_of m root va = pte_of m' root va) \<Longrightarrow> user_frames m root = user_frames m' root"
  by (simp add: user_frames_def)

text \<open>\<open>user_write\<close>: only user frames of \<open>root\<close> were written; the address space stays well formed.\<close>

definition user_write :: "addr \<Rightarrow> 'z kmem_scheme \<Rightarrow> addr list \<Rightarrow> 'z kmem_scheme \<Rightarrow> bool" where
  "user_write root s xs s' \<longleftrightarrow> uspace s' root xs \<and> s' = s\<lparr>ram := ram s'\<rparr> \<and>
     (\<forall>va. pte_of (ram s') root va = pte_of (ram s) root va) \<and>
     pt_pages (ram s') root = pt_pages (ram s) root \<and>
     (\<forall>a. PGROUNDDOWN a \<notin> user_frames (ram s) root \<longrightarrow> ram s' a = ram s a)"

lemma user_write_refl: "uspace s root xs \<Longrightarrow> user_write root s xs s"
  by (simp add: user_write_def)

lemma user_write_trans:
  assumes "user_write root s xs s1" "user_write root s1 xs s2"
  shows "user_write root s xs s2"
proof -
  have eq: "user_frames (ram s1) root = user_frames (ram s) root"
    using assms(1) by (intro user_frames_cong) (simp add: user_write_def)
  have "s2 = s\<lparr>ram := ram s2\<rparr>"
    using assms by (metis user_write_def kmem.select_convs(1) kmem.surjective kmem.update_convs(1))
  with assms eq show ?thesis by (simp add: user_write_def)
qed

lemma user_write_ram:
  assumes sp: "uspace s root xs"
    and m: "\<And>a. PGROUNDDOWN a \<notin> user_frames (ram s) root \<Longrightarrow> m a = ram s a"
  shows "user_write root s xs (s\<lparr>ram := m\<rparr>)"
proof -
  have wf: "pt_wf s root xs" and fr: "\<And>f. f \<in> user_frames (ram s) root \<Longrightarrow> f \<notin> set xs \<and> f \<notin> pt_pages (ram s) root"
    using sp by (auto simp: uspace_def)
  have pt: "m a = ram s a" if "PGROUNDDOWN a \<in> pt_pages (ram s) root" for a
    using m fr that by blast
  have kinv: "kinv (s\<lparr>ram := m\<rparr>) xs"
    by (rule kinv_ram_update) (use wf m fr in \<open>auto simp: pt_wf_def\<close>)
  have pages: "pt_pages m root = pt_pages (ram s) root" by (rule pt_pages_frame [OF wf pt])
  have pte: "pte_of m root va = pte_of (ram s) root va" for va by (rule pte_of_frame [OF wf pt])
  have "pt_wf (s\<lparr>ram := m\<rparr>) root xs"
    by (rule pt_wf_transfer [OF wf kinv]) (use pt pt_wfD(2) [OF wf] in \<open>auto simp: pt_pages_def\<close>)
  moreover have "user_frames m root = user_frames (ram s) root" by (rule user_frames_cong [OF pte])
  moreover have rm: "ram (s\<lparr>ram := m\<rparr>) = m" by simp
  moreover have "page_ok (s\<lparr>ram := m\<rparr>) f = page_ok s f" for f by (simp add: page_ok_def)
  ultimately have "uspace (s\<lparr>ram := m\<rparr>) root xs"
    using sp unfolding uspace_def by (simp only: rm pte pages simp_thms, blast)
  with pages pte m show ?thesis by (simp add: user_write_def)
qed

lemma user_store:
  assumes sp: "uspace s root xs" and w: "walkaddr root (PGROUNDDOWN va) s = Ok pa" "pa \<noteq> 0"
    and n: "length bs \<le> unat (PGSIZE - (va - PGROUNDDOWN va))"
    and s': "s' = s\<lparr>ram := store_bytes (ram s) (pa + (va - PGROUNDDOWN va)) bs\<rparr>"
  shows "user_write root s xs s'"
    and "uread s' root v = (if unat (v - va) < length bs then Some (bs ! unat (v - va)) else uread s root v)"
proof -
  let ?p = "PGROUNDDOWN va" and ?off = "va - PGROUNDDOWN va"
  let ?e = "\<lambda>v. pte_of (ram s) root v"
  have wf: "pt_wf s root xs" using sp by (simp add: uspace_def)
  have e: "?p < MAXVA" "user_pte (?e ?p)" "pa = PTE2PA (?e ?p)"
    using w by (auto simp: walkaddr_eq [OF wf] user_pte_def split: if_splits)
  have uf: "pa \<in> user_frames (ram s) root" using user_framesI [OF e(1,2)] e(3) by simp
  have al: "page_aligned pa" using sp uf by (auto simp: uspace_def page_ok_def)
  have off: "unat ?off < 4096" using in_page_iff [OF PGROUNDDOWN_aligned, of va va] by simp
  have rest: "unat (PGSIZE - ?off) = 4096 - unat ?off"
    using off by (subst unat_sub) (simp_all add: PGSIZE_def word_le_nat_alt)
  have at: "store_bytes (ram s) (pa + ?off) bs a = ram s a" if "PGROUNDDOWN a \<noteq> pa" for a
  proof -
    have "\<not> unat (a - (pa + ?off)) < length bs"
    proof
      assume lt: "unat (a - (pa + ?off)) < length bs"
      have "unat (a - pa) = unat (?off + (a - (pa + ?off)))" by (simp add: algebra_simps)
      also have "\<dots> = unat ?off + unat (a - (pa + ?off))"
        using lt n rest off by (intro unat_add_small) simp
      finally show False using in_page_iff [OF al, of a] lt n rest off that by simp
    qed
    then show ?thesis by (simp add: store_bytes_def)
  qed
  show uw: "user_write root s xs s'"
    unfolding s' by (rule user_write_ram [OF sp]) (metis at uf)
  have pte: "pte_of (ram s') root v = ?e v" using uw by (simp add: user_write_def)
  show "uread s' root v = (if unat (v - va) < length bs then Some (bs ! unat (v - va)) else uread s root v)"
  proof (cases "unat (v - va) < length bs")
    case True
    then have v: "v = va + word_of_nat (unat (v - va))" by simp
    have lt: "unat (v - va) < unat (PGSIZE - ?off)" using True n by simp
    have pg: "PGROUNDDOWN v = ?p" using page_chunk [OF lt] v by simp
    then have M: "v < MAXVA" using e(1) MAXVA_PGROUNDDOWN [of v] by simp
    have ev: "?e v = ?e ?p" using M e(1) pg by (intro pte_of_same_page) simp_all
    have "pa + (v - ?p) - (pa + ?off) = v - va" by simp
    then have "ram s' (pa + (v - ?p)) = bs ! unat (v - va)"
      unfolding s' using True by (simp add: store_bytes_def)
    then show ?thesis using True M ev e pte pg by (simp add: uread_def user_pte_def)
  next
    case False
    have "ram s' (PTE2PA (?e v) + (v - PGROUNDDOWN v)) = ram s (PTE2PA (?e v) + (v - PGROUNDDOWN v))"
      if vM: "v < MAXVA" "user_pte (?e v)"
    proof (cases "PGROUNDDOWN v = ?p")
      case True
      then have "?e v = ?e ?p" using vM e(1) by (intro pte_of_same_page) simp_all
      moreover have "pa + (v - ?p) - (pa + ?off) = v - va" by simp
      ultimately show ?thesis using True False e(3) unfolding s' by (simp add: store_bytes_def)
    next
      case ne: False
      let ?f = "PTE2PA (?e v)"
      have "?f \<noteq> pa" using ne sp vM e unfolding uspace_def by (metis PGROUNDDOWN_id PGROUNDDOWN_aligned)
      moreover have "page_aligned ?f"
        using sp user_framesI [OF vM] by (auto simp: uspace_def page_ok_def)
      then have "PGROUNDDOWN (?f + (v - PGROUNDDOWN v)) = ?f"
        using in_page_iff [OF PGROUNDDOWN_aligned, of v v] by (intro PGROUNDDOWN_add) (simp_all add: word_less_nat_alt)
      ultimately show ?thesis unfolding s' using at by simp
    qed
    then show ?thesis using False pte by (auto simp: uread_def user_pte_def Let_def)
  qed
qed

lemma unat_diff_shift:
  assumes "n + k \<le> 2 ^ 64"
  shows "unat (d - word_of_nat n :: addr) < k \<longleftrightarrow> n \<le> unat d \<and> unat d < n + k"
    and "n \<le> unat d \<Longrightarrow> k \<noteq> 0 \<Longrightarrow> unat (d - word_of_nat n :: addr) = unat d - n"
proof -
  have n: "unat (word_of_nat n :: addr) = n" if "k \<noteq> 0"
    using assms that by (intro unat_word_of_nat_64) simp
  show 2: "unat (d - word_of_nat n :: addr) = unat d - n" if "n \<le> unat d" "k \<noteq> 0"
    using n that by (subst unat_sub) (simp_all add: word_le_nat_alt)
  show "unat (d - word_of_nat n :: addr) < k \<longleftrightarrow> n \<le> unat d \<and> unat d < n + k"
  proof (cases "k = 0")
    case False
    show ?thesis
    proof (cases "n \<le> unat d")
      case True
      with 2 False show ?thesis by auto
    next
      case lt: False
      then have "unat (d - word_of_nat n :: addr) = 2 ^ 64 + unat d - n"
        using n False by (simp add: unat_sub_if' word_le_nat_alt)
      with lt assms show ?thesis by simp
    qed
  qed simp
qed

lemma copyout_spec:
  assumes sp: "uspace s root xs" and len: "length src < 2 ^ 64"
  shows "\<exists>r k s'. copyout root va src s = Ok (r, s') \<and> k \<le> length src \<and> user_write root s xs s' \<and>
    (if k = length src then r = 0 else r = -1 \<and> uread s root (va + word_of_nat k) = None) \<and>
    (\<forall>v. uread s' root v = (if unat (v - va) < k then Some (src ! unat (v - va)) else uread s root v))"
  using sp len
proof (induction root va src s rule: copyout.induct)
  case (1 root va src s)
  show ?case
  proof (cases "src = []")
    case True
    with 1(2) show ?thesis
      by (intro exI [of _ 0] exI [of _ s]) (simp add: copyout.simps user_write_refl)
  next
    case False
    let ?p = "PGROUNDDOWN va" and ?r = "unat (PGSIZE - (va - PGROUNDDOWN va))"
    let ?n = "min ?r (length src)"
    obtain pa where w: "walkaddr root ?p s = Ok pa" using walkaddr_Ok [OF 1(2)] by blast
    show ?thesis
    proof (cases "pa = 0")
      case True
      then have "uread s root va = None" using uread_page [OF 1(2) _ w, of 0] page_rest(1) by simp
      moreover have "copyout root va src s = Ok (-1, s)"
        using w True False by (subst copyout.simps) simp
      ultimately show ?thesis using 1(2) False
        by (intro exI [of _ "-1"] exI [of _ 0] exI [of _ s]) (simp add: user_write_refl)
    next
      case pa: False
      let ?s1 = "s\<lparr>ram := store_bytes (ram s) (pa + (va - ?p)) (take ?n src)\<rparr>"
      have st: "user_write root s xs ?s1"
        "\<And>v. uread ?s1 root v = (if unat (v - va) < ?n then Some (src ! unat (v - va)) else uread s root v)"
        using user_store [OF 1(2) w pa _ refl, of "take ?n src"] by simp_all
      have sp1: "uspace ?s1 root xs" using st(1) by (simp add: user_write_def)
      obtain r k s' where IH: "copyout root (?p + PGSIZE) (drop ?n src) ?s1 = Ok (r, s')"
        "k \<le> length src - ?n" "user_write root ?s1 xs s'"
        "if k = length src - ?n then r = 0 else r = -1 \<and> uread ?s1 root (?p + PGSIZE + word_of_nat k) = None"
        "\<And>v. uread s' root v = (if unat (v - (?p + PGSIZE)) < k then Some (drop ?n src ! unat (v - (?p + PGSIZE)))
          else uread ?s1 root v)"
        using 1(1) [OF False refl w pa refl sp1] 1(3) by fastforce
      have sz: "?n + k \<le> 2 ^ 64" using IH(2) 1(3) by linarith
      have sh: "?p + PGSIZE = va + word_of_nat ?n" if "?n < length src"
        using that page_next [of va] by (simp add: min_def split: if_splits)
      have dist: "v - (?p + PGSIZE) = v - va - word_of_nat ?n" if "?n < length src" for v
        using sh [OF that] by (simp add: diff_diff_eq)
      have "uread s' root v = (if unat (v - va) < ?n + k then Some (src ! unat (v - va)) else uread s root v)" for v
      proof (cases "k = 0")
        case True
        then show ?thesis using IH(5) [of v] st(2) [of v] by simp
      next
        case k: False
        then have lt: "?n < length src" using IH(2) by linarith
        show ?thesis
          using IH(5) [of v] st(2) [of v] unat_diff_shift [OF sz, of "v - va"] k
          unfolding dist [OF lt] by auto
      qed
      moreover have "if ?n + k = length src then r = 0
        else r = -1 \<and> uread s root (va + word_of_nat (?n + k)) = None"
      proof (cases "?n + k = length src")
        case ne: False
        then have lt: "?n < length src" "k \<noteq> length src - ?n" using IH(2) by linarith+
        have a: "?p + PGSIZE + word_of_nat k = va + word_of_nat (?n + k)"
          unfolding sh [OF lt(1)] by (simp add: ac_simps)
        have "?n + k < 2 ^ 64" using IH(2) 1(3) ne by linarith
        then have "unat (va + word_of_nat (?n + k) - va) = ?n + k" by (simp add: unat_word_of_nat_64 del: of_nat_add)
        then have "uread ?s1 root (va + word_of_nat (?n + k)) = uread s root (va + word_of_nat (?n + k))"
          by (simp only: st(2) not_add_less1 if_False)
        with IH(4) lt ne a show ?thesis by (metis (no_types, lifting))
      qed (use IH(4) in auto)
      moreover have "copyout root va src s = Ok (r, s')"
        using w False pa IH(1) by (subst copyout.simps) (simp add: Let_def)
      moreover have "user_write root s xs s'" using st(1) IH(3) by (rule user_write_trans)
      moreover have "?n + k \<le> length src" using IH(2) by linarith
      ultimately show ?thesis by blast
    qed
  qed
qed

section \<open>An example address space\<close>

text \<open>One table of each level, each with its only entry in slot 0.\<close>

lemma pt_single:
  assumes kinv: "kinv s xs" and ok: "\<forall>t \<in> {root, t1, t0}. page_ok s t \<and> t \<notin> set xs"
    and ne: "distinct [root, t1, t0]"
    and e: "\<And>i. i < 512 \<Longrightarrow> child (ram s) root i = (if i = 0 then Some t1 else None)"
      "\<And>i. i < 512 \<Longrightarrow> child (ram s) t1 i = (if i = 0 then Some t0 else None)"
  shows "pt_wf s root xs" "pt_pages (ram s) root = {root, t1, t0}"
    "pte_of (ram s) root va = (if PX 2 va = 0 \<and> PX 1 va = 0 then ld64 (ram s) (t0 + 8 * PX 0 va) else 0)"
proof -
  have tbl: "tbl (ram s) root p = Some t \<longleftrightarrow>
      p = [] \<and> t = root \<or> p = [0] \<and> t = t1 \<or> p = [0, 0] \<and> t = t0" if "path p" for p t
  proof -
    from that consider "p = []" | i where "p = [i]" "i < 512" | i j where "p = [i, j]" "i < 512" "j < 512"
      by (auto simp: path_def length_Suc_conv le_Suc_eq numeral_2_eq_2)
    then show ?thesis by cases (auto simp: e)
  qed
  show "pt_wf s root xs"
    unfolding pt_wf_def using kinv ok ne tbl by auto
  show "pt_pages (ram s) root = {root, t1, t0}"
  proof -
    have "root \<in> pt_pages (ram s) root"
      unfolding pt_pages_def by (rule CollectI, rule exI [of _ "[]"]) simp
    moreover have "t1 \<in> pt_pages (ram s) root"
      unfolding pt_pages_def by (rule CollectI, rule exI [of _ "[0]"]) (simp add: e)
    moreover have "t0 \<in> pt_pages (ram s) root"
      unfolding pt_pages_def by (rule CollectI, rule exI [of _ "[0, 0]"]) (simp add: e)
    moreover have "pt_pages (ram s) root \<subseteq> {root, t1, t0}"
      unfolding pt_pages_def using tbl by auto
    ultimately show ?thesis by blast
  qed
  show "pte_of (ram s) root va = (if PX 2 va = 0 \<and> PX 1 va = 0 then ld64 (ram s) (t0 + 8 * PX 0 va) else 0)"
    using PX_less by (simp add: pte_of_def e)
qed

definition one_page :: kmem where
  "one_page = two_pages\<lparr>ram :=
     st64 (st64 (st64 (ram two_pages)
       0x80003000 (PA2PTE 0x80004000 OR PTE_V))
       0x80004000 (PA2PTE 0x80005000 OR PTE_V))
       0x80005000 (PA2PTE 0x80006000 OR (PTE_R OR PTE_W OR PTE_X OR PTE_U OR PTE_V))\<rparr>"

lemma two_pages_zero: "PGROUNDDOWN a \<noteq> 0x80001000 \<Longrightarrow> ram two_pages a = 0"
  using st64_outside [of "0x80001000" 0 a "\<lambda>_. 0" "0x80002000"]
  by (simp add: two_pages_def page_aligned_def PGSIZE_def)

lemma ld64_slot0:
  assumes "page_aligned t" "page_aligned t'" "i < 512"
  shows "ld64 (st64 m t v) (t' + 8 * i) = (if t = t' \<and> i = 0 then v else ld64 m (t' + 8 * i))"
  using ld64_st64_slot [of t t' 0 i m v] assms by auto

lemma one_page_entry:
  assumes "t \<in> {0x80003000, 0x80004000, 0x80005000}" "i < 512"
  shows "ld64 (ram one_page) (t + 8 * i) = (if i \<noteq> 0 then 0
    else if t = 0x80003000 then PA2PTE 0x80004000 OR PTE_V
    else if t = 0x80004000 then PA2PTE 0x80005000 OR PTE_V
    else PA2PTE 0x80006000 OR (PTE_R OR PTE_W OR PTE_X OR PTE_U OR PTE_V))"
proof -
  have al: "page_aligned 0x80003000" "page_aligned 0x80004000" "page_aligned 0x80005000" "page_aligned t"
    using assms(1) by (auto simp: page_aligned_def PGSIZE_def)
  have "ld64 (ram two_pages) (t + 8 * i) = 0"
    using assms by (intro ld64_zero_page al two_pages_zero) auto
  then show ?thesis
    using assms al by (auto simp: one_page_def ld64_slot0 ld64_slot0 [where i = 0, simplified])
qed

lemma one_page_PTE2PA:
  "PTE2PA (PA2PTE 0x80004000 OR PTE_V) = 0x80004000" "PTE2PA (PA2PTE 0x80005000 OR PTE_V) = 0x80005000"
  "PTE2PA (PA2PTE 0x80006000 OR (PTE_R OR PTE_W OR PTE_X OR PTE_U OR PTE_V)) = 0x80006000"
  by (rule PTE2PA_make(1); simp add: page_aligned_def PGSIZE_def PHYSTOP_def KERNBASE_def PTE_V_def
      PTE_R_def PTE_W_def PTE_X_def PTE_U_def)+

lemma one_page_flags:
  "(PA2PTE a OR PTE_V) AND PTE_V \<noteq> 0"
  "user_pte (PA2PTE a OR (PTE_R OR PTE_W OR PTE_X OR PTE_U OR PTE_V))"
  unfolding flag_bit user_pte_def
  by (simp_all add: bit_simps PTE_V_def PTE_R_def PTE_W_def PTE_X_def PTE_U_def)

lemma one_page_kinv: "kinv one_page [0x80001000, 0x80002000]"
proof -
  have "kinv (two_pages\<lparr>ram := ram one_page\<rparr>) [0x80001000, 0x80002000]"
  proof (rule kinv_ram_update [OF two_pages_kinv])
    fix a assume a: "PGROUNDDOWN a \<in> set [0x80001000, 0x80002000]"
    have o: "st64 m t v a = m a" if "t \<in> {0x80003000, 0x80004000, 0x80005000}" for m t v
      using st64_outside [of t 0 a m v] that a by (auto simp: page_aligned_def PGSIZE_def)
    show "ram one_page a = ram two_pages a" by (simp add: one_page_def o)
  qed
  then show ?thesis by (simp add: one_page_def)
qed

lemma PX_low: "va < 0x1000 \<Longrightarrow> PX l va = 0" if "l \<le> 2"
proof -
  assume "va < 0x1000"
  then have "take_bit 12 va = va"
    by (simp add: take_bit_eq_mod word_unat_eq_iff unat_mod_distrib word_less_nat_alt)
  then have b: "\<not> bit va n" if "12 \<le> n" for n using that by (metis bit_take_bit_iff leD)
  show ?thesis unfolding PX_def PXSHIFT_def
    by (rule bit_word_eqI) (use b in \<open>auto simp: bit_simps\<close>)
qed

lemma one_page_space:
  shows "uspace one_page 0x80003000 [0x80001000, 0x80002000]"
    and "va < 0x1000 \<Longrightarrow> uread one_page 0x80003000 va = Some 0"
proof -
  let ?r = "0x80003000 :: addr" and ?f = "0x80006000 :: addr"
  let ?e = "PA2PTE 0x80006000 OR (PTE_R OR PTE_W OR PTE_X OR PTE_U OR PTE_V)"
  have ok: "page_ok one_page t" "t \<notin> set [0x80001000, 0x80002000 :: addr]"
    if "t \<in> {0x80003000, 0x80004000, 0x80005000, 0x80006000}" for t
    using that by (auto simp: page_ok_def one_page_def two_pages_def page_aligned_def PGSIZE_def PHYSTOP_def KERNBASE_def)
  have ch: "child (ram one_page) ?r i = (if i = 0 then Some 0x80004000 else None)"
    "child (ram one_page) 0x80004000 i = (if i = 0 then Some 0x80005000 else None)" if "i < 512" for i
    using that one_page_entry [of ?r i] one_page_entry [of "0x80004000" i]
    by (auto simp: child_def one_page_PTE2PA) (simp_all add: PTE_V_def)
  note pt = pt_single [OF one_page_kinv, of ?r "0x80004000" "0x80005000"]
  have wf: "pt_wf one_page ?r [0x80001000, 0x80002000]"
    and pages: "pt_pages (ram one_page) ?r = {?r, 0x80004000, 0x80005000}"
    by (rule pt; use ok ch in auto)+
  have pte: "pte_of (ram one_page) ?r v =
      (if PX 2 v = 0 \<and> PX 1 v = 0 \<and> PX 0 v = 0 then ?e else 0)" for v
    using pt(3) [of v] ok ch one_page_entry [of "0x80005000" "PX 0 v"] PX_less by auto
  have nz: "\<not> user_pte 0" by (simp add: user_pte_def)
  have fr: "user_frames (ram one_page) ?r \<subseteq> {?f}"
    using nz by (auto simp: user_frames_def pte one_page_PTE2PA split: if_splits)
  have inj: "PGROUNDDOWN v = PGROUNDDOWN w" if "v < MAXVA" "w < MAXVA"
    "user_pte (pte_of (ram one_page) ?r v)" "user_pte (pte_of (ram one_page) ?r w)" for v w
    using that nz same_leaf_iff [of v w] by (auto simp: pte idx_0 split: if_splits)
  show "uspace one_page ?r [0x80001000, 0x80002000]"
    unfolding uspace_def
  proof (intro conjI ballI)
    fix f assume "f \<in> user_frames (ram one_page) ?r"
    then have "f = ?f" using fr by blast
    then show "page_ok one_page f" "f \<notin> set [0x80001000, 0x80002000]" "f \<notin> pt_pages (ram one_page) ?r"
      using ok [of ?f] pages by simp_all
  qed (use wf inj in blast)+
  assume "va < 0x1000"
  then have "va < MAXVA" "PX 2 va = 0" "PX 1 va = 0" "PX 0 va = 0" "PGROUNDDOWN va = 0"
    using PX_low [of _ va] in_page_iff [of 0 va]
    by (auto simp: MAXVA_def word_less_nat_alt page_aligned_def)
  moreover have "ram one_page (?f + va) = 0"
  proof -
    have p: "PGROUNDDOWN (?f + va) = ?f"
      using \<open>va < 0x1000\<close> by (intro PGROUNDDOWN_add) (simp_all add: page_aligned_def PGSIZE_def)
    have "st64 m t v (?f + va) = m (?f + va)" if "t \<in> {0x80003000, 0x80004000, 0x80005000}" for m t v
      using st64_outside [of t 0 "?f + va" m v] that p by (auto simp: page_aligned_def PGSIZE_def)
    then show ?thesis using two_pages_zero [of "?f + va"] p by (simp add: one_page_def)
  qed
  ultimately show "uread one_page ?r va = Some 0"
    using one_page_flags(2) by (simp add: uread_def pte one_page_PTE2PA user_pte_def)
qed

section \<open>Properties\<close>

text \<open>
  C7. \<^verbatim>\<open>copyout\<close> into a well-formed address space writes only frames of user pages of that space.
  If it returns 0, a \<^verbatim>\<open>copyin\<close> of the same range returns the bytes written, and every other
  user address reads as before; if it returns -1, some address of the range has no user
  page. It never panics.
\<close>

theorem copyout_then_copyin:
  assumes "uspace s root xs" "length src < 2 ^ 64"
  shows "\<exists>r s'. copyout root va src s = Ok (r, s') \<and> uspace s' root xs \<and>
    (\<forall>a. PGROUNDDOWN a \<notin> user_frames (ram s) root \<longrightarrow> ram s' a = ram s a) \<and>
    (\<forall>v. length src \<le> unat (v - va) \<longrightarrow> uread s' root v = uread s root v) \<and>
    (if r = 0 then copyin root va (length src) s' = Ok (0, src)
     else r = -1 \<and> (\<exists>i<length src. uread s root (va + word_of_nat i) = None))"
proof -
  obtain r k s' where c: "copyout root va src s = Ok (r, s')" "k \<le> length src" "user_write root s xs s'"
    "if k = length src then r = 0 else r = -1 \<and> uread s root (va + word_of_nat k) = None"
    "\<And>v. uread s' root v = (if unat (v - va) < k then Some (src ! unat (v - va)) else uread s root v)"
    using copyout_spec [OF assms] by blast
  have sp: "uspace s' root xs" using c(3) by (simp add: user_write_def)
  have "copyin root va (length src) s' = Ok (0, src)" if "k = length src"
  proof -
    obtain r' bs where i: "copyin root va (length src) s' = Ok (r', bs)" "length bs \<le> length src"
      "\<And>i. i < length bs \<Longrightarrow> uread s' root (va + word_of_nat i) = Some (bs ! i)"
      "if length bs = length src then r' = 0
       else r' = -1 \<and> uread s' root (va + word_of_nat (length bs)) = None"
      using copyin_spec [OF sp, of va "length src"] by blast
    have rd: "uread s' root (va + word_of_nat i) = Some (src ! i)" if "i < length src" for i
      using c(5) [of "va + word_of_nat i"] that assms(2) \<open>k = length src\<close>
      by (simp add: unat_word_of_nat_64)
    have "length bs = length src" using i(2,4) rd [of "length bs"] by (auto split: if_splits)
    moreover from this have "bs = src" using i(3) rd by (intro nth_equalityI) auto
    ultimately show ?thesis using i(1,4) by simp
  qed
  with c sp show ?thesis
    by (intro exI [of _ r] exI [of _ s']) (auto simp: user_write_def intro!: exI [of _ k] split: if_splits)
qed

theorem copyout_then_copyin_witness:
  "\<exists>s'. copyout 0x80003000 0xFFE [1, 2] one_page = Ok (0, s') \<and>
     copyin 0x80003000 0xFFE 2 s' = Ok (0, [1, 2])"
proof -
  have v: "uread one_page 0x80003000 (0xFFE + word_of_nat i) \<noteq> None" if "i < 2" for i
    using one_page_space(2) [of "0xFFE + word_of_nat i"] that by (auto simp: less_2_cases_iff)
  have len: "length [1, 2 :: uchar] = 2" "length [1, 2 :: uchar] < 2 ^ 64" by simp_all
  obtain r s' where "copyout 0x80003000 0xFFE [1, 2] one_page = Ok (r, s')"
    "if r = 0 then copyin 0x80003000 0xFFE 2 s' = Ok (0, [1, 2])
     else r = -1 \<and> (\<exists>i<2. uread one_page 0x80003000 (0xFFE + word_of_nat i) = None)"
    using copyout_then_copyin [OF one_page_space(1) len(2), of "0xFFE"] unfolding len(1) by blast
  with v show ?thesis by (metis (no_types))
qed

text \<open>
  C17. \<^verbatim>\<open>copyinstr\<close> never panics and never copies more than \<^verbatim>\<open>max\<close> bytes: it returns 0 exactly when it
  met a NUL, and then has stored the user's string up to and including that first NUL; it
  returns -1 when the first \<^verbatim>\<open>max\<close> bytes hold no NUL or when a byte before the first NUL has
  no user page.
\<close>

theorem copyinstr_copies_string:
  assumes "uspace s root xs"
  shows "\<exists>r bs. copyinstr root va mx s = Ok (r, bs) \<and> length bs \<le> mx \<and>
    (\<forall>i<length bs. uread s root (va + word_of_nat i) = Some (bs ! i)) \<and>
    (if r = 0 then bs \<noteq> [] \<and> last bs = 0 \<and> 0 \<notin> set (butlast bs)
     else r = -1 \<and> 0 \<notin> set bs \<and> (length bs = mx \<or> uread s root (va + word_of_nat (length bs)) = None))"
  using copyinstr_spec [OF assms] .

theorem copyinstr_copies_string_witness:
  "copyinstr 0x80003000 0x10 128 one_page = Ok (0, [0])"
proof -
  have z: "uread one_page 0x80003000 (0x10 + word_of_nat 0) = Some 0"
    using one_page_space(2) [of "0x10"] by simp
  obtain r bs where c: "copyinstr 0x80003000 0x10 128 one_page = Ok (r, bs)"
    "\<forall>i<length bs. uread one_page 0x80003000 (0x10 + word_of_nat i) = Some (bs ! i)"
    "if r = 0 then bs \<noteq> [] \<and> last bs = 0 \<and> 0 \<notin> set (butlast bs)
     else r = -1 \<and> 0 \<notin> set bs \<and>
       (length bs = 128 \<or> uread one_page 0x80003000 (0x10 + word_of_nat (length bs)) = None)"
    using copyinstr_copies_string [OF one_page_space(1), of "0x10" 128] by blast
  show ?thesis
  proof (cases bs)
    case Nil
    with c(3) z show ?thesis by (auto split: if_splits)
  next
    case (Cons b bs')
    then have "b = 0" using c(2) z by force
    with c Cons show ?thesis by (cases bs') (auto split: if_splits)
  qed
qed

end
