(* ===== verification/ProcData.thy ===== *)
theory ProcData
  imports UserMem
begin

text \<open>
  The process table of \<^verbatim>\<open>kernel/proc.h\<close> and the operations that only touch it: \<^verbatim>\<open>sleep\<close> and
  \<^verbatim>\<open>wakeup\<close>, the page records of the paging extension, and copying between the kernel and the
  current process. A \<^verbatim>\<open>struct proc *\<close> is the index of the entry; the state field \<open>cur\<close> is the
  process on whose behalf the kernel runs (\<^verbatim>\<open>myproc()\<close>). Pointers to open files and inodes are
  indices into \<^verbatim>\<open>ftable\<close> and \<^verbatim>\<open>itable\<close>. A spinlock-protected section is one atomic step, so the
  spinlocks themselves are left out of the tables; they have a theory of their own.
\<close>

section \<open>Data\<close>

definition NPROC :: nat where "NPROC = 64"
definition NOFILE :: nat where "NOFILE = 16"
definition MAX_PSYC_PAGES :: nat where "MAX_PSYC_PAGES = 16"
definition MAX_TOTAL_PAGES :: nat where "MAX_TOTAL_PAGES = 32"

datatype procstate = UNUSED | USED | SLEEPING | RUNNABLE | RUNNING | ZOMBIE

text \<open>\<open>ctx_s\<close> are the callee-saved registers \<^verbatim>\<open>s0\<close> to \<^verbatim>\<open>s11\<close>.\<close>

record kcontext =
  ctx_ra :: uint64
  ctx_sp :: uint64
  ctx_s :: "uint64 list"

record page_data =
  pg_offset :: uint32
  pg_used :: bool
  pg_va :: uint32
  pg_age :: uint32
  pg_fifo_time :: uint32

record kproc =
  p_state :: procstate
  p_chan :: "chan option"
  p_killed :: bool
  p_xstate :: uint32
  p_pid :: int
  p_parent :: "nat option"
  p_kstack :: uint64
  p_sz :: uint64
  p_pagetable :: addr
  p_trapframe :: addr
  p_context :: kcontext
  p_ofile :: "nat option list"
  p_cwd :: "nat option"
  p_name :: "uchar list"
  p_swapFile :: "nat option"
  p_ram :: "page_data list"
  p_swap :: "page_data list"
  p_fifo_counter :: uint32

record kprocs = kmem +
  procs :: "kproc list"
  cur :: nat
  nextpid :: int
  initproc :: "nat option"
  kforkret :: addr

definition myproc :: "'z kprocs_scheme \<Rightarrow> kproc" where
  "myproc s = procs s ! cur s"

definition upd_proc :: "nat \<Rightarrow> (kproc \<Rightarrow> kproc) \<Rightarrow> 'z kprocs_scheme \<Rightarrow> 'z kprocs_scheme" where
  "upd_proc i f s = s\<lparr>procs := (procs s)[i := f (procs s ! i)]\<rparr>"

section \<open>Sleeping and waking\<close>

text \<open>
  \<^verbatim>\<open>sleep\<close> up to its call of \<^verbatim>\<open>sched\<close>: the process is off the CPU until a \<^verbatim>\<open>wakeup\<close> on the
  channel. What follows when it runs again, \<^verbatim>\<open>p->chan = 0\<close>, is \<open>sleep_return\<close>.
\<close>

definition sleep_enter :: "chan \<Rightarrow> 'z kprocs_scheme \<Rightarrow> 'z kprocs_scheme" where
  "sleep_enter c s = upd_proc (cur s) (\<lambda>p. p\<lparr>p_chan := Some c, p_state := SLEEPING\<rparr>) s"

definition sleep_return :: "'z kprocs_scheme \<Rightarrow> 'z kprocs_scheme" where
  "sleep_return s = upd_proc (cur s) (\<lambda>p. p\<lparr>p_chan := None\<rparr>) s"

definition wakeup_procs :: "nat \<Rightarrow> chan \<Rightarrow> kproc list \<Rightarrow> kproc list" where
  "wakeup_procs me c ps =
     map (\<lambda>(i, p). if i \<noteq> me \<and> p_state p = SLEEPING \<and> p_chan p = Some c
                   then p\<lparr>p_state := RUNNABLE\<rparr> else p) (List.enumerate 0 ps)"

definition wakeup :: "chan \<Rightarrow> 'z kprocs_scheme \<Rightarrow> 'z kprocs_scheme" where
  "wakeup c s = s\<lparr>procs := wakeup_procs (cur s) c (procs s)\<rparr>"

text \<open>The loop of \<^verbatim>\<open>kill\<close> over the process table.\<close>

fun kill_from :: "int \<Rightarrow> kproc list \<Rightarrow> kproc list \<times> int" where
  "kill_from pid [] = ([], -1)"
| "kill_from pid (p # ps) =
     (if p_pid p = pid
      then (p\<lparr>p_killed := True, p_state := if p_state p = SLEEPING then RUNNABLE else p_state p\<rparr> # ps, 0)
      else case kill_from pid ps of (ps', r) \<Rightarrow> (p # ps', r))"

definition kill :: "int \<Rightarrow> 'z kprocs_scheme \<Rightarrow> int \<times> 'z kprocs_scheme" where
  "kill pid s = (case kill_from pid (procs s) of (ps, r) \<Rightarrow> (r, s\<lparr>procs := ps\<rparr>))"

lemma length_wakeup_procs [simp]: "length (wakeup_procs me c ps) = length ps"
  by (simp add: wakeup_procs_def)

lemma nth_wakeup_procs:
  "i < length ps \<Longrightarrow> wakeup_procs me c ps ! i =
     (if i \<noteq> me \<and> p_state (ps ! i) = SLEEPING \<and> p_chan (ps ! i) = Some c
      then (ps ! i)\<lparr>p_state := RUNNABLE\<rparr> else ps ! i)"
  by (simp add: wakeup_procs_def nth_enumerate_eq)

lemma wakeup_procs_me [simp]: "me < length ps \<Longrightarrow> wakeup_procs me c ps ! me = ps ! me"
  by (simp add: nth_wakeup_procs)

section \<open>Page records\<close>

definition remove_page :: "page_data \<Rightarrow> page_data" where
  "remove_page pd = pd\<lparr>pg_used := False, pg_age := 0, pg_offset := -1, pg_va := -1, pg_fifo_time := 0\<rparr>"

text \<open>\<^verbatim>\<open>count_pages\<close> without its debugging output.\<close>

definition count_pages :: "page_data list \<Rightarrow> nat" where
  "count_pages pds = length (filter pg_used pds)"

section \<open>Copying to and from the current process\<close>

text \<open>
  The two address arguments of the \<^verbatim>\<open>either_copy\<close> routines become one: a user virtual address,
  a kernel address in physical memory, or a local buffer of the calling kernel routine
  (with its contents, when it is the source).
\<close>

datatype place = User uint64 | Kernel addr | Local "uchar list"

fun place_add :: "place \<Rightarrow> nat \<Rightarrow> place" where
  "place_add (User va) n = User (va + word_of_nat n)"
| "place_add (Kernel a) n = Kernel (a + word_of_nat n)"
| "place_add (Local bs) n = Local (drop n bs)"

fun either_copyout :: "place \<Rightarrow> uchar list \<Rightarrow> 'z kprocs_scheme \<Rightarrow> (int \<times> 'z kprocs_scheme) res" where
  "either_copyout (User va) src s = copyout (p_pagetable (myproc s)) va src s"
| "either_copyout (Kernel a) src s = Ok (0, s\<lparr>ram := store_bytes (ram s) a src\<rparr>)"
| "either_copyout (Local _) src s = Ok (0, s)"

fun either_copyin :: "place \<Rightarrow> nat \<Rightarrow> 'z kprocs_scheme \<Rightarrow> (int \<times> uchar list) res" where
  "either_copyin (User va) len s = copyin (p_pagetable (myproc s)) va len s"
| "either_copyin (Kernel a) len s = Ok (0, load_bytes (ram s) a len)"
| "either_copyin (Local bs) len s = Ok (0, take len bs)"

end
