(* ===== verification/Block.thy ===== *)
theory Block
  imports ProcData
begin

text \<open>
  Disk blocks as arrays of bytes and the little-endian fields of the on-disk structures
  (\<^verbatim>\<open>struct superblock\<close>, \<^verbatim>\<open>struct dinode\<close>, \<^verbatim>\<open>struct dirent\<close> of \<^verbatim>\<open>kernel/fs.h\<close>), with the sleep-locks
  of \<^verbatim>\<open>kernel/sleeplock.c\<close> that buffers and inodes carry.
\<close>

section \<open>Blocks\<close>

definition BSIZE :: nat where "BSIZE = 1024"

text \<open>The bytes of a block by index; only the indices below \<^const>\<open>BSIZE\<close> are used.\<close>

type_synonym block = "nat \<Rightarrow> uchar"

definition rd16 :: "block \<Rightarrow> nat \<Rightarrow> ushort" where
  "rd16 d o' = ucast (d o') OR push_bit 8 (ucast (d (o' + 1)))"

definition wr16 :: "block \<Rightarrow> nat \<Rightarrow> ushort \<Rightarrow> block" where
  "wr16 d o' v = d(o' := ucast v, o' + 1 := ucast (drop_bit 8 v))"

definition rd32 :: "block \<Rightarrow> nat \<Rightarrow> uint32" where
  "rd32 d o' = ucast (d o') OR push_bit 8 (ucast (d (o' + 1))) OR
     push_bit 16 (ucast (d (o' + 2))) OR push_bit 24 (ucast (d (o' + 3)))"

definition wr32 :: "block \<Rightarrow> nat \<Rightarrow> uint32 \<Rightarrow> block" where
  "wr32 d o' v = d(o' := ucast v, o' + 1 := ucast (drop_bit 8 v),
     o' + 2 := ucast (drop_bit 16 v), o' + 3 := ucast (drop_bit 24 v))"

definition slice :: "block \<Rightarrow> nat \<Rightarrow> nat \<Rightarrow> uchar list" where
  "slice d o' n = map (\<lambda>i. d (o' + i)) [0..<n]"

definition splice :: "block \<Rightarrow> nat \<Rightarrow> uchar list \<Rightarrow> block" where
  "splice d o' bs = (\<lambda>i. if o' \<le> i \<and> i < o' + length bs then bs ! (i - o') else d i)"

lemma rd16_wr16 [simp]: "rd16 (wr16 d k v) k = v"
  by (rule bit_word_eqI) (auto simp: rd16_def wr16_def bit_simps)

lemma rd32_wr32 [simp]: "rd32 (wr32 d k v) k = v"
proof (rule bit_word_eqI)
  fix n assume "n < LENGTH(32)"
  then consider "n < 8" | "8 \<le> n" "n < 16" | "16 \<le> n" "n < 24" | "24 \<le> n" "n < 32" by force
  then show "bit (rd32 (wr32 d k v) k) n = bit v n"
    by cases (auto simp: rd32_def wr32_def bit_simps)
qed

lemma rd16_wr16_other: "j + 2 \<le> k \<or> k + 2 \<le> j \<Longrightarrow> rd16 (wr16 d k v) j = rd16 d j"
  by (auto simp: rd16_def wr16_def)

lemma rd32_wr32_other: "j + 4 \<le> k \<or> k + 4 \<le> j \<Longrightarrow> rd32 (wr32 d k v) j = rd32 d j"
  by (auto simp: rd32_def wr32_def)

lemma rd16_wr32_other: "j + 2 \<le> k \<or> k + 4 \<le> j \<Longrightarrow> rd16 (wr32 d k v) j = rd16 d j"
  by (auto simp: rd16_def wr32_def)

lemma rd32_wr16_other: "j + 4 \<le> k \<or> k + 2 \<le> j \<Longrightarrow> rd32 (wr16 d k v) j = rd32 d j"
  by (auto simp: rd32_def wr16_def)

lemma length_slice [simp]: "length (slice d k n) = n"
  by (simp add: slice_def)

lemma nth_slice [simp]: "i < n \<Longrightarrow> slice d k n ! i = d (k + i)"
  by (simp add: slice_def)

lemma slice_splice [simp]: "length bs = n \<Longrightarrow> slice (splice d k bs) k n = bs"
  by (intro nth_equalityI) (auto simp: splice_def)

lemma splice_slice [simp]: "splice d k (slice d k n) = d"
  by (auto simp: splice_def fun_eq_iff)

section \<open>Sleep-locks\<close>

record sleeplock =
  sl_locked :: bool
  sl_pid :: int

definition initsleeplock :: sleeplock where
  "initsleeplock = \<lparr>sl_locked = False, sl_pid = 0\<rparr>"

text \<open>A held lock puts the caller to sleep on the lock's channel.\<close>

definition acquiresleep :: "chan \<Rightarrow> sleeplock \<Rightarrow> int \<Rightarrow> sleeplock res" where
  "acquiresleep c lk pid = (if sl_locked lk then Sleep c else Ok (lk\<lparr>sl_locked := True, sl_pid := pid\<rparr>))"

text \<open>The lock's fields after \<^verbatim>\<open>releasesleep\<close>; its caller also performs the \<^verbatim>\<open>wakeup\<close>.\<close>

definition releasesleep :: "sleeplock \<Rightarrow> sleeplock" where
  "releasesleep lk = lk\<lparr>sl_locked := False, sl_pid := 0\<rparr>"

definition holdingsleep :: "sleeplock \<Rightarrow> int \<Rightarrow> bool" where
  "holdingsleep lk pid \<longleftrightarrow> sl_locked lk \<and> sl_pid lk = pid"

end
