(* ===== verification/Bio.thy ===== *)
theory Bio
  imports Block
begin

text \<open>
  The buffer cache of \<^verbatim>\<open>kernel/bio.c\<close>: \<open>NBUF\<close> buffers on a doubly linked list in order of use,
  whose head is the extra entry \<open>NBUF\<close> of the buffer table. The state has the disk as the
  contents of its blocks and, as a history variable, the sequence of block writes; a crash
  leaves the disk as some prefix of that sequence made it. The links are shown to hold the
  buffers in order of use, and the scans of \<^verbatim>\<open>bget\<close> to be searches in that order.
\<close>

section \<open>State\<close>

definition NBUF :: nat where "NBUF = 30"
definition ROOTDEV :: uint32 where "ROOTDEV = 1"

record buf =
  b_valid :: bool
  b_dev :: uint32
  b_blockno :: uint32
  b_lock :: sleeplock
  b_refcnt :: uint32
  b_prev :: nat
  b_next :: nat
  b_data :: block

record kbio = kprocs +
  bufs :: "buf list"
  disk :: "uint32 \<Rightarrow> block"
  dwrites :: "(uint32 \<times> block) list"

definition upd_buf :: "nat \<Rightarrow> (buf \<Rightarrow> buf) \<Rightarrow> 'z kbio_scheme \<Rightarrow> 'z kbio_scheme" where
  "upd_buf i f s = s\<lparr>bufs := (bufs s)[i := f (bufs s ! i)]\<rparr>"

definition me :: "'z kprocs_scheme \<Rightarrow> int" where
  "me s = p_pid (myproc s)"

section \<open>Operations\<close>

text \<open>The statements that put buffer \<open>b\<close> right behind the head.\<close>

definition link_front :: "nat \<Rightarrow> buf list \<Rightarrow> buf list" where
  "link_front b bs =
     (let bs = bs[b := (bs ! b)\<lparr>b_next := b_next (bs ! NBUF), b_prev := NBUF\<rparr>];
          f = b_next (bs ! NBUF);
          bs = bs[f := (bs ! f)\<lparr>b_prev := b\<rparr>]
      in bs[NBUF := (bs ! NBUF)\<lparr>b_next := b\<rparr>])"

definition unlink :: "nat \<Rightarrow> buf list \<Rightarrow> buf list" where
  "unlink b bs =
     (let n = b_next (bs ! b);
          bs = bs[n := (bs ! n)\<lparr>b_prev := b_prev (bs ! b)\<rparr>];
          p = b_prev (bs ! b)
      in bs[p := (bs ! p)\<lparr>b_next := b_next (bs ! b)\<rparr>])"

definition binit :: "'z kbio_scheme \<Rightarrow> 'z kbio_scheme" where
  "binit s =
     (let bs = bufs s;
          bs = bs[NBUF := (bs ! NBUF)\<lparr>b_prev := NBUF, b_next := NBUF\<rparr>]
      in s\<lparr>bufs := fold (\<lambda>b bs. link_front b (bs[b := (bs ! b)\<lparr>b_lock := initsleeplock\<rparr>])) [0..<NBUF] bs\<rparr>)"

text \<open>
  The two scans of \<^verbatim>\<open>bget\<close>. The list has at most \<^const>\<open>NBUF\<close> entries, so that much fuel is enough;
  running out of it means the links form a cycle that misses the head.
\<close>

fun scan_next :: "nat \<Rightarrow> (buf \<Rightarrow> bool) \<Rightarrow> buf list \<Rightarrow> nat \<Rightarrow> nat option res" where
  "scan_next 0 P bs b = (if b = NBUF then Ok None else Spin)"
| "scan_next (Suc k) P bs b =
     (if b = NBUF then Ok None else if P (bs ! b) then Ok (Some b)
      else scan_next k P bs (b_next (bs ! b)))"

fun scan_prev :: "nat \<Rightarrow> (buf \<Rightarrow> bool) \<Rightarrow> buf list \<Rightarrow> nat \<Rightarrow> nat option res" where
  "scan_prev 0 P bs b = (if b = NBUF then Ok None else Spin)"
| "scan_prev (Suc k) P bs b =
     (if b = NBUF then Ok None else if P (bs ! b) then Ok (Some b)
      else scan_prev k P bs (b_prev (bs ! b)))"

definition lock_buf :: "nat \<Rightarrow> 'z kbio_scheme \<Rightarrow> (nat \<times> 'z kbio_scheme) res" where
  "lock_buf b s =
     and_then (acquiresleep (Chan_buf b) (b_lock (bufs s ! b)) (me s)) (\<lambda>lk.
       Ok (b, upd_buf b (\<lambda>x. x\<lparr>b_lock := lk\<rparr>) s))"

definition bget :: "uint32 \<Rightarrow> uint32 \<Rightarrow> 'z kbio_scheme \<Rightarrow> (nat \<times> 'z kbio_scheme) res" where
  "bget dev blockno s =
     and_then (scan_next NBUF (\<lambda>b. b_dev b = dev \<and> b_blockno b = blockno) (bufs s) (b_next (bufs s ! NBUF))) (\<lambda>r.
       case r of
         Some b \<Rightarrow> lock_buf b (upd_buf b (\<lambda>x. x\<lparr>b_refcnt := b_refcnt x + 1\<rparr>) s)
       | None \<Rightarrow>
           and_then (scan_prev NBUF (\<lambda>b. b_refcnt b = 0) (bufs s) (b_prev (bufs s ! NBUF))) (\<lambda>r.
             case r of
               Some b \<Rightarrow> lock_buf b (upd_buf b (\<lambda>x. x\<lparr>b_dev := dev, b_blockno := blockno,
                                                     b_valid := False, b_refcnt := 1\<rparr>) s)
             | None \<Rightarrow> Panic ''bget: no buffers''))"

text \<open>What \<^verbatim>\<open>virtio_disk_rw\<close> does for its caller: one block moves between buffer and disk.\<close>

definition virtio_disk_rw :: "nat \<Rightarrow> bool \<Rightarrow> 'z kbio_scheme \<Rightarrow> 'z kbio_scheme" where
  "virtio_disk_rw b write s =
     (if write
      then s\<lparr>disk := (disk s)(b_blockno (bufs s ! b) := b_data (bufs s ! b)),
             dwrites := dwrites s @ [(b_blockno (bufs s ! b), b_data (bufs s ! b))]\<rparr>
      else upd_buf b (\<lambda>x. x\<lparr>b_data := disk s (b_blockno x)\<rparr>) s)"

definition bread :: "uint32 \<Rightarrow> uint32 \<Rightarrow> 'z kbio_scheme \<Rightarrow> (nat \<times> 'z kbio_scheme) res" where
  "bread dev blockno s =
     and_then (bget dev blockno s) (\<lambda>(b, s).
       if b_valid (bufs s ! b) then Ok (b, s)
       else Ok (b, upd_buf b (\<lambda>x. x\<lparr>b_valid := True\<rparr>) (virtio_disk_rw b False s)))"

definition bwrite :: "nat \<Rightarrow> 'z kbio_scheme \<Rightarrow> 'z kbio_scheme res" where
  "bwrite b s =
     (if \<not> holdingsleep (b_lock (bufs s ! b)) (me s) then Panic ''bwrite''
      else Ok (virtio_disk_rw b True s))"

definition brelse :: "nat \<Rightarrow> 'z kbio_scheme \<Rightarrow> 'z kbio_scheme res" where
  "brelse b s =
     (if \<not> holdingsleep (b_lock (bufs s ! b)) (me s) then Panic ''brelse''
      else let s = wakeup (Chan_buf b) (upd_buf b (\<lambda>x. x\<lparr>b_lock := releasesleep (b_lock x)\<rparr>) s);
               s = upd_buf b (\<lambda>x. x\<lparr>b_refcnt := b_refcnt x - 1\<rparr>) s
           in Ok (if b_refcnt (bufs s ! b) = 0 then s\<lparr>bufs := link_front b (unlink b (bufs s))\<rparr> else s))"

definition bpin :: "nat \<Rightarrow> 'z kbio_scheme \<Rightarrow> 'z kbio_scheme" where
  "bpin b s = upd_buf b (\<lambda>x. x\<lparr>b_refcnt := b_refcnt x + 1\<rparr>) s"

definition bunpin :: "nat \<Rightarrow> 'z kbio_scheme \<Rightarrow> 'z kbio_scheme" where
  "bunpin b s = upd_buf b (\<lambda>x. x\<lparr>b_refcnt := b_refcnt x - 1\<rparr>) s"

section \<open>The list of buffers\<close>

text \<open>\<open>linked nx pv a xs z\<close>: the links lead from \<open>a\<close> through \<open>xs\<close> to \<open>z\<close>, and back.\<close>

fun linked :: "(nat \<Rightarrow> nat) \<Rightarrow> (nat \<Rightarrow> nat) \<Rightarrow> nat \<Rightarrow> nat list \<Rightarrow> nat \<Rightarrow> bool" where
  "linked nx pv a [] z \<longleftrightarrow> nx a = z \<and> pv z = a"
| "linked nx pv a (x # xs) z \<longleftrightarrow> nx a = x \<and> pv x = a \<and> linked nx pv x xs z"

lemma linked_append:
  "linked nx pv a (xs @ y # ys) z \<longleftrightarrow> linked nx pv a xs y \<and> linked nx pv y ys z"
  by (induction xs arbitrary: a) auto

lemma linked_cong:
  assumes "\<And>x. x \<in> insert a (set xs) \<Longrightarrow> nx' x = nx x" "\<And>x. x \<in> insert z (set xs) \<Longrightarrow> pv' x = pv x"
  shows "linked nx' pv' a xs z \<longleftrightarrow> linked nx pv a xs z"
  using assms
proof (induction xs arbitrary: a)
  case (Cons x xs)
  have "linked nx' pv' x xs z \<longleftrightarrow> linked nx pv x xs z" using Cons.prems by (intro Cons.IH) auto
  then show ?case using Cons.prems by auto
qed auto

lemma linked_ends: "linked nx pv a xs z \<Longrightarrow> nx a = hd (xs @ [z]) \<and> pv z = last (a # xs)"
  by (induction xs arbitrary: a) auto

lemma linked_remove:
  assumes "linked nx pv a us b" "linked nx pv b vs z" "distinct (us @ b # vs)"
    "a \<notin> set (us @ b # vs)" "z \<notin> set (us @ b # vs)"
  shows "linked (nx(pv b := nx b)) (pv(nx b := pv b)) a (us @ vs) z"
  using assms
proof (induction us arbitrary: a)
  case Nil
  then show ?case
  proof (cases vs)
    case (Cons v vs')
    have "linked (nx(pv b := nx b)) (pv(nx b := pv b)) v vs' z \<longleftrightarrow> linked nx pv v vs' z"
      using Nil Cons by (intro linked_cong) auto
    then show ?thesis using Nil Cons by (auto simp del: fun_upd_apply simp add: fun_upd_same)
  qed auto
next
  case (Cons u us)
  have ih: "linked (nx(pv b := nx b)) (pv(nx b := pv b)) u (us @ vs) z"
    using Cons.prems by (intro Cons.IH) auto
  have "pv b \<noteq> a" using linked_ends [of nx pv u us b] Cons.prems last_in_set [of "u # us"] by fastforce
  moreover have "nx b \<noteq> u" using linked_ends [of nx pv b vs z] Cons.prems hd_in_set [of "vs @ [z]"] by auto
  ultimately show ?case using ih Cons.prems by (auto simp del: fun_upd_apply simp add: fun_upd_same fun_upd_other)
qed

lemma linked_insert:
  assumes "linked nx pv h xs h" "distinct (b # h # xs)"
  shows "linked (nx(b := nx h, h := b)) (pv(b := h, nx h := b)) h (b # xs) h"
proof (cases xs)
  case (Cons x xs')
  have "linked (nx(b := nx h, h := b)) (pv(b := h, nx h := b)) x xs' h \<longleftrightarrow> linked nx pv x xs' h"
    using assms Cons by (intro linked_cong) auto
  then show ?thesis using assms Cons by auto
qed (use assms in auto)

text \<open>The buffers on the list from most to least recently used.\<close>

definition lru :: "buf list \<Rightarrow> nat list \<Rightarrow> bool" where
  "lru bs xs \<longleftrightarrow> length bs = Suc NBUF \<and> distinct xs \<and> set xs = {..<NBUF} \<and>
     linked (\<lambda>i. b_next (bs ! i)) (\<lambda>i. b_prev (bs ! i)) NBUF xs NBUF"

lemma linked_range:
  "linked nx pv a xs z \<Longrightarrow> x \<in> insert a (set xs) \<Longrightarrow> nx x \<in> insert z (set xs)"
  "linked nx pv a xs z \<Longrightarrow> x \<in> insert z (set xs) \<Longrightarrow> pv x \<in> insert a (set xs)"
  by (induction xs arbitrary: a) auto

text \<open>A buffer without its links, the part that list surgery leaves alone.\<close>

definition core :: "buf \<Rightarrow> buf" where
  "core b = b\<lparr>b_prev := 0, b_next := 0\<rparr>"

lemma core_simps [simp]:
  "b_valid (core b) = b_valid b" "b_dev (core b) = b_dev b" "b_blockno (core b) = b_blockno b"
  "b_lock (core b) = b_lock b" "b_refcnt (core b) = b_refcnt b" "b_data (core b) = b_data b"
  by (simp_all add: core_def)

lemma core_links [simp]: "core (b\<lparr>b_prev := p\<rparr>) = core b" "core (b\<lparr>b_next := p\<rparr>) = core b"
  by (simp_all add: core_def)

lemma front_linked:
  assumes len: "length bs = Suc NBUF" and b: "b < NBUF" and f: "b_next (bs ! NBUF) \<le> NBUF"
  shows "length (link_front b bs) = Suc NBUF"
    and "i \<le> NBUF \<Longrightarrow> core (link_front b bs ! i) = core (bs ! i)"
    and "i \<le> NBUF \<Longrightarrow> b_next (link_front b bs ! i) =
      ((\<lambda>i. b_next (bs ! i))(b := b_next (bs ! NBUF), NBUF := b)) i"
    and "i \<le> NBUF \<Longrightarrow> b_prev (link_front b bs ! i) =
      ((\<lambda>i. b_prev (bs ! i))(b := NBUF, b_next (bs ! NBUF) := b)) i"
  using assms by (auto simp: link_front_def Let_def nth_list_update)

lemma unlink_fields:
  assumes len: "length bs = Suc NBUF" and b: "b < NBUF"
    and n: "b_next (bs ! b) \<le> NBUF" "b_next (bs ! b) \<noteq> b" and p: "b_prev (bs ! b) \<le> NBUF" "b_prev (bs ! b) \<noteq> b"
  shows "length (unlink b bs) = Suc NBUF"
    and "i \<le> NBUF \<Longrightarrow> core (unlink b bs ! i) = core (bs ! i)"
    and "i \<le> NBUF \<Longrightarrow> b_next (unlink b bs ! i) = ((\<lambda>i. b_next (bs ! i))(b_prev (bs ! b) := b_next (bs ! b))) i"
    and "i \<le> NBUF \<Longrightarrow> b_prev (unlink b bs ! i) = ((\<lambda>i. b_prev (bs ! i))(b_next (bs ! b) := b_prev (bs ! b))) i"
  using assms by (auto simp: unlink_def Let_def nth_list_update)

text \<open>What \<^verbatim>\<open>brelse\<close> does to the list when the last reference goes.\<close>

lemma move_front:
  assumes lru: "lru bs xs" and b: "b < NBUF"
  shows "lru (link_front b (unlink b bs)) (b # remove1 b xs)"
    and "i \<le> NBUF \<Longrightarrow> core (link_front b (unlink b bs) ! i) = core (bs ! i)"
proof -
  let ?nx = "\<lambda>i. b_next (bs ! i)" and ?pv = "\<lambda>i. b_prev (bs ! i)"
  have l: "length bs = Suc NBUF" "distinct xs" "set xs = {..<NBUF}" "linked ?nx ?pv NBUF xs NBUF"
    using lru by (auto simp: lru_def)
  obtain us vs where xs: "xs = us @ b # vs" using b l(3) by (metis lessThan_iff split_list)
  have parts: "linked ?nx ?pv NBUF us b" "linked ?nx ?pv b vs NBUF"
    using l(4) by (auto simp: xs linked_append)
  have N: "NBUF \<notin> set xs" using l(3) by auto
  have n: "?nx b \<le> NBUF" "?nx b \<noteq> b"
    using linked_range(1) [OF parts(2), of b] l(2,3) N by (auto simp: xs intro: less_imp_le)
  have p: "?pv b \<le> NBUF" "?pv b \<noteq> b"
    using linked_range(2) [OF parts(1), of b] l(2,3) N by (auto simp: xs intro: less_imp_le)
  note u = unlink_fields [OF l(1) b n p]
  let ?bs = "unlink b bs"
  have "linked (?nx(?pv b := ?nx b)) (?pv(?nx b := ?pv b)) NBUF (us @ vs) NBUF"
    using parts l(2) N by (intro linked_remove) (auto simp: xs)
  moreover have sub: "set (us @ vs) \<subseteq> {..<NBUF}" using l(3) by (auto simp: xs)
  ultimately have lk: "linked (\<lambda>i. b_next (?bs ! i)) (\<lambda>i. b_prev (?bs ! i)) NBUF (us @ vs) NBUF"
    using u(3,4) by (subst linked_cong) (auto intro: less_imp_le)
  have f: "b_next (?bs ! NBUF) \<le> NBUF"
    using linked_range(1) [OF lk, of NBUF] sub by (auto intro: less_imp_le)
  note fr = front_linked [OF u(1) b f]
  let ?bs' = "link_front b ?bs"
  have "distinct (b # NBUF # us @ vs)" using l(2) N b by (auto simp: xs)
  note ins = linked_insert [OF lk this]
  have le: "x \<le> NBUF" if "x \<in> insert NBUF (set (b # us @ vs))" for x
    using that sub b by (auto intro: less_imp_le)
  have "linked (\<lambda>i. b_next (?bs' ! i)) (\<lambda>i. b_prev (?bs' ! i)) NBUF (b # us @ vs) NBUF"
    by (rule linked_cong [THEN iffD2, OF _ _ ins]) (rule fr(3,4), erule le)+
  moreover have "remove1 b xs = us @ vs" using l(2) by (simp add: xs remove1_append)
  ultimately show "lru ?bs' (b # remove1 b xs)"
    unfolding lru_def using fr(1) l(2,3) by (auto simp: xs)
  show "core (?bs' ! i) = core (bs ! i)" if "i \<le> NBUF" using fr(2) u(2) that by simp
qed

text \<open>The scans find the first buffer that qualifies, from either end.\<close>

lemma scan_next_find:
  "linked nx (\<lambda>i. b_prev (bs ! i)) a xs NBUF \<Longrightarrow> nx = (\<lambda>i. b_next (bs ! i)) \<Longrightarrow> NBUF \<notin> set xs \<Longrightarrow>
   length xs \<le> k \<Longrightarrow> scan_next k P bs (b_next (bs ! a)) = Ok (find (\<lambda>i. P (bs ! i)) xs)"
proof (induction xs arbitrary: a k)
  case Nil
  then show ?case by (cases k) auto
next
  case (Cons x xs)
  then show ?case by (cases k) auto
qed

lemma linked_rev: "linked nx pv a xs z \<longleftrightarrow> linked pv nx z (rev xs) a"
proof (induction xs arbitrary: a)
  case (Cons x xs)
  have "linked pv nx z (rev xs @ [x]) a \<longleftrightarrow> linked pv nx z (rev xs) x \<and> linked pv nx x [] a"
    using linked_append [of pv nx z "rev xs" x "[]" a] by simp
  then show ?case using Cons [of x] by auto
qed auto

lemma scan_prev_find:
  "linked pv (\<lambda>i. b_next (bs ! i)) a xs NBUF \<Longrightarrow> pv = (\<lambda>i. b_prev (bs ! i)) \<Longrightarrow> NBUF \<notin> set xs \<Longrightarrow>
   length xs \<le> k \<Longrightarrow> scan_prev k P bs (b_prev (bs ! a)) = Ok (find (\<lambda>i. P (bs ! i)) xs)"
proof (induction xs arbitrary: a k)
  case Nil
  then show ?case by (cases k) auto
next
  case (Cons x xs)
  then show ?case by (cases k) auto
qed

lemma lru_scan:
  assumes "lru bs xs"
  shows "scan_next NBUF P bs (b_next (bs ! NBUF)) = Ok (find (\<lambda>i. P (bs ! i)) xs)"
    and "scan_prev NBUF P bs (b_prev (bs ! NBUF)) = Ok (find (\<lambda>i. P (bs ! i)) (rev xs))"
proof -
  have len: "length xs \<le> NBUF" "NBUF \<notin> set xs" using assms distinct_card [of xs] by (auto simp: lru_def)
  with assms show "scan_next NBUF P bs (b_next (bs ! NBUF)) = Ok (find (\<lambda>i. P (bs ! i)) xs)"
    by (intro scan_next_find) (auto simp: lru_def)
  from assms len show "scan_prev NBUF P bs (b_prev (bs ! NBUF)) = Ok (find (\<lambda>i. P (bs ! i)) (rev xs))"
    by (intro scan_prev_find) (auto simp: lru_def linked_rev [symmetric])
qed

end
