(* ===== verification/BioSpec.thy ===== *)
theory BioSpec
  imports Bio
begin

text \<open>
  What the buffer cache promises. \<open>binv\<close> is its invariant; \<open>cont\<close>, \<open>refs\<close>, \<open>held\<close> and \<open>mine\<close> are
  what a client sees of it: contents, reference counts and locks by block number. The
  operations are shown to act on these as their names say, and recycling a buffer is shown
  not to be visible at all.
\<close>

section \<open>The invariant and the client's view\<close>

text \<open>The buffer that holds block \<open>bno\<close> of the root device.\<close>

definition holds :: "buf \<Rightarrow> uint32 \<Rightarrow> bool" where
  "holds b bno \<longleftrightarrow> b_dev b = ROOTDEV \<and> b_blockno b = bno"

definition slot :: "'z kbio_scheme \<Rightarrow> uint32 \<Rightarrow> nat option" where
  "slot s bno = find (\<lambda>i. holds (bufs s ! i) bno) [0..<NBUF]"

definition cont :: "'z kbio_scheme \<Rightarrow> uint32 \<Rightarrow> block" where
  "cont s bno = (case slot s bno of
     Some i \<Rightarrow> if b_valid (bufs s ! i) then b_data (bufs s ! i) else disk s bno
   | None \<Rightarrow> disk s bno)"

definition refs :: "'z kbio_scheme \<Rightarrow> uint32 \<Rightarrow> nat" where
  "refs s bno = (case slot s bno of Some i \<Rightarrow> unat (b_refcnt (bufs s ! i)) | None \<Rightarrow> 0)"

definition held :: "'z kbio_scheme \<Rightarrow> uint32 set" where
  "held s = {bno. \<exists>i. slot s bno = Some i \<and> sl_locked (b_lock (bufs s ! i))}"

text \<open>The blocks the current process holds locked.\<close>

definition mine :: "'z kbio_scheme \<Rightarrow> uint32 set" where
  "mine s = {bno. \<exists>i. slot s bno = Some i \<and> holdingsleep (b_lock (bufs s ! i)) (me s)}"

text \<open>How many buffers are in use.\<close>

definition busy :: "'z kbio_scheme \<Rightarrow> nat" where
  "busy s = card {i. i < NBUF \<and> b_refcnt (bufs s ! i) \<noteq> 0}"

text \<open>
  The invariant: the list is intact, no block of the device is in two buffers, a buffer no
  one refers to is unlocked and agrees with the disk if it is valid, and buffers in use hold
  blocks of the root device.
\<close>

definition binv :: "'z kbio_scheme \<Rightarrow> bool" where
  "binv s \<longleftrightarrow> (\<exists>xs. lru (bufs s) xs) \<and> cur s < length (procs s) \<and>
     (\<forall>i<NBUF. \<forall>j<NBUF. \<forall>bno. holds (bufs s ! i) bno \<longrightarrow> holds (bufs s ! j) bno \<longrightarrow> i = j) \<and>
     (\<forall>i<NBUF. b_refcnt (bufs s ! i) = 0 \<longrightarrow> \<not> sl_locked (b_lock (bufs s ! i)) \<and>
        (\<forall>bno. holds (bufs s ! i) bno \<longrightarrow> b_valid (bufs s ! i) \<longrightarrow> b_data (bufs s ! i) = disk s bno)) \<and>
     (\<forall>i<NBUF. b_refcnt (bufs s ! i) \<noteq> 0 \<longrightarrow> b_dev (bufs s ! i) = ROOTDEV)"

lemma binvD:
  assumes "binv s"
  shows "\<exists>xs. lru (bufs s) xs" "length (bufs s) = Suc NBUF" "cur s < length (procs s)"
    "\<And>i j bno. i < NBUF \<Longrightarrow> j < NBUF \<Longrightarrow> holds (bufs s ! i) bno \<Longrightarrow> holds (bufs s ! j) bno \<Longrightarrow> i = j"
    "\<And>i. i < NBUF \<Longrightarrow> b_refcnt (bufs s ! i) = 0 \<Longrightarrow> \<not> sl_locked (b_lock (bufs s ! i))"
    "\<And>i bno. i < NBUF \<Longrightarrow> b_refcnt (bufs s ! i) = 0 \<Longrightarrow> holds (bufs s ! i) bno \<Longrightarrow>
       b_valid (bufs s ! i) \<Longrightarrow> b_data (bufs s ! i) = disk s bno"
    "\<And>i. i < NBUF \<Longrightarrow> b_refcnt (bufs s ! i) \<noteq> 0 \<Longrightarrow> b_dev (bufs s ! i) = ROOTDEV"
  using assms unfolding binv_def lru_def by blast+

lemma slot_Some:
  assumes "binv s"
  shows "slot s bno = Some i \<longleftrightarrow> i < NBUF \<and> holds (bufs s ! i) bno"
proof
  assume "slot s bno = Some i"
  then show "i < NBUF \<and> holds (bufs s ! i) bno"
    by (auto simp: slot_def find_Some_iff)
next
  assume i: "i < NBUF \<and> holds (bufs s ! i) bno"
  then obtain j where "slot s bno = Some j"
    unfolding slot_def by (metis atLeastLessThan_iff find_None_iff not_None_eq set_upt zero_le)
  moreover from this have "j < NBUF \<and> holds (bufs s ! j) bno" by (auto simp: slot_def find_Some_iff)
  ultimately show "slot s bno = Some i" using binvD(4) [OF assms] i by blast
qed

lemma slot_None: "slot s bno = None \<longleftrightarrow> (\<forall>i<NBUF. \<not> holds (bufs s ! i) bno)"
  by (auto simp: slot_def find_None_iff)

text \<open>
  An operation that changes one buffer: the rest of the table keeps its cores, and the
  buffer's new contents satisfy what the invariant asks of a buffer.
\<close>

definition fits :: "'z kbio_scheme \<Rightarrow> nat \<Rightarrow> buf \<Rightarrow> bool" where
  "fits s i x \<longleftrightarrow>
     (\<forall>j<NBUF. \<forall>bno. j \<noteq> i \<longrightarrow> holds x bno \<longrightarrow> \<not> holds (bufs s ! j) bno) \<and>
     (b_refcnt x = 0 \<longrightarrow> \<not> sl_locked (b_lock x) \<and> (\<forall>bno. holds x bno \<longrightarrow> b_valid x \<longrightarrow> b_data x = disk s bno)) \<and>
     (b_refcnt x \<noteq> 0 \<longrightarrow> b_dev x = ROOTDEV)"

lemma holds_core [simp]: "holds (core b) bno = holds b bno"
  by (simp add: holds_def)

lemma holds_cong: "core b = core b' \<Longrightarrow> holds b bno = holds b' bno"
  using holds_core by metis

lemma core_cong:
  assumes "core b = core b'"
  shows "b_valid b = b_valid b'" "b_dev b = b_dev b'" "b_blockno b = b_blockno b'" "b_lock b = b_lock b'"
    "b_refcnt b = b_refcnt b'" "b_data b = b_data b'"
  using arg_cong [OF assms, of b_valid] arg_cong [OF assms, of b_dev] arg_cong [OF assms, of b_blockno]
    arg_cong [OF assms, of b_lock] arg_cong [OF assms, of b_refcnt] arg_cong [OF assms, of b_data] by simp_all

lemma binv_change:
  assumes inv: "binv s" and lru: "lru (bufs s') xs" and i: "i < NBUF"
    and other: "\<And>j. j < NBUF \<Longrightarrow> j \<noteq> i \<Longrightarrow> core (bufs s' ! j) = core (bufs s ! j)"
    and x: "core (bufs s' ! i) = core x" "fits s i x"
    and d: "disk s' = disk s" and c: "cur s' < length (procs s')"
  shows "binv s'"
proof -
  have h: "holds (bufs s' ! j) bno \<longleftrightarrow> (if j = i then holds x bno else holds (bufs s ! j) bno)" if "j < NBUF" for j bno
    using other [OF that] x(1) holds_cong by metis
  have uniq: "j = k" if "j < NBUF" "k < NBUF" "holds (bufs s' ! j) bno" "holds (bufs s' ! k) bno" for j k bno
    using that h x(2) binvD(4) [OF inv] unfolding fits_def by (metis (full_types))
  have rest: "(b_refcnt (bufs s' ! j) = 0 \<longrightarrow> \<not> sl_locked (b_lock (bufs s' ! j)) \<and>
       (\<forall>bno. holds (bufs s' ! j) bno \<longrightarrow> b_valid (bufs s' ! j) \<longrightarrow> b_data (bufs s' ! j) = disk s' bno)) \<and>
      (b_refcnt (bufs s' ! j) \<noteq> 0 \<longrightarrow> b_dev (bufs s' ! j) = ROOTDEV)" if j: "j < NBUF" for j
  proof (cases "j = i")
    case True
    then show ?thesis using x h [OF j] d core_cong [OF x(1)] unfolding fits_def by simp
  next
    case False
    then show ?thesis using core_cong [OF other [OF j False]] h [OF j] d binvD(5,6,7) [OF inv j] by auto
  qed
  show ?thesis unfolding binv_def using lru c uniq rest by blast
qed

text \<open>The client's view after such a change.\<close>

lemma slot_change:
  assumes inv: "binv s" "binv s'" and i: "i < NBUF" "holds (bufs s' ! i) bno"
    and other: "\<And>j. j < NBUF \<Longrightarrow> j \<noteq> i \<Longrightarrow> core (bufs s' ! j) = core (bufs s ! j)"
  shows "slot s' b = (if b = bno then Some i else if slot s b = Some i then None else slot s b)"
proof (cases "b = bno")
  case True
  then show ?thesis using i slot_Some [OF inv(2)] by auto
next
  case ne: False
  have ni: "\<not> holds (bufs s' ! i) b" using i(2) ne by (auto simp: holds_def)
  have h: "holds (bufs s' ! j) b \<longleftrightarrow> j \<noteq> i \<and> holds (bufs s ! j) b" if "j < NBUF" for j
    using ni other [OF that] holds_cong by blast
  show ?thesis
  proof (cases "slot s b")
    case None
    then have "slot s' b = None" using h unfolding slot_None by blast
    then show ?thesis using None ne by simp
  next
    case (Some j)
    then have j: "j < NBUF" "holds (bufs s ! j) b" using slot_Some [OF inv(1)] by auto
    show ?thesis
    proof (cases "j = i")
      case True
      then have "slot s' b = None" using h j binvD(4) [OF inv(1)] unfolding slot_None by blast
      then show ?thesis using Some True ne by simp
    next
      case False
      then have "slot s' b = Some j" using h j slot_Some [OF inv(2)] by blast
      then show ?thesis using Some False ne by simp
    qed
  qed
qed

lemma view_change:
  assumes inv: "binv s" "binv s'" and i: "i < NBUF" "holds (bufs s' ! i) bno"
    and other: "\<And>j. j < NBUF \<Longrightarrow> j \<noteq> i \<Longrightarrow> core (bufs s' ! j) = core (bufs s ! j)"
    and was: "holds (bufs s ! i) bno \<or> slot s bno = None \<and> b_refcnt (bufs s ! i) = 0"
    and d: "disk s' = disk s" and m: "me s' = me s"
  shows "b \<noteq> bno \<Longrightarrow> cont s' b = cont s b" "b \<noteq> bno \<Longrightarrow> refs s' b = refs s b"
    "held s' = (if sl_locked (b_lock (bufs s' ! i)) then insert bno (held s) else held s - {bno})"
    "mine s' = (if holdingsleep (b_lock (bufs s' ! i)) (me s) then insert bno (mine s) else mine s - {bno})"
    "b \<noteq> bno \<Longrightarrow> refs s b \<noteq> 0 \<Longrightarrow> slot s' b = slot s b"
proof -
  note sl = slot_change [OF inv i other]
  have evict: "b_refcnt (bufs s ! i) = 0" "holds (bufs s ! i) b" if "b \<noteq> bno" "slot s b = Some i" for b
    using was that slot_Some [OF inv(1)] by (auto simp: holds_def)
  have keep: "core (bufs s' ! j) = core (bufs s ! j)" "slot s' b = Some j"
    if "slot s b = Some j" "j \<noteq> i" "b \<noteq> bno" for b j
    using that slot_Some [OF inv(1), of b j] other [of j] sl [of b] by simp_all
  show "cont s' b = cont s b" if b: "b \<noteq> bno"
  proof (cases "slot s b")
    case None
    then show ?thesis using sl [of b] b d by (simp add: cont_def)
  next
    case (Some j)
    then show ?thesis
      using sl [of b] b d evict [OF b] keep [OF Some] binvD(6) [OF inv(1) i(1), of b] core_cong [of "bufs s' ! j" "bufs s ! j"]
      by (cases "j = i") (auto simp: cont_def)
  qed
  show "refs s' b = refs s b" if b: "b \<noteq> bno"
  proof (cases "slot s b")
    case None
    then show ?thesis using sl [of b] b by (simp add: refs_def)
  next
    case (Some j)
    then show ?thesis
      using sl [of b] b evict [OF b] keep [OF Some] core_cong [of "bufs s' ! j" "bufs s ! j"]
      by (cases "j = i") (auto simp: refs_def)
  qed
  have lk: "(\<exists>j. slot s' b = Some j \<and> Q (b_lock (bufs s' ! j))) \<longleftrightarrow> (\<exists>j. slot s b = Some j \<and> Q (b_lock (bufs s ! j)))"
    if b: "b \<noteq> bno" and Q: "\<And>l. Q l \<Longrightarrow> sl_locked l" for b Q
  proof (cases "slot s b")
    case None
    then show ?thesis using sl [of b] b by simp
  next
    case (Some j)
    then show ?thesis
      using sl [of b] b evict [OF b] keep [OF Some] core_cong [of "bufs s' ! j" "bufs s ! j"] binvD(5) [OF inv(1) i(1)] Q
      by (cases "j = i") auto
  qed
  have at: "slot s' bno = Some i" using sl by simp
  show "held s' = (if sl_locked (b_lock (bufs s' ! i)) then insert bno (held s) else held s - {bno})"
  proof (rule set_eqI)
    fix b show "b \<in> held s' \<longleftrightarrow> b \<in> (if sl_locked (b_lock (bufs s' ! i)) then insert bno (held s) else held s - {bno})"
      using lk [of b sl_locked] at by (cases "b = bno") (auto simp: held_def)
  qed
  show "mine s' = (if holdingsleep (b_lock (bufs s' ! i)) (me s) then insert bno (mine s) else mine s - {bno})"
  proof (rule set_eqI)
    fix b show "b \<in> mine s' \<longleftrightarrow>
      b \<in> (if holdingsleep (b_lock (bufs s' ! i)) (me s) then insert bno (mine s) else mine s - {bno})"
      using lk [of b "\<lambda>l. holdingsleep l (me s)"] at m by (cases "b = bno") (auto simp: mine_def holdingsleep_def)
  qed
  show "slot s' b = slot s b" if "b \<noteq> bno" "refs s b \<noteq> 0"
    using sl [of b] that evict [of b] by (auto simp: refs_def split: option.splits if_splits)
qed

section \<open>The operations on the client's view\<close>

lemma busy_free:
  assumes "busy s < NBUF"
  shows "\<exists>i<NBUF. b_refcnt (bufs s ! i) = 0"
proof (rule ccontr)
  assume "\<not> ?thesis"
  then have "{i. i < NBUF \<and> b_refcnt (bufs s ! i) \<noteq> 0} = {..<NBUF}" by auto
  then show False using assms by (simp add: busy_def)
qed

lemma busy_change:
  assumes i: "i < NBUF"
    and other: "\<And>j. j < NBUF \<Longrightarrow> j \<noteq> i \<Longrightarrow> core (bufs s' ! j) = core (bufs s ! j)"
  shows "busy s' + (if b_refcnt (bufs s ! i) \<noteq> 0 then 1 else 0) =
    busy s + (if b_refcnt (bufs s' ! i) \<noteq> 0 then 1 else 0)"
proof -
  let ?R = "{j. j < NBUF \<and> j \<noteq> i \<and> b_refcnt (bufs s ! j) \<noteq> 0}"
  have eq: "\<forall>j<NBUF. j \<noteq> i \<longrightarrow> b_refcnt (bufs s' ! j) = b_refcnt (bufs s ! j)"
    using core_cong(5) [OF other] by blast
  have e1: "{j. j < NBUF \<and> b_refcnt (bufs s ! j) \<noteq> 0} = (if b_refcnt (bufs s ! i) \<noteq> 0 then insert i ?R else ?R)"
    using i by auto
  have e2: "{j. j < NBUF \<and> b_refcnt (bufs s' ! j) \<noteq> 0} = (if b_refcnt (bufs s' ! i) \<noteq> 0 then insert i ?R else ?R)"
    using i eq by auto
  have "card (insert i ?R) = Suc (card ?R)" by simp
  then show ?thesis unfolding busy_def e1 e2 by auto
qed

lemma lru_core:
  assumes "lru bs xs" "length bs' = length bs"
    "\<And>j. j \<le> NBUF \<Longrightarrow> b_next (bs' ! j) = b_next (bs ! j) \<and> b_prev (bs' ! j) = b_prev (bs ! j)"
  shows "lru bs' xs"
proof -
  have "linked (\<lambda>i. b_next (bs' ! i)) (\<lambda>i. b_prev (bs' ! i)) NBUF xs NBUF \<longleftrightarrow>
        linked (\<lambda>i. b_next (bs ! i)) (\<lambda>i. b_prev (bs ! i)) NBUF xs NBUF"
    using assms(1,3) by (intro linked_cong) (auto simp: lru_def intro: less_imp_le)
  then show ?thesis using assms by (simp add: lru_def)
qed

text \<open>Changing fields of one buffer other than its links.\<close>

lemma upd_buf_change:
  assumes inv: "binv s" and i: "i < NBUF" and x: "x = f (bufs s ! i)" "fits s i x"
    and links: "b_next x = b_next (bufs s ! i)" "b_prev x = b_prev (bufs s ! i)"
  shows "binv (upd_buf i f s)" "bufs (upd_buf i f s) ! i = x"
    "j \<noteq> i \<Longrightarrow> bufs (upd_buf i f s) ! j = bufs s ! j" "disk (upd_buf i f s) = disk s"
    "dwrites (upd_buf i f s) = dwrites s" "me (upd_buf i f s) = me s"
proof -
  obtain xs where lru: "lru (bufs s) xs" using binvD(1) [OF inv] by blast
  have len: "length (bufs s) = Suc NBUF" by (rule binvD(2) [OF inv])
  show b: "bufs (upd_buf i f s) ! i = x" "\<And>j. j \<noteq> i \<Longrightarrow> bufs (upd_buf i f s) ! j = bufs s ! j"
    "disk (upd_buf i f s) = disk s" "dwrites (upd_buf i f s) = dwrites s" "me (upd_buf i f s) = me s"
    using i len x by (simp_all add: upd_buf_def me_def myproc_def)
  have "lru (bufs (upd_buf i f s)) xs"
  proof (rule lru_core [OF lru])
    show "length (bufs (upd_buf i f s)) = length (bufs s)" by (simp add: upd_buf_def)
    show "b_next (bufs (upd_buf i f s) ! j) = b_next (bufs s ! j) \<and>
        b_prev (bufs (upd_buf i f s) ! j) = b_prev (bufs s ! j)" for j
      using b(1,2) links by (cases "j = i") auto
  qed
  then show "binv (upd_buf i f s)"
    by (rule binv_change [OF inv _ i]) (use b x binvD(3) [OF inv] in \<open>auto simp: upd_buf_def\<close>)
qed

text \<open>
  \<open>lock_buf\<close> on a buffer that was just assigned to block \<open>bno\<close>, as a change of one buffer.
\<close>

lemma lock_buf_upd:
  assumes "\<not> sl_locked (b_lock (f (bufs s ! i)))" "i < length (bufs s)"
  shows "lock_buf i (upd_buf i f s) =
    Ok (i, upd_buf i (\<lambda>x. (f x)\<lparr>b_lock := (b_lock (f x))\<lparr>sl_locked := True, sl_pid := me s\<rparr>\<rparr>) s)"
  using assms by (simp add: lock_buf_def acquiresleep_def upd_buf_def me_def myproc_def)

lemma unat_plus1: "unat (w :: uint32) < 2 ^ 32 - 1 \<Longrightarrow> unat (w + 1) = Suc (unat w)"
  by (subst unat_add_small) simp_all

lemma bread_spec:
  assumes inv: "binv s" and free: "bno \<notin> held s" and room: "refs s bno \<noteq> 0 \<or> busy s < NBUF"
    and bound: "refs s bno < 2 ^ 32 - 1"
  obtains i s' where "bread ROOTDEV bno s = Ok (i, s')" "binv s'" "slot s' bno = Some i" "i < NBUF"
    "b_data (bufs s' ! i) = cont s bno" "b_valid (bufs s' ! i)" "cont s' = cont s"
    "refs s' = (refs s)(bno := Suc (refs s bno))"
    "held s' = insert bno (held s)" "mine s' = insert bno (mine s)"
    "busy s' = (if refs s bno = 0 then Suc (busy s) else busy s)" "s' = s\<lparr>bufs := bufs s'\<rparr>"
    "\<And>b. b \<noteq> bno \<Longrightarrow> refs s b \<noteq> 0 \<Longrightarrow> slot s' b = slot s b" "\<And>j. j \<noteq> i \<Longrightarrow> bufs s' ! j = bufs s ! j"
proof -
  obtain xs where lru: "lru (bufs s) xs" using binvD(1) [OF inv] by blast
  have len: "length (bufs s) = Suc NBUF" by (rule binvD(2) [OF inv])
  have xs: "set xs = {..<NBUF}" using lru by (simp add: lru_def)
  define P where "P = (\<lambda>b :: buf. b_dev b = ROOTDEV \<and> b_blockno b = bno)"
  have P: "P b \<longleftrightarrow> holds b bno" for b by (simp add: P_def holds_def)
  have get: "\<exists>i f. bget ROOTDEV bno s = Ok (i, upd_buf i (\<lambda>x. (f x)\<lparr>b_lock := (b_lock (f x))\<lparr>sl_locked := True, sl_pid := me s\<rparr>\<rparr>) s) \<and>
      i < NBUF \<and> (holds (bufs s ! i) bno \<and> f = (\<lambda>x. x\<lparr>b_refcnt := b_refcnt x + 1\<rparr>) \<or>
        slot s bno = None \<and> b_refcnt (bufs s ! i) = 0 \<and>
        f = (\<lambda>x. x\<lparr>b_dev := ROOTDEV, b_blockno := bno, b_valid := False, b_refcnt := 1\<rparr>))"
  proof (cases "slot s bno")
    case (Some i)
    then have i: "i < NBUF" "holds (bufs s ! i) bno" using slot_Some [OF inv] by auto
    have "find (\<lambda>i. P (bufs s ! i)) xs = Some i"
    proof -
      obtain j where j: "find (\<lambda>i. P (bufs s ! i)) xs = Some j"
        using i xs P by (cases "find (\<lambda>i. P (bufs s ! i)) xs") (auto simp: find_None_iff)
      then have "j < NBUF" "holds (bufs s ! j) bno" using xs P by (auto simp: find_Some_iff)
      with j i binvD(4) [OF inv] show ?thesis by blast
    qed
    then have "bget ROOTDEV bno s = lock_buf i (upd_buf i (\<lambda>x. x\<lparr>b_refcnt := b_refcnt x + 1\<rparr>) s)"
      unfolding bget_def P_def [symmetric] lru_scan(1) [OF lru] by simp
    moreover have "\<not> sl_locked (b_lock (bufs s ! i))" using free Some by (simp add: held_def)
    ultimately show ?thesis
      using i len lock_buf_upd [of "\<lambda>x. x\<lparr>b_refcnt := b_refcnt x + 1\<rparr>" s i]
      by (intro exI [of _ i] exI [of _ "\<lambda>x. x\<lparr>b_refcnt := b_refcnt x + 1\<rparr>"]) simp
  next
    case None
    then have none: "find (\<lambda>i. P (bufs s ! i)) xs = None"
      using xs P by (auto simp: find_None_iff slot_None)
    have "refs s bno = 0" using None by (simp add: refs_def)
    then obtain k where k: "k < NBUF" "b_refcnt (bufs s ! k) = 0" using room busy_free by auto
    then obtain i where fi: "find (\<lambda>i. b_refcnt (bufs s ! i) = 0) (rev xs) = Some i"
      using xs by (cases "find (\<lambda>i. b_refcnt (bufs s ! i) = 0) (rev xs)") (auto simp: find_None_iff)
    then have i: "i < NBUF" "b_refcnt (bufs s ! i) = 0" using xs by (auto simp: find_Some_iff rev_nth)
    have "bget ROOTDEV bno s = lock_buf i (upd_buf i
        (\<lambda>x. x\<lparr>b_dev := ROOTDEV, b_blockno := bno, b_valid := False, b_refcnt := 1\<rparr>) s)"
      unfolding bget_def P_def [symmetric] lru_scan [OF lru] none by (simp add: fi)
    then show ?thesis
      using i None len binvD(5) [OF inv i]
        lock_buf_upd [of "\<lambda>x. x\<lparr>b_dev := ROOTDEV, b_blockno := bno, b_valid := False, b_refcnt := 1\<rparr>" s i]
      by (intro exI [of _ i] exI [of _ "\<lambda>x. x\<lparr>b_dev := ROOTDEV, b_blockno := bno, b_valid := False, b_refcnt := 1\<rparr>"]) simp
  qed
  then obtain i f where g: "bget ROOTDEV bno s = Ok (i, upd_buf i (\<lambda>x. (f x)\<lparr>b_lock := (b_lock (f x))\<lparr>sl_locked := True, sl_pid := me s\<rparr>\<rparr>) s)"
    and i: "i < NBUF" and cs: "holds (bufs s ! i) bno \<and> f = (\<lambda>x. x\<lparr>b_refcnt := b_refcnt x + 1\<rparr>) \<or>
        slot s bno = None \<and> b_refcnt (bufs s ! i) = 0 \<and>
        f = (\<lambda>x. x\<lparr>b_dev := ROOTDEV, b_blockno := bno, b_valid := False, b_refcnt := 1\<rparr>)"
    by (elim exE conjE) (rule that)
  define g' where "g' = (\<lambda>x. (f x)\<lparr>b_lock := (b_lock (f x))\<lparr>sl_locked := True, sl_pid := me s\<rparr>\<rparr>)"
  define h where "h = (\<lambda>x. if b_valid (g' x) then g' x else (g' x)\<lparr>b_data := disk s bno, b_valid := True\<rparr>)"
  have h: "b_dev (h x) = b_dev (f x)" "b_blockno (h x) = b_blockno (f x)" "b_refcnt (h x) = b_refcnt (f x)"
    "b_next (h x) = b_next (f x)" "b_prev (h x) = b_prev (f x)" "b_valid (h x)"
    "sl_locked (b_lock (h x))" "sl_pid (b_lock (h x)) = me s"
    "b_data (h x) = (if b_valid (f x) then b_data (f x) else disk s bno)" for x
    by (simp_all add: h_def g'_def)
  let ?x = "h (bufs s ! i)" and ?s' = "upd_buf i h s"
  have br: "bread ROOTDEV bno s = Ok (i, ?s')"
    using cs i len unfolding bread_def g
    by (auto simp: virtio_disk_rw_def upd_buf_def h_def g'_def holds_def)
  have rc: "unat (b_refcnt ?x) = Suc (refs s bno)" "b_refcnt ?x \<noteq> 0"
  proof -
    show "unat (b_refcnt ?x) = Suc (refs s bno)"
      using cs bound slot_Some [OF inv, of bno i] i unat_plus1 [of "b_refcnt (bufs s ! i)"]
      by (auto simp: h refs_def)
    then show "b_refcnt ?x \<noteq> 0" by auto
  qed
  have hx: "holds ?x bno" using cs by (auto simp: h holds_def)
  have hb: "b = bno" if "holds ?x b" for b using hx that by (simp add: holds_def)
  have uniq: "\<not> holds (bufs s ! j) bno" if "j < NBUF" "j \<noteq> i" for j
    using cs
  proof
    assume "slot s bno = None \<and> b_refcnt (bufs s ! i) = 0 \<and>
      f = (\<lambda>x. x\<lparr>b_dev := ROOTDEV, b_blockno := bno, b_valid := False, b_refcnt := 1\<rparr>)"
    then show ?thesis using that(1) slot_None by blast
  qed (use that i binvD(4) [OF inv] in blast)
  have "fits s i ?x"
    unfolding fits_def using hb uniq rc(2) hx by (metis (no_types) holds_def)
  note ch = upd_buf_change [where f = h, OF inv i refl this]
  have lk: "b_next ?x = b_next (bufs s ! i)" "b_prev ?x = b_prev (bufs s ! i)" using cs by (auto simp: h)
  note ch = ch [OF lk]
  have inv': "binv ?s'" by (rule ch(1))
  have other: "core (bufs ?s' ! j) = core (bufs s ! j)" if "j < NBUF" "j \<noteq> i" for j using ch(3) that by simp
  have was: "holds (bufs s ! i) bno \<or> slot s bno = None \<and> b_refcnt (bufs s ! i) = 0" using cs by auto
  note v = view_change [OF inv inv' i _ other was ch(4,6), unfolded ch(2), OF hx]
  have sl: "slot ?s' bno = Some i" using slot_Some [OF inv'] i hx ch(2) by simp
  have old: "slot s bno = Some i" if "holds (bufs s ! i) bno" using that slot_Some [OF inv] i by simp
  have data: "b_data ?x = cont s bno"
    using cs old by (auto simp: h cont_def split: option.split)
  show thesis
  proof (rule that [OF br inv' sl i])
    show "b_data (bufs ?s' ! i) = cont s bno" "b_valid (bufs ?s' ! i)" using data ch(2) by (simp_all add: h)
    show "cont ?s' = cont s"
    proof
      show "cont ?s' b = cont s b" for b
      proof (cases "b = bno")
        case True
        have "cont ?s' bno = b_data ?x" using sl ch(2) h(6) by (simp add: cont_def)
        with True data show ?thesis by simp
      qed (rule v(1))
    qed
    show "refs ?s' = (refs s)(bno := Suc (refs s bno))"
      using v(2) rc sl ch(2) by (auto simp: fun_eq_iff refs_def [of ?s' bno])
    show "held ?s' = insert bno (held s)" "mine ?s' = insert bno (mine s)"
      using v(3,4) by (auto simp: h holdingsleep_def)
    show "busy ?s' = (if refs s bno = 0 then Suc (busy s) else busy s)"
      using busy_change [OF i other] rc(2) ch(2) cs old by (auto simp: refs_def unat_eq_0 split: if_splits)
    show "?s' = s\<lparr>bufs := bufs ?s'\<rparr>" by (simp add: upd_buf_def)
    show "slot ?s' b = slot s b" if "b \<noteq> bno" "refs s b \<noteq> 0" for b using v(5) that by blast
    show "bufs ?s' ! j = bufs s ! j" if "j \<noteq> i" for j using ch(3) that by simp
  qed
qed

text \<open>Changes to a buffer in use that keep its identity, on the view.\<close>

lemma view_same:
  assumes inv: "binv s" "binv s'" and sl: "slot s bno = Some i"
    and h: "\<And>b. holds (bufs s' ! i) b = holds (bufs s ! i) b"
    and other: "\<And>j. j < NBUF \<Longrightarrow> j \<noteq> i \<Longrightarrow> core (bufs s' ! j) = core (bufs s ! j)"
    and d: "disk s' = disk s" and m: "me s' = me s"
  shows "slot s' = slot s"
    "cont s' = (cont s)(bno := if b_valid (bufs s' ! i) then b_data (bufs s' ! i) else disk s bno)"
    "refs s' = (refs s)(bno := unat (b_refcnt (bufs s' ! i)))"
    "held s' = (if sl_locked (b_lock (bufs s' ! i)) then insert bno (held s) else held s - {bno})"
    "mine s' = (if holdingsleep (b_lock (bufs s' ! i)) (me s) then insert bno (mine s) else mine s - {bno})"
proof -
  have i: "i < NBUF" "holds (bufs s ! i) bno" using sl slot_Some [OF inv(1)] by auto
  have i': "holds (bufs s' ! i) bno" using i h by simp
  have was: "holds (bufs s ! i) bno \<or> slot s bno = None \<and> b_refcnt (bufs s ! i) = 0" using i by simp
  note v = view_change [OF inv i(1) i' other was d m]
  have ne: "slot s b \<noteq> Some i" if "b \<noteq> bno" for b using that i slot_Some [OF inv(1)] by (auto simp: holds_def)
  show sl': "slot s' = slot s"
    using slot_change [OF inv i(1) i' other] sl ne by (auto simp: fun_eq_iff)
  show "cont s' = (cont s)(bno := if b_valid (bufs s' ! i) then b_data (bufs s' ! i) else disk s bno)"
  proof
    show "cont s' b = ((cont s)(bno := if b_valid (bufs s' ! i) then b_data (bufs s' ! i) else disk s bno)) b" for b
      using v(1) [of b] sl sl' d by (cases "b = bno") (simp_all add: cont_def [of s' bno])
  qed
  show "refs s' = (refs s)(bno := unat (b_refcnt (bufs s' ! i)))"
  proof
    show "refs s' b = ((refs s)(bno := unat (b_refcnt (bufs s' ! i)))) b" for b
      using v(2) [of b] sl sl' by (cases "b = bno") (simp_all add: refs_def [of s' bno])
  qed
  show "held s' = (if sl_locked (b_lock (bufs s' ! i)) then insert bno (held s) else held s - {bno})"
    by (rule v(3))
  show "mine s' = (if holdingsleep (b_lock (bufs s' ! i)) (me s) then insert bno (mine s) else mine s - {bno})"
    by (rule v(4))
qed

lemma fits_same:
  assumes inv: "binv s" and sl: "slot s bno = Some i"
    and x: "\<And>b. holds x b = holds (bufs s ! i) b"
    and clean: "b_refcnt x = 0 \<Longrightarrow> \<not> sl_locked (b_lock x) \<and> (b_valid x \<longrightarrow> b_data x = disk s bno)"
  shows "fits s i x"
proof -
  have i: "i < NBUF" "holds (bufs s ! i) bno" using sl slot_Some [OF inv] by auto
  have "b_dev x = ROOTDEV" using i x by (auto simp: holds_def)
  moreover have "b = bno" if "holds x b" for b using that i x by (auto simp: holds_def)
  ultimately show ?thesis
    unfolding fits_def using clean x i binvD(4) [OF inv] by blast
qed

lemma mineD:
  assumes "binv s" "bno \<in> mine s" "slot s bno = Some i"
  shows "holdingsleep (b_lock (bufs s ! i)) (me s)" "b_refcnt (bufs s ! i) \<noteq> 0" "i < NBUF" "bno \<in> held s"
    "refs s bno = unat (b_refcnt (bufs s ! i))" "refs s bno \<noteq> 0" "holds (bufs s ! i) bno"
proof -
  show h: "holdingsleep (b_lock (bufs s ! i)) (me s)" using assms by (auto simp: mine_def)
  show i: "i < NBUF" "holds (bufs s ! i) bno" using assms slot_Some by blast+
  show r: "b_refcnt (bufs s ! i) \<noteq> 0" using binvD(5) [OF assms(1) i(1)] h by (auto simp: holdingsleep_def)
  show "bno \<in> held s" using h assms by (auto simp: held_def holdingsleep_def)
  show "refs s bno = unat (b_refcnt (bufs s ! i))" using assms by (simp add: refs_def)
  with r show "refs s bno \<noteq> 0" by (simp add: unat_eq_0)
qed

text \<open>Storing into the data of a buffer the process holds.\<close>

lemma write_data_spec:
  assumes inv: "binv s" and m: "bno \<in> mine s" and sl: "slot s bno = Some i" and v: "b_valid (bufs s ! i)"
    and s': "s' = upd_buf i (\<lambda>x. x\<lparr>b_data := f (b_data x)\<rparr>) s"
  shows "binv s'" "slot s' = slot s" "cont s' = (cont s)(bno := f (cont s bno))" "refs s' = refs s"
    "held s' = held s" "mine s' = mine s" "busy s' = busy s" "b_valid (bufs s' ! i)" "s' = s\<lparr>bufs := bufs s'\<rparr>"
    "j \<noteq> i \<Longrightarrow> bufs s' ! j = bufs s ! j" "b_data (bufs s' ! i) = f (cont s bno)"
proof -
  note mi = mineD [OF inv m sl]
  let ?x = "(bufs s ! i)\<lparr>b_data := f (b_data (bufs s ! i))\<rparr>"
  have "fits s i ?x" using mi by (intro fits_same [OF inv sl]) (auto simp: holds_def)
  note ch = upd_buf_change [where f = "\<lambda>x. x\<lparr>b_data := f (b_data x)\<rparr>", OF inv mi(3) refl this, folded s', simplified]
  have other: "core (bufs s' ! j) = core (bufs s ! j)" if "j < NBUF" "j \<noteq> i" for j using ch(3) that by simp
  have hh: "holds (bufs s' ! i) b = holds (bufs s ! i) b" for b by (simp add: ch(2) holds_def)
  note vw = view_same [OF inv ch(1) sl hh other ch(4,6)]
  have c: "cont s bno = b_data (bufs s ! i)" using sl v by (simp add: cont_def)
  show "binv s'" by (rule ch(1))
  show "slot s' = slot s" "cont s' = (cont s)(bno := f (cont s bno))" "refs s' = refs s"
    "held s' = held s" "mine s' = mine s"
    using vw ch(2) v mi(1,4,5) m c by (auto simp: holdingsleep_def)
  show "busy s' = busy s" using busy_change [OF mi(3) other] ch(2) mi(2) by simp
  show "b_valid (bufs s' ! i)" "b_data (bufs s' ! i) = f (cont s bno)" using ch(2) v c by simp_all
  show "s' = s\<lparr>bufs := bufs s'\<rparr>" by (simp add: s' upd_buf_def)
  show "bufs s' ! j = bufs s ! j" if "j \<noteq> i" using ch(3) that by simp
qed

lemma bpin_spec:
  assumes inv: "binv s" and m: "bno \<in> mine s" and sl: "slot s bno = Some i" and b: "refs s bno < 2 ^ 32 - 1"
  shows "binv (bpin i s)" "slot (bpin i s) = slot s" "cont (bpin i s) = cont s"
    "refs (bpin i s) = (refs s)(bno := Suc (refs s bno))" "held (bpin i s) = held s" "mine (bpin i s) = mine s"
    "busy (bpin i s) = busy s" "bpin i s = s\<lparr>bufs := bufs (bpin i s)\<rparr>"
    "b_valid (bufs (bpin i s) ! j) = b_valid (bufs s ! j)" "b_data (bufs (bpin i s) ! j) = b_data (bufs s ! j)"
proof -
  note mi = mineD [OF inv m sl]
  let ?x = "(bufs s ! i)\<lparr>b_refcnt := b_refcnt (bufs s ! i) + 1\<rparr>"
  have r: "unat (b_refcnt ?x) = Suc (refs s bno)" "b_refcnt ?x \<noteq> 0"
  proof -
    show "unat (b_refcnt ?x) = Suc (refs s bno)" using b mi(5) unat_plus1 by simp
    then show "b_refcnt ?x \<noteq> 0" by auto
  qed
  have "fits s i ?x" using r by (intro fits_same [OF inv sl]) (auto simp: holds_def)
  note ch = upd_buf_change [where f = "\<lambda>x. x\<lparr>b_refcnt := b_refcnt x + 1\<rparr>", OF inv mi(3) refl this, folded bpin_def, simplified]
  have other: "core (bufs (bpin i s) ! j) = core (bufs s ! j)" if "j < NBUF" "j \<noteq> i" for j using ch(3) that by simp
  have hh: "holds (bufs (bpin i s) ! i) b = holds (bufs s ! i) b" for b by (simp add: ch(2) holds_def)
  note vw = view_same [OF inv ch(1) sl hh other ch(4,6)]
  have c: "(if b_valid (bufs s ! i) then b_data (bufs s ! i) else disk s bno) = cont s bno"
    using sl by (simp add: cont_def)
  show "binv (bpin i s)" by (rule ch(1))
  show "slot (bpin i s) = slot s" "cont (bpin i s) = cont s"
    "refs (bpin i s) = (refs s)(bno := Suc (refs s bno))" "held (bpin i s) = held s" "mine (bpin i s) = mine s"
    using vw ch(2) mi(1,4,5) m r c by (auto simp: holdingsleep_def)
  show "busy (bpin i s) = busy s" using busy_change [OF mi(3) other] ch(2) mi(2) r(2) by simp
  show "bpin i s = s\<lparr>bufs := bufs (bpin i s)\<rparr>" by (simp add: bpin_def upd_buf_def)
  show "b_valid (bufs (bpin i s) ! j) = b_valid (bufs s ! j)" "b_data (bufs (bpin i s) ! j) = b_data (bufs s ! j)"
    using ch(2,3) by (cases "j = i"; simp)+
qed

lemma unat_minus1: "(w :: uint32) \<noteq> 0 \<Longrightarrow> unat (w - 1) = unat w - 1"
  by (rule unat_minus_one)

lemma bunpin_spec:
  assumes inv: "binv s" and m: "bno \<in> mine s" and sl: "slot s bno = Some i" and b: "1 < refs s bno"
  shows "binv (bunpin i s)" "slot (bunpin i s) = slot s" "cont (bunpin i s) = cont s"
    "refs (bunpin i s) = (refs s)(bno := refs s bno - 1)" "held (bunpin i s) = held s" "mine (bunpin i s) = mine s"
    "busy (bunpin i s) = busy s" "bunpin i s = s\<lparr>bufs := bufs (bunpin i s)\<rparr>"
    "b_valid (bufs (bunpin i s) ! j) = b_valid (bufs s ! j)" "b_data (bufs (bunpin i s) ! j) = b_data (bufs s ! j)"
proof -
  note mi = mineD [OF inv m sl]
  let ?x = "(bufs s ! i)\<lparr>b_refcnt := b_refcnt (bufs s ! i) - 1\<rparr>"
  have r: "unat (b_refcnt ?x) = refs s bno - 1" "b_refcnt ?x \<noteq> 0"
  proof -
    show "unat (b_refcnt ?x) = refs s bno - 1" using mi(2,5) unat_minus1 by simp
    with b show "b_refcnt ?x \<noteq> 0" by (metis One_nat_def less_numeral_extra(3) unat_0 zero_less_diff)
  qed
  have "fits s i ?x" using r by (intro fits_same [OF inv sl]) (auto simp: holds_def)
  note ch = upd_buf_change [where f = "\<lambda>x. x\<lparr>b_refcnt := b_refcnt x - 1\<rparr>", OF inv mi(3) refl this, folded bunpin_def, simplified]
  have other: "core (bufs (bunpin i s) ! j) = core (bufs s ! j)" if "j < NBUF" "j \<noteq> i" for j using ch(3) that by simp
  have hh: "holds (bufs (bunpin i s) ! i) b = holds (bufs s ! i) b" for b by (simp add: ch(2) holds_def)
  note vw = view_same [OF inv ch(1) sl hh other ch(4,6)]
  have c: "(if b_valid (bufs s ! i) then b_data (bufs s ! i) else disk s bno) = cont s bno"
    using sl by (simp add: cont_def)
  show "binv (bunpin i s)" by (rule ch(1))
  show "slot (bunpin i s) = slot s" "cont (bunpin i s) = cont s"
    "refs (bunpin i s) = (refs s)(bno := refs s bno - 1)" "held (bunpin i s) = held s" "mine (bunpin i s) = mine s"
    using vw ch(2) mi(1,4,5) m r c by (auto simp: holdingsleep_def)
  show "busy (bunpin i s) = busy s" using busy_change [OF mi(3) other] ch(2) mi(2) r(2) by simp
  show "bunpin i s = s\<lparr>bufs := bufs (bunpin i s)\<rparr>" by (simp add: bunpin_def upd_buf_def)
  show "b_valid (bufs (bunpin i s) ! j) = b_valid (bufs s ! j)" "b_data (bufs (bunpin i s) ! j) = b_data (bufs s ! j)"
    using ch(2,3) by (cases "j = i"; simp)+
qed

lemma bwrite_spec:
  assumes inv: "binv s" and m: "bno \<in> mine s" and sl: "slot s bno = Some i" and v: "b_valid (bufs s ! i)"
  obtains s' where "bwrite i s = Ok s'" "binv s'" "slot s' = slot s" "cont s' = cont s" "refs s' = refs s"
    "held s' = held s" "mine s' = mine s" "busy s' = busy s" "disk s' = (disk s)(bno := cont s bno)"
    "dwrites s' = dwrites s @ [(bno, cont s bno)]" "s' = s\<lparr>disk := disk s', dwrites := dwrites s'\<rparr>"
proof -
  note mi = mineD [OF inv m sl]
  have c: "b_data (bufs s ! i) = cont s bno" "b_blockno (bufs s ! i) = bno"
    using sl v mi(7) by (simp_all add: cont_def holds_def)
  let ?s' = "s\<lparr>disk := (disk s)(bno := cont s bno), dwrites := dwrites s @ [(bno, cont s bno)]\<rparr>"
  have w: "bwrite i s = Ok ?s'" using mi(1) c by (simp add: bwrite_def virtio_disk_rw_def)
  have sl': "slot (s\<lparr>disk := d, dwrites := w\<rparr>) = slot s" for d w by (simp add: slot_def fun_eq_iff)
  have "cont ?s' b = cont s b" for b
    using sl v by (cases "b = bno") (simp_all add: cont_def sl' split: option.split)
  moreover have "binv ?s'"
  proof -
    have "b_data (bufs s ! j) = disk ?s' b" if "j < NBUF" "b_refcnt (bufs s ! j) = 0" "holds (bufs s ! j) b" "b_valid (bufs s ! j)" for j b
    proof -
      have "b \<noteq> bno" using that mi(2,3,7) binvD(4) [OF inv] by blast
      then show ?thesis using binvD(6) [OF inv that] by simp
    qed
    then show ?thesis using inv unfolding binv_def by simp
  qed
  ultimately show thesis
    using w sl' by (intro that [of ?s']) (auto simp: fun_eq_iff refs_def held_def mine_def busy_def me_def myproc_def split: option.split)
qed

text \<open>Two states whose process tables differ in run states only, as after a \<^verbatim>\<open>wakeup\<close>.\<close>

definition same_procs :: "'z kprocs_scheme \<Rightarrow> 'z kprocs_scheme \<Rightarrow> bool" where
  "same_procs s s' \<longleftrightarrow> cur s' = cur s \<and> length (procs s') = length (procs s) \<and>
     (\<forall>i<length (procs s). (procs s' ! i)\<lparr>p_state := UNUSED\<rparr> = (procs s ! i)\<lparr>p_state := UNUSED\<rparr>)"

lemma same_procs_refl: "same_procs s s"
  by (simp add: same_procs_def)

lemma same_procs_trans: "same_procs s s1 \<Longrightarrow> same_procs s1 s2 \<Longrightarrow> same_procs s s2"
  by (simp add: same_procs_def)

lemma same_procs_eq: "procs s' = procs s \<Longrightarrow> cur s' = cur s \<Longrightarrow> same_procs s s'"
  by (simp add: same_procs_def)

lemma same_procs_me: "same_procs s s' \<Longrightarrow> cur s < length (procs s) \<Longrightarrow> me s' = me s"
  unfolding same_procs_def me_def myproc_def
  by (metis kproc.select_convs(5) kproc.surjective kproc.update_convs(1))

lemma same_procs_wakeup: "same_procs s (wakeup c s)"
  by (simp add: same_procs_def wakeup_def nth_wakeup_procs)

lemma brelse_spec:
  assumes inv: "binv s" and m: "bno \<in> mine s" and sl: "slot s bno = Some i"
    and clean: "refs s bno = 1 \<Longrightarrow> cont s bno = disk s bno"
  obtains s' where "brelse i s = Ok s'" "binv s'" "slot s' = slot s" "cont s' = cont s"
    "refs s' = (refs s)(bno := refs s bno - 1)" "held s' = held s - {bno}" "mine s' = mine s - {bno}"
    "busy s' = (if refs s bno = 1 then busy s - 1 else busy s)" "disk s' = disk s" "dwrites s' = dwrites s"
    "same_procs s s'" "s' = s\<lparr>bufs := bufs s', procs := procs s'\<rparr>"
    "\<And>j. j < NBUF \<Longrightarrow> b_valid (bufs s' ! j) = b_valid (bufs s ! j)"
proof -
  note mi = mineD [OF inv m sl]
  let ?f = "\<lambda>x. x\<lparr>b_lock := releasesleep (b_lock x), b_refcnt := b_refcnt x - 1\<rparr>"
  let ?x = "?f (bufs s ! i)"
  let ?t = "upd_buf i ?f s"
  define bs where "bs = (if b_refcnt ?x = 0 then link_front i (unlink i (bufs ?t)) else bufs ?t)"
  let ?s' = "(wakeup (Chan_buf i) s)\<lparr>bufs := bs\<rparr>"
  have len: "length (bufs s) = Suc NBUF" by (rule binvD(2) [OF inv])
  have br: "brelse i s = Ok ?s'"
    using mi(1,3) len by (simp add: brelse_def Let_def upd_buf_def wakeup_def bs_def)
  have rc: "unat (b_refcnt ?x) = refs s bno - 1" using mi(2,5) unat_minus1 by simp
  then have z: "b_refcnt ?x = 0 \<longleftrightarrow> refs s bno = 1"
    using mi(6) by (metis One_nat_def Suc_pred diff_Suc_1 neq0_conv unat_0_iff)
  have fits: "fits s i ?x"
    using clean z sl by (intro fits_same [OF inv sl]) (auto simp: holds_def releasesleep_def cont_def)
  note ch = upd_buf_change [where f = ?f, OF inv mi(3) refl fits, simplified]
  obtain xs where xs: "lru (bufs ?t) xs" using binvD(1) [OF ch(1)] by blast
  note mf = move_front [OF xs mi(3)]
  have cores: "core (bs ! j) = core (bufs ?t ! j)" if "j \<le> NBUF" for j using mf(2) that by (simp add: bs_def)
  have lru': "\<exists>ys. lru bs ys" using xs mf(1) by (auto simp: bs_def)
  have x': "core (bs ! i) = core ?x" using cores [of i] mi(3) ch(2) by simp
  have other: "core (bs ! j) = core (bufs s ! j)" if "j < NBUF" "j \<noteq> i" for j using cores [of j] ch(3) that by simp
  have c: "cur ?s' < length (procs ?s')" using binvD(3) [OF inv] by (simp add: wakeup_def)
  have me': "me ?s' = me s" using binvD(3) [OF inv] by (simp add: me_def myproc_def wakeup_def)
  have inv': "binv ?s'"
    using lru' by (elim exE, intro binv_change [OF inv _ mi(3) _ _ fits _ c]) (simp_all add: other x' wakeup_def)
  have hh: "holds (bufs ?s' ! i) b = holds (bufs s ! i) b" for b
    using holds_cong [OF x', of b] by (simp add: holds_def)
  have other': "core (bufs ?s' ! j) = core (bufs s ! j)" if "j < NBUF" "j \<noteq> i" for j using other that by simp
  have d: "disk ?s' = disk s" by (simp add: wakeup_def)
  note vw = view_same [OF inv inv' sl hh other' d me']
  have fields: "b_valid (bs ! i) = b_valid (bufs s ! i)" "b_data (bs ! i) = b_data (bufs s ! i)"
    "b_refcnt (bs ! i) = b_refcnt ?x" "b_lock (bs ! i) = releasesleep (b_lock (bufs s ! i))"
    using core_cong [OF x'] by simp_all
  have cc: "(if b_valid (bufs s ! i) then b_data (bufs s ! i) else disk s bno) = cont s bno"
    using sl by (simp add: cont_def)
  show thesis
  proof (rule that [OF br inv'])
    show "slot ?s' = slot s" "refs ?s' = (refs s)(bno := refs s bno - 1)"
      "held ?s' = held s - {bno}" "mine ?s' = mine s - {bno}"
      using vw(1,3-5) fields rc by (simp_all add: releasesleep_def holdingsleep_def)
    show "cont ?s' = cont s" using vw(2) fields(1,2) cc by (auto split: if_splits)
    show "busy ?s' = (if refs s bno = 1 then busy s - 1 else busy s)"
      using busy_change [OF mi(3) other'] fields(3) mi(2) z by (auto split: if_splits)
    show "disk ?s' = disk s" "dwrites ?s' = dwrites s" by (simp_all add: wakeup_def)
    show "same_procs s ?s'"
      using same_procs_wakeup [of s "Chan_buf i"] by (simp add: same_procs_def)
    show "?s' = s\<lparr>bufs := bufs ?s', procs := procs ?s'\<rparr>" by (simp add: wakeup_def)
    show "b_valid (bufs ?s' ! j) = b_valid (bufs s ! j)" if "j < NBUF" for j
      using fields(1) core_cong(1) [OF other'] that by (cases "j = i") auto
  qed
qed

lemma busy_refs:
  assumes inv: "binv s"
  shows "busy s = card {b. refs s b \<noteq> 0}"
proof -
  let ?I = "{i. i < NBUF \<and> b_refcnt (bufs s ! i) \<noteq> 0}"
  have "bij_betw (\<lambda>i. b_blockno (bufs s ! i)) ?I {b. refs s b \<noteq> 0}"
  proof (rule bij_betwI')
    show "b_blockno (bufs s ! i) = b_blockno (bufs s ! j) \<longleftrightarrow> i = j" if "i \<in> ?I" "j \<in> ?I" for i j
      using that binvD(4,7) [OF inv] by (auto simp: holds_def)
    show "b_blockno (bufs s ! i) \<in> {b. refs s b \<noteq> 0}" if "i \<in> ?I" for i
    proof -
      have "slot s (b_blockno (bufs s ! i)) = Some i"
        using that slot_Some [OF inv] binvD(7) [OF inv] by (auto simp: holds_def)
      then show ?thesis using that by (simp add: refs_def unat_gt_0)
    qed
    show "\<exists>i\<in>?I. b = b_blockno (bufs s ! i)" if "b \<in> {b. refs s b \<noteq> 0}" for b
    proof -
      from that obtain i where i: "slot s b = Some i" "b_refcnt (bufs s ! i) \<noteq> 0"
        by (auto simp: refs_def unat_gt_0 split: option.splits)
      then show ?thesis using slot_Some [OF inv] by (auto simp: holds_def)
    qed
  qed
  then show ?thesis by (simp add: busy_def bij_betw_same_card)
qed

section \<open>The cache at boot\<close>

text \<open>\<^verbatim>\<open>binit\<close> links the zeroed buffers and leaves a cache that satisfies the invariant and shows the disk.\<close>

lemma binit_fold:
  assumes len: "length bs = Suc NBUF" and k: "k \<le> NBUF"
  defines "g \<equiv> \<lambda>b bs. link_front b (bs[b := (bs ! b)\<lparr>b_lock := initsleeplock\<rparr>])"
  defines "bs0 \<equiv> bs[NBUF := (bs ! NBUF)\<lparr>b_prev := NBUF, b_next := NBUF\<rparr>]"
  shows "length (fold g [0..<k] bs0) = Suc NBUF \<and>
    linked (\<lambda>i. b_next (fold g [0..<k] bs0 ! i)) (\<lambda>i. b_prev (fold g [0..<k] bs0 ! i)) NBUF (rev [0..<k]) NBUF \<and>
    (\<forall>j<NBUF. core (fold g [0..<k] bs0 ! j) = (if j < k then core ((bs ! j)\<lparr>b_lock := initsleeplock\<rparr>) else core (bs ! j)))"
  using k
proof (induction k)
  case 0
  then show ?case using len by (simp add: bs0_def)
next
  case (Suc k)
  let ?bs = "fold g [0..<k] bs0"
  let ?bs1 = "?bs[k := (?bs ! k)\<lparr>b_lock := initsleeplock\<rparr>]"
  have IH: "length ?bs = Suc NBUF"
    "linked (\<lambda>i. b_next (?bs ! i)) (\<lambda>i. b_prev (?bs ! i)) NBUF (rev [0..<k]) NBUF"
    "\<forall>j<NBUF. core (?bs ! j) = (if j < k then core ((bs ! j)\<lparr>b_lock := initsleeplock\<rparr>) else core (bs ! j))"
    using Suc by auto
  have kN: "k < NBUF" using Suc.prems by simp
  have n1: "b_next (?bs1 ! i) = b_next (?bs ! i)" "b_prev (?bs1 ! i) = b_prev (?bs ! i)" for i
    using kN IH(1) by (cases "i = k"; simp)+
  have lk: "linked (\<lambda>i. b_next (?bs1 ! i)) (\<lambda>i. b_prev (?bs1 ! i)) NBUF (rev [0..<k]) NBUF"
    unfolding n1 by (rule IH(2))
  have f: "b_next (?bs1 ! NBUF) \<le> NBUF"
    using linked_range(1) [OF lk, of NBUF] kN by (auto intro: less_imp_le)
  have len1: "length ?bs1 = Suc NBUF" using IH(1) by simp
  note fr = front_linked [OF len1 kN f]
  have "distinct (k # NBUF # rev [0..<k])" using kN by auto
  note ins = linked_insert [OF lk this]
  have le: "x \<le> NBUF" if "x \<in> insert NBUF (set (k # rev [0..<k]))" for x using that kN by auto
  have "linked (\<lambda>i. b_next (link_front k ?bs1 ! i)) (\<lambda>i. b_prev (link_front k ?bs1 ! i)) NBUF (k # rev [0..<k]) NBUF"
    by (rule linked_cong [THEN iffD2, OF _ _ ins]) (rule fr(3,4), erule le)+
  moreover have "core (link_front k ?bs1 ! j) =
      (if j < Suc k then core ((bs ! j)\<lparr>b_lock := initsleeplock\<rparr>) else core (bs ! j))" if j: "j < NBUF" for j
  proof -
    have "core (link_front k ?bs1 ! j) = core (?bs1 ! j)" using fr(2) j by simp
    also have "\<dots> = (if j = k then core ((?bs ! k)\<lparr>b_lock := initsleeplock\<rparr>) else core (?bs ! j))"
      using IH(1) kN by simp
    also have "core ((?bs ! k)\<lparr>b_lock := initsleeplock\<rparr>) = core ((bs ! k)\<lparr>b_lock := initsleeplock\<rparr>)"
      using IH(3) kN by (auto simp: core_def dest!: spec [of _ k])
        (metis (no_types, lifting) buf.ext_inject buf.surjective buf.update_convs)
    finally show ?thesis using IH(3) j by auto
  qed
  ultimately show ?case using fr(1) by (simp add: g_def)
qed

lemma binit_spec:
  assumes len: "length (bufs s) = Suc NBUF" and c: "cur s < length (procs s)"
    and z: "\<forall>j<NBUF. b_refcnt (bufs s ! j) = 0 \<and> b_dev (bufs s ! j) \<noteq> ROOTDEV"
  shows "binv (binit s)" "cont (binit s) = disk s" "refs (binit s) b = 0" "held (binit s) = {}" "mine (binit s) = {}"
    "binit s = s\<lparr>bufs := bufs (binit s)\<rparr>"
proof -
  note f = binit_fold [OF len order_refl]
  let ?bs = "bufs (binit s)"
  have core: "core (?bs ! j) = core ((bufs s ! j)\<lparr>b_lock := initsleeplock\<rparr>)" if "j < NBUF" for j
    using f that by (simp add: binit_def Let_def)
  have fields: "b_refcnt (?bs ! j) = 0" "b_dev (?bs ! j) \<noteq> ROOTDEV" "\<not> sl_locked (b_lock (?bs ! j))" if "j < NBUF" for j
    using core_cong [OF core [OF that]] z that by (simp_all add: initsleeplock_def)
  have nh: "\<not> holds (?bs ! j) b" if "j < NBUF" for j b using fields(2) [OF that] by (simp add: holds_def)
  have "lru ?bs (rev [0..<NBUF])" using f by (auto simp: lru_def binit_def Let_def)
  then show inv: "binv (binit s)"
    unfolding binv_def using fields nh c by (auto simp: binit_def Let_def)
  have sl: "slot (binit s) b = None" for b using nh by (simp add: slot_None)
  show "cont (binit s) = disk s" by (simp add: fun_eq_iff cont_def sl) (simp add: binit_def Let_def)
  show "refs (binit s) b = 0" "held (binit s) = {}" "mine (binit s) = {}"
    by (simp_all add: refs_def held_def mine_def sl)
  show "binit s = s\<lparr>bufs := bufs (binit s)\<rparr>" by (simp add: binit_def Let_def)
qed

section \<open>Contracts\<close>

text \<open>The postconditions of the operations in one predicate each, for the proofs of the clients.\<close>

definition bread_post :: "'z kbio_scheme \<Rightarrow> uint32 \<Rightarrow> nat \<Rightarrow> 'z kbio_scheme \<Rightarrow> bool" where
  "bread_post s bno i s' \<longleftrightarrow> binv s' \<and> slot s' bno = Some i \<and> i < NBUF \<and> b_data (bufs s' ! i) = cont s bno \<and>
     b_valid (bufs s' ! i) \<and> cont s' = cont s \<and> refs s' = (refs s)(bno := Suc (refs s bno)) \<and>
     held s' = insert bno (held s) \<and> mine s' = insert bno (mine s) \<and>
     busy s' = (if refs s bno = 0 then Suc (busy s) else busy s) \<and> s' = s\<lparr>bufs := bufs s'\<rparr> \<and>
     (\<forall>b j. b \<noteq> bno \<longrightarrow> slot s b = Some j \<longrightarrow> refs s b \<noteq> 0 \<longrightarrow> slot s' b = Some j \<and> bufs s' ! j = bufs s ! j)"

lemma bread_ok:
  assumes "binv s" "bno \<notin> held s" "refs s bno \<noteq> 0 \<or> busy s < NBUF" "refs s bno < 2 ^ 32 - 1"
  shows "\<exists>i s'. bread ROOTDEV bno s = Ok (i, s') \<and> bread_post s bno i s'"
proof (rule bread_spec [OF assms])
  fix i s'
  assume r: "bread ROOTDEV bno s = Ok (i, s')" "binv s'" "slot s' bno = Some i" "i < NBUF"
    "b_data (bufs s' ! i) = cont s bno" "b_valid (bufs s' ! i)" "cont s' = cont s"
    "refs s' = (refs s)(bno := Suc (refs s bno))" "held s' = insert bno (held s)" "mine s' = insert bno (mine s)"
    "busy s' = (if refs s bno = 0 then Suc (busy s) else busy s)" "s' = s\<lparr>bufs := bufs s'\<rparr>"
    and sl: "\<And>b. b \<noteq> bno \<Longrightarrow> refs s b \<noteq> 0 \<Longrightarrow> slot s' b = slot s b"
    and o: "\<And>j. j \<noteq> i \<Longrightarrow> bufs s' ! j = bufs s ! j"
  have "slot s' b = Some j \<and> bufs s' ! j = bufs s ! j"
    if "b \<noteq> bno" "slot s b = Some j" "refs s b \<noteq> 0" for b j
  proof -
    have "slot s' b = Some j" using sl that by simp
    moreover from this have "j \<noteq> i" using r(3) that(1) slot_Some [OF r(2)] by (auto simp: holds_def)
    ultimately show ?thesis using o by simp
  qed
  with r show ?thesis unfolding bread_post_def by blast
qed

definition bwrite_post :: "'z kbio_scheme \<Rightarrow> uint32 \<Rightarrow> 'z kbio_scheme \<Rightarrow> bool" where
  "bwrite_post s bno s' \<longleftrightarrow> binv s' \<and> slot s' = slot s \<and> cont s' = cont s \<and> refs s' = refs s \<and> held s' = held s \<and>
     mine s' = mine s \<and> busy s' = busy s \<and> disk s' = (disk s)(bno := cont s bno) \<and>
     dwrites s' = dwrites s @ [(bno, cont s bno)] \<and> s' = s\<lparr>disk := disk s', dwrites := dwrites s'\<rparr>"

lemma bwrite_ok:
  assumes "binv s" "bno \<in> mine s" "slot s bno = Some i" "b_valid (bufs s ! i)"
  shows "\<exists>s'. bwrite i s = Ok s' \<and> bwrite_post s bno s'"
  by (rule bwrite_spec [OF assms]) (unfold bwrite_post_def, blast)

definition brelse_post :: "'z kbio_scheme \<Rightarrow> uint32 \<Rightarrow> 'z kbio_scheme \<Rightarrow> bool" where
  "brelse_post s bno s' \<longleftrightarrow> binv s' \<and> slot s' = slot s \<and> cont s' = cont s \<and>
     refs s' = (refs s)(bno := refs s bno - 1) \<and> held s' = held s - {bno} \<and> mine s' = mine s - {bno} \<and>
     busy s' = (if refs s bno = 1 then busy s - 1 else busy s) \<and> disk s' = disk s \<and> dwrites s' = dwrites s \<and>
     same_procs s s' \<and> s' = s\<lparr>bufs := bufs s', procs := procs s'\<rparr> \<and>
     (\<forall>j<NBUF. b_valid (bufs s' ! j) = b_valid (bufs s ! j))"

lemma brelse_ok:
  assumes "binv s" "bno \<in> mine s" "slot s bno = Some i" "refs s bno = 1 \<Longrightarrow> cont s bno = disk s bno"
  shows "\<exists>s'. brelse i s = Ok s' \<and> brelse_post s bno s'"
  by (rule brelse_spec [OF assms]) (assumption, unfold brelse_post_def, blast)

end
