(* ===== verification/Log.thy ===== *)
theory Log
  imports BioSpec
begin

text \<open>
  The write-ahead log of \<^verbatim>\<open>kernel/log.c\<close>. A file system operation brackets its writes with
  \<^verbatim>\<open>begin_op\<close> and \<^verbatim>\<open>end_op\<close>; \<^verbatim>\<open>log_write\<close> pins a modified buffer instead of writing it; the last
  \<^verbatim>\<open>end_op\<close> commits: the pinned blocks go to the log, then the header, then to their home
  locations, then the header is cleared. The C array \<^verbatim>\<open>block[LOGSIZE]\<close> is the list \<open>lh_block\<close>.
\<close>

section \<open>State\<close>

definition MAXOPBLOCKS :: nat where "MAXOPBLOCKS = 10"
definition LOGSIZE :: nat where "LOGSIZE = MAXOPBLOCKS * 3"

record klog = kbio +
  lg_start :: uint32
  lg_size :: int
  lg_outstanding :: int
  lg_committing :: bool
  lg_dev :: uint32
  lh_n :: int
  lh_block :: "uint32 list"

section \<open>Operations\<close>

definition install_trans_body :: "bool \<Rightarrow> nat \<Rightarrow> 'z klog_scheme \<Rightarrow> 'z klog_scheme res" where
  "install_trans_body recovering tail s =
     and_then (bread (lg_dev s) (lg_start s + word_of_nat tail + 1) s) (\<lambda>(lbuf, s).
     and_then (bread (lg_dev s) (lh_block s ! tail) s) (\<lambda>(dbuf, s).
     let s = upd_buf dbuf (\<lambda>x. x\<lparr>b_data := b_data (bufs s ! lbuf)\<rparr>) s
     in and_then (bwrite dbuf s) (\<lambda>s.
     let s = if \<not> recovering then bunpin dbuf s else s
     in and_then (brelse lbuf s) (\<lambda>s. brelse dbuf s))))"

definition install_trans :: "bool \<Rightarrow> 'z klog_scheme \<Rightarrow> 'z klog_scheme res" where
  "install_trans recovering s = loop_res (install_trans_body recovering) [0..<nat (lh_n s)] s"

text \<open>The log header inside a block: the count, then the block numbers.\<close>

definition hdr_n :: "block \<Rightarrow> int" where
  "hdr_n d = sint (rd32 d 0)"

definition hdr_block :: "block \<Rightarrow> nat \<Rightarrow> uint32" where
  "hdr_block d i = rd32 d (4 + 4 * i)"

definition read_head :: "'z klog_scheme \<Rightarrow> 'z klog_scheme res" where
  "read_head s =
     and_then (bread (lg_dev s) (lg_start s) s) (\<lambda>(b, s).
     let d = b_data (bufs s ! b);
         s = s\<lparr>lh_n := hdr_n d\<rparr>;
         s = s\<lparr>lh_block := fold (\<lambda>i bl. bl[i := hdr_block d i]) [0..<nat (lh_n s)] (lh_block s)\<rparr>
     in brelse b s)"

definition put_head :: "int \<Rightarrow> uint32 list \<Rightarrow> block \<Rightarrow> block" where
  "put_head n bl d = fold (\<lambda>i d. wr32 d (4 + 4 * i) (bl ! i)) [0..<nat n] (wr32 d 0 (word_of_int n))"

definition write_head :: "'z klog_scheme \<Rightarrow> 'z klog_scheme res" where
  "write_head s =
     and_then (bread (lg_dev s) (lg_start s) s) (\<lambda>(b, s).
     let s = upd_buf b (\<lambda>x. x\<lparr>b_data := put_head (lh_n s) (lh_block s) (b_data x)\<rparr>) s
     in and_then (bwrite b s) (\<lambda>s. brelse b s))"

definition recover_from_log :: "'z klog_scheme \<Rightarrow> 'z klog_scheme res" where
  "recover_from_log s =
     and_then (read_head s) (\<lambda>s.
     and_then (install_trans True s) (\<lambda>s.
     write_head (s\<lparr>lh_n := 0\<rparr>)))"

text \<open>The size check of \<^verbatim>\<open>initlog\<close> compares two constants: 124 bytes of header against 1024.\<close>

definition initlog :: "uint32 \<Rightarrow> uint32 \<Rightarrow> uint32 \<Rightarrow> 'z klog_scheme \<Rightarrow> 'z klog_scheme res" where
  "initlog dev logstart nlog s =
     (if 4 + 4 * LOGSIZE \<ge> BSIZE then Panic ''initlog: too big logheader''
      else recover_from_log (s\<lparr>lg_start := logstart, lg_size := sint nlog, lg_dev := dev\<rparr>))"

definition begin_op :: "'z klog_scheme \<Rightarrow> 'z klog_scheme res" where
  "begin_op s =
     (if lg_committing s then Sleep Chan_log
      else if lh_n s + (lg_outstanding s + 1) * int MAXOPBLOCKS > int LOGSIZE then Sleep Chan_log
      else Ok (s\<lparr>lg_outstanding := lg_outstanding s + 1\<rparr>))"

definition write_log_body :: "nat \<Rightarrow> 'z klog_scheme \<Rightarrow> 'z klog_scheme res" where
  "write_log_body tail s =
     and_then (bread (lg_dev s) (lg_start s + word_of_nat tail + 1) s) (\<lambda>(to, s).
     and_then (bread (lg_dev s) (lh_block s ! tail) s) (\<lambda>(from, s).
     let s = upd_buf to (\<lambda>x. x\<lparr>b_data := b_data (bufs s ! from)\<rparr>) s
     in and_then (bwrite to s) (\<lambda>s. and_then (brelse from s) (\<lambda>s. brelse to s))))"

definition write_log :: "'z klog_scheme \<Rightarrow> 'z klog_scheme res" where
  "write_log s = loop_res write_log_body [0..<nat (lh_n s)] s"

definition commit :: "'z klog_scheme \<Rightarrow> 'z klog_scheme res" where
  "commit s =
     (if lh_n s > 0
      then and_then (write_log s) (\<lambda>s.
           and_then (write_head s) (\<lambda>s.
           and_then (install_trans False s) (\<lambda>s.
           write_head (s\<lparr>lh_n := 0\<rparr>))))
      else Ok s)"

definition end_op :: "'z klog_scheme \<Rightarrow> 'z klog_scheme res" where
  "end_op s =
     (let s = s\<lparr>lg_outstanding := lg_outstanding s - 1\<rparr>
      in if lg_committing s then Panic ''log.committing''
         else if lg_outstanding s = 0
         then and_then (commit (s\<lparr>lg_committing := True\<rparr>)) (\<lambda>s.
                Ok (wakeup Chan_log (s\<lparr>lg_committing := False\<rparr>)))
         else Ok (wakeup Chan_log s))"

text \<open>Where \<^verbatim>\<open>log_write\<close>'s loop stops: at the block if it is in the log already, else at the end.\<close>

fun absorb :: "uint32 \<Rightarrow> uint32 list \<Rightarrow> nat" where
  "absorb bno [] = 0"
| "absorb bno (x # xs) = (if x = bno then 0 else Suc (absorb bno xs))"

definition log_write :: "nat \<Rightarrow> 'z klog_scheme \<Rightarrow> 'z klog_scheme res" where
  "log_write b s =
     (if lh_n s \<ge> int LOGSIZE \<or> lh_n s \<ge> lg_size s - 1 then Panic ''too big a transaction''
      else if lg_outstanding s < 1 then Panic ''log_write outside of trans''
      else let bno = b_blockno (bufs s ! b);
               i = absorb bno (take (nat (lh_n s)) (lh_block s));
               s = s\<lparr>lh_block := (lh_block s)[i := bno]\<rparr>
           in Ok (if int i = lh_n s then (bpin b s)\<lparr>lh_n := lh_n s + 1\<rparr> else s))"

end
