(* ===== verification/LogSpec.thy ===== *)
theory LogSpec
  imports Log
begin

text \<open>
  Correctness of the log: what \<^verbatim>\<open>commit\<close> does to the disk, what recovery makes of a disk it
  finds after a crash, and the two together: a crash at any point of a commit leaves, after
  recovery, either all of the transaction's blocks or none of them.
\<close>

section \<open>Frames\<close>

definition lgf :: "'z klog_scheme \<Rightarrow> uint32 \<times> int \<times> int \<times> bool \<times> uint32 \<times> int \<times> uint32 list" where
  "lgf s = (lg_start s, lg_size s, lg_outstanding s, lg_committing s, lg_dev s, lh_n s, lh_block s)"

lemma lgf_eq:
  assumes "lgf s' = lgf s"
  shows "lg_start s' = lg_start s" "lg_size s' = lg_size s" "lg_outstanding s' = lg_outstanding s"
    "lg_committing s' = lg_committing s" "lg_dev s' = lg_dev s" "lh_n s' = lh_n s" "lh_block s' = lh_block s"
  using assms by (auto simp: lgf_def)

lemma lgf_frame:
  "s' = s\<lparr>bufs := B\<rparr> \<Longrightarrow> lgf s' = lgf s" "s' = s\<lparr>bufs := B, procs := P\<rparr> \<Longrightarrow> lgf s' = lgf s"
  "s' = s\<lparr>disk := D, dwrites := W\<rparr> \<Longrightarrow> lgf s' = lgf s"
  by (simp_all add: lgf_def)

lemma disk_frame:
  "s' = s\<lparr>bufs := B\<rparr> \<Longrightarrow> disk s' = disk s \<and> dwrites s' = dwrites s \<and> same_procs s s'"
  "s' = s\<lparr>disk := D, dwrites := W\<rparr> \<Longrightarrow> same_procs s s'"
  by (simp_all add: same_procs_def)

lemma mine_held: "mine s \<subseteq> held s"
  by (auto simp: mine_def held_def holdingsleep_def)

lemma clean_block:
  assumes "binv s" "refs s b = 0"
  shows "cont s b = disk s b"
proof (cases "slot s b")
  case (Some i)
  then have "i < NBUF" "holds (bufs s ! i) b" using slot_Some [OF assms(1)] by auto
  then show ?thesis
    using binvD(6) [OF assms(1), of i b] Some assms(2) by (auto simp: cont_def refs_def unat_eq_0)
qed (simp add: cont_def)

text \<open>The contracts of the cache operations with the frame for the log.\<close>

lemma bread_postD:
  assumes "bread_post s bno i (s' :: 'z klog_scheme)"
  shows "binv s'" "slot s' bno = Some i" "b_valid (bufs s' ! i)" "cont s' = cont s"
    "refs s' = (refs s)(bno := Suc (refs s bno))" "held s' = insert bno (held s)" "mine s' = insert bno (mine s)"
    "busy s' = (if refs s bno = 0 then Suc (busy s) else busy s)" "disk s' = disk s" "dwrites s' = dwrites s"
    "lgf s' = lgf s" "same_procs s s'" "b_data (bufs s' ! i) = cont s bno"
    "b \<noteq> bno \<Longrightarrow> slot s b = Some j \<Longrightarrow> refs s b \<noteq> 0 \<Longrightarrow> slot s' b = Some j \<and> bufs s' ! j = bufs s ! j"
proof -
  have eq: "s' = s\<lparr>bufs := bufs s'\<rparr>" using assms unfolding bread_post_def by blast
  show "disk s' = disk s" "dwrites s' = dwrites s" "lgf s' = lgf s" "same_procs s s'"
    using disk_frame(1) [OF eq] lgf_frame(1) [OF eq] by simp_all
qed (use assms in \<open>unfold bread_post_def, blast\<close>)+

lemma bwrite_postD:
  assumes "bwrite_post s bno (s' :: 'z klog_scheme)"
  shows "binv s'" "slot s' = slot s" "cont s' = cont s" "refs s' = refs s" "held s' = held s" "mine s' = mine s"
    "busy s' = busy s" "disk s' = (disk s)(bno := cont s bno)" "dwrites s' = dwrites s @ [(bno, cont s bno)]"
    "lgf s' = lgf s" "same_procs s s'"
proof -
  have eq: "s' = s\<lparr>disk := disk s', dwrites := dwrites s'\<rparr>" using assms unfolding bwrite_post_def by blast
  show "lgf s' = lgf s" "same_procs s s'"
    using disk_frame(2) [OF eq] lgf_frame(3) [OF eq] by simp_all
qed (use assms in \<open>unfold bwrite_post_def, blast\<close>)+

lemma brelse_postD:
  assumes "brelse_post s bno (s' :: 'z klog_scheme)"
  shows "binv s'" "slot s' = slot s" "cont s' = cont s" "refs s' = (refs s)(bno := refs s bno - 1)"
    "held s' = held s - {bno}" "mine s' = mine s - {bno}" "busy s' = (if refs s bno = 1 then busy s - 1 else busy s)"
    "disk s' = disk s" "dwrites s' = dwrites s" "lgf s' = lgf s" "same_procs s s'"
proof -
  have eq: "s' = s\<lparr>bufs := bufs s', procs := procs s'\<rparr>" using assms unfolding brelse_post_def by blast
  show "lgf s' = lgf s" by (rule lgf_frame(2) [OF eq])
qed (use assms in \<open>unfold brelse_post_def, blast\<close>)+

section \<open>One block\<close>

text \<open>
  Both copying loops read two blocks and store the second one's data into the first one's
  buffer; this is the state they reach.
\<close>

definition copied :: "'z klog_scheme \<Rightarrow> uint32 \<Rightarrow> uint32 \<Rightarrow> nat \<Rightarrow> nat \<Rightarrow> 'z klog_scheme \<Rightarrow> bool" where
  "copied s a b i j s' \<longleftrightarrow> binv s' \<and> slot s' a = Some i \<and> slot s' b = Some j \<and>
     b_valid (bufs s' ! i) \<and> b_valid (bufs s' ! j) \<and> cont s' = (cont s)(a := cont s b) \<and>
     refs s' = (refs s)(a := Suc (refs s a), b := Suc (refs s b)) \<and> held s' = {a, b} \<and> mine s' = {a, b} \<and>
     disk s' = disk s \<and> dwrites s' = dwrites s \<and> lgf s' = lgf s \<and> same_procs s s'"

lemma copy_into:
  assumes inv: "binv s" and m: "mine s = {a, b}" "held s = {a, b}" "a \<noteq> b"
    and sl: "slot s a = Some i" "slot s b = Some j" and v: "b_valid (bufs s ! i)" "b_valid (bufs s ! j)"
    and c: "cont s = cont s0" and r: "refs s = (refs s0)(a := Suc (refs s0 a), b := Suc (refs s0 b))"
    and f: "disk s = disk s0" "dwrites s = dwrites s0" "lgf s = lgf s0" "same_procs s0 s"
  shows "copied s0 a b i j (upd_buf i (\<lambda>x. x\<lparr>b_data := b_data (bufs s ! j)\<rparr>) s)"
proof -
  let ?s' = "upd_buf i (\<lambda>x. x\<lparr>b_data := b_data (bufs s ! j)\<rparr>) s"
  have d: "b_data (bufs s ! j) = cont s b" using sl v by (simp add: cont_def)
  have am: "a \<in> mine s" using m by simp
  note w = write_data_spec [where f = "\<lambda>_. b_data (bufs s ! j)", OF inv am sl(1) v(1) refl]
  have "i \<noteq> j" using sl slot_Some [OF inv] m(3) by (auto simp: holds_def)
  then have "b_valid (bufs ?s' ! j)" using w(10) [of j] v(2) by simp
  with w c r d m sl f disk_frame(1) [OF w(9)] lgf_frame(1) [OF w(9)] same_procs_trans [of s0 s ?s'] show ?thesis
    unfolding copied_def by auto
qed

lemma read_two:
  assumes inv: "binv s" and held: "held s = {}" and ab: "a \<noteq> b"
    and room: "refs s a \<noteq> 0 \<or> busy s < NBUF" "refs s b \<noteq> 0 \<or> (if refs s a = 0 then Suc (busy s) else busy s) < NBUF"
    and bound: "refs s a < 2 ^ 32 - 1" "refs s b < 2 ^ 32 - 1"
  obtains i s1 j s2 where "bread ROOTDEV a s = Ok (i, s1)" "bread ROOTDEV b s1 = Ok (j, s2)"
    "binv s2" "mine s2 = {a, b}" "held s2 = {a, b}" "slot s2 a = Some i" "slot s2 b = Some j"
    "b_valid (bufs s2 ! i)" "b_valid (bufs s2 ! j)" "cont s2 = cont s"
    "refs s2 = (refs s)(a := Suc (refs s a), b := Suc (refs s b))"
    "disk s2 = disk s" "dwrites s2 = dwrites s" "lgf s2 = lgf s" "same_procs s s2" "lgf s1 = lgf s"
proof -
  have m: "mine s = {}" using mine_held [of s] held by auto
  obtain i s1 where r1: "bread ROOTDEV a s = Ok (i, s1)" "bread_post s a i s1"
    using bread_ok [OF inv _ room(1) bound(1)] held by auto
  note p1 = bread_postD [OF r1(2)]
  have "b \<notin> held s1" "refs s1 b \<noteq> 0 \<or> busy s1 < NBUF" "refs s1 b < 2 ^ 32 - 1"
    using p1(5,6,8) ab room bound held by simp_all
  from bread_ok [OF p1(1) this] obtain j s2 where r2: "bread ROOTDEV b s1 = Ok (j, s2)" "bread_post s1 b j s2"
    by blast
  note p2 = bread_postD [OF r2(2)]
  have keep: "slot s2 a = Some i" "bufs s2 ! i = bufs s1 ! i"
    using p2(14) [OF ab p1(2)] p1(5) by simp_all
  show thesis
  proof (rule that [OF r1(1) r2(1) p2(1)])
    show "mine s2 = {a, b}" "held s2 = {a, b}" using p1(6,7) p2(6,7) held m by auto
    show "slot s2 a = Some i" "slot s2 b = Some j" "b_valid (bufs s2 ! i)" "b_valid (bufs s2 ! j)"
      using keep p1(3) p2(2,3) by simp_all
    show "cont s2 = cont s" "refs s2 = (refs s)(a := Suc (refs s a), b := Suc (refs s b))"
      using p1(4,5) p2(4,5) ab by (auto simp: fun_eq_iff)
    show "disk s2 = disk s" "dwrites s2 = dwrites s" "lgf s2 = lgf s" "lgf s1 = lgf s"
      using p1(9-11) p2(9-11) by simp_all
    show "same_procs s s2" by (rule same_procs_trans [OF p1(12) p2(12)])
  qed
qed

text \<open>\<^verbatim>\<open>write_log\<close>: a pinned block goes to its log block.\<close>

lemma write_log_body_ok:
  assumes inv: "binv s" "held s = {}" "lg_dev s = ROOTDEV"
    and a: "a = lg_start s + word_of_nat t + 1" and b: "b = lh_block s ! t" and ab: "a \<noteq> b"
    and r: "refs s a = 0" "refs s b = 1" "busy s < NBUF"
  shows "\<exists>s'. write_log_body t s = Ok s' \<and> binv s' \<and> held s' = {} \<and> refs s' = refs s \<and>
    cont s' = (cont s)(a := cont s b) \<and> disk s' = (disk s)(a := cont s b) \<and>
    dwrites s' = dwrites s @ [(a, cont s b)] \<and> lgf s' = lgf s \<and> same_procs s s'"
proof -
  have room: "refs s a \<noteq> 0 \<or> busy s < NBUF" "refs s b \<noteq> 0 \<or> (if refs s a = 0 then Suc (busy s) else busy s) < NBUF"
    "refs s a < 2 ^ 32 - 1" "refs s b < 2 ^ 32 - 1" using r by simp_all
  obtain i s1 j s2 where rt: "bread ROOTDEV a s = Ok (i, s1)" "bread ROOTDEV b s1 = Ok (j, s2)"
    "binv s2" "mine s2 = {a, b}" "held s2 = {a, b}" "slot s2 a = Some i" "slot s2 b = Some j"
    "b_valid (bufs s2 ! i)" "b_valid (bufs s2 ! j)" "cont s2 = cont s"
    "refs s2 = (refs s)(a := Suc (refs s a), b := Suc (refs s b))"
    "disk s2 = disk s" "dwrites s2 = dwrites s" "lgf s2 = lgf s" "same_procs s s2" "lgf s1 = lgf s"
    by (rule read_two [OF inv(1,2) ab room])
  define s3 where "s3 = upd_buf i (\<lambda>x. x\<lparr>b_data := b_data (bufs s2 ! j)\<rparr>) s2"
  have c3: "copied s a b i j s3"
    unfolding s3_def by (rule copy_into [OF rt(3,4,5) ab rt(6-15)])
  then have p3: "binv s3" "slot s3 a = Some i" "slot s3 b = Some j" "b_valid (bufs s3 ! i)"
    "cont s3 = (cont s)(a := cont s b)" "refs s3 = (refs s)(a := 1, b := 2)" "held s3 = {a, b}" "mine s3 = {a, b}"
    "disk s3 = disk s" "dwrites s3 = dwrites s" "lgf s3 = lgf s" "same_procs s s3"
    using r by (simp_all add: copied_def numeral_2_eq_2)
  have "a \<in> mine s3" using p3 by simp
  from bwrite_ok [OF p3(1) this p3(2,4)] obtain s4 where w: "bwrite i s3 = Ok s4" "bwrite_post s3 a s4" by blast
  then have p4: "binv s4" "slot s4 = slot s3" "cont s4 = cont s3" "refs s4 = refs s3" "held s4 = held s3" "mine s4 = mine s3"
    "disk s4 = (disk s)(a := cont s b)" "dwrites s4 = dwrites s @ [(a, cont s b)]" "lgf s4 = lgf s" "same_procs s s4"
    using p3 bwrite_postD [OF w(2)] same_procs_trans [of s s3 s4] by simp_all
  have "b \<in> mine s4" "slot s4 b = Some j" "refs s4 b = 1 \<Longrightarrow> cont s4 b = disk s4 b"
    using p4 p3 ab by simp_all
  from brelse_ok [OF p4(1) this] obtain s5 where x: "brelse j s4 = Ok s5" "brelse_post s4 b s5" by blast
  then have p5: "binv s5" "slot s5 = slot s3" "cont s5 = cont s3" "refs s5 = (refs s)(a := 1, b := 1)" "held s5 = {a}" "mine s5 = {a}"
    "disk s5 = disk s4" "dwrites s5 = dwrites s4" "lgf s5 = lgf s" "same_procs s s5"
    using p3 p4 ab brelse_postD [OF x(2)] same_procs_trans [of s s4 s5]
    by (auto simp: fun_eq_iff)
  have "a \<in> mine s5" "slot s5 a = Some i" "refs s5 a = 1 \<Longrightarrow> cont s5 a = disk s5 a"
    using p3 p4 p5 ab by simp_all
  from brelse_ok [OF p5(1) this] obtain s6 where y: "brelse i s5 = Ok s6" "brelse_post s5 a s6" by blast
  then have p6: "binv s6" "cont s6 = cont s3" "refs s6 = refs s" "held s6 = {}"
    "disk s6 = disk s4" "dwrites s6 = dwrites s4" "lgf s6 = lgf s" "same_procs s s6"
    using p5 r ab brelse_postD [OF y(2)] same_procs_trans [of s s5 s6]
    by (auto simp: fun_eq_iff)
  have "write_log_body t s = Ok s6"
    unfolding write_log_body_def inv(3) a [symmetric]
    using rt(1,2) lgf_eq [OF rt(16)] inv(3) b w(1) x(1) y(1) s3_def by (simp add: Let_def)
  then show ?thesis using p6 p4 p3 by auto
qed

text \<open>\<^verbatim>\<open>install_trans\<close>: a log block goes to its home location.\<close>

lemma install_trans_body_ok:
  assumes inv: "binv s" "held s = {}" "lg_dev s = ROOTDEV"
    and a: "a = lg_start s + word_of_nat t + 1" and b: "b = lh_block s ! t" and ab: "a \<noteq> b"
    and r: "refs s a = 0" "refs s b = (if recovering then 0 else 1)"
    and room: "busy s < NBUF" "recovering \<Longrightarrow> Suc (busy s) < NBUF"
  shows "\<exists>s'. install_trans_body recovering t s = Ok s' \<and> binv s' \<and> held s' = {} \<and> refs s' = (refs s)(b := 0) \<and>
    cont s' = (cont s)(b := cont s a) \<and> disk s' = (disk s)(b := cont s a) \<and>
    dwrites s' = dwrites s @ [(b, cont s a)] \<and> lgf s' = lgf s \<and> same_procs s s'"
proof -
  have rm: "refs s a \<noteq> 0 \<or> busy s < NBUF" "refs s b \<noteq> 0 \<or> (if refs s a = 0 then Suc (busy s) else busy s) < NBUF"
    "refs s a < 2 ^ 32 - 1" "refs s b < 2 ^ 32 - 1" using r room by (simp_all split: if_splits)
  obtain i s1 j s2 where rt: "bread ROOTDEV a s = Ok (i, s1)" "bread ROOTDEV b s1 = Ok (j, s2)"
    "binv s2" "mine s2 = {a, b}" "held s2 = {a, b}" "slot s2 a = Some i" "slot s2 b = Some j"
    "b_valid (bufs s2 ! i)" "b_valid (bufs s2 ! j)" "cont s2 = cont s"
    "refs s2 = (refs s)(a := Suc (refs s a), b := Suc (refs s b))"
    "disk s2 = disk s" "dwrites s2 = dwrites s" "lgf s2 = lgf s" "same_procs s s2" "lgf s1 = lgf s"
    by (rule read_two [OF inv(1,2) ab rm])
  define s3 where "s3 = upd_buf j (\<lambda>x. x\<lparr>b_data := b_data (bufs s2 ! i)\<rparr>) s2"
  have "copied s b a j i s3"
    unfolding s3_def using rt(4,5,11) ab
    by (intro copy_into rt(3,6-10,12-15)) (auto simp: fun_upd_twist insert_commute)
  then have p3: "binv s3" "slot s3 a = Some i" "slot s3 b = Some j" "b_valid (bufs s3 ! j)"
    "cont s3 = (cont s)(b := cont s a)" "refs s3 = (refs s)(a := 1, b := Suc (refs s b))" "held s3 = {a, b}" "mine s3 = {a, b}"
    "disk s3 = disk s" "dwrites s3 = dwrites s" "lgf s3 = lgf s" "same_procs s s3"
    using r(1) ab by (auto simp: copied_def fun_upd_twist insert_commute)
  have "b \<in> mine s3" using p3 by simp
  from bwrite_ok [OF p3(1) this p3(3,4)] obtain s4 where w: "bwrite j s3 = Ok s4" "bwrite_post s3 b s4" by blast
  then have p4: "binv s4" "slot s4 = slot s3" "cont s4 = cont s3" "refs s4 = refs s3" "held s4 = held s3" "mine s4 = mine s3"
    "disk s4 = (disk s)(b := cont s a)" "dwrites s4 = dwrites s @ [(b, cont s a)]" "lgf s4 = lgf s" "same_procs s s4"
    using p3 bwrite_postD [OF w(2)] same_procs_trans [of s s3 s4] by simp_all
  define s5 where "s5 = (if \<not> recovering then bunpin j s4 else s4)"
  have p5: "binv s5" "slot s5 = slot s3" "cont s5 = cont s3" "refs s5 = (refs s)(a := 1, b := 1)" "held s5 = {a, b}" "mine s5 = {a, b}"
    "disk s5 = disk s4" "dwrites s5 = dwrites s4" "lgf s5 = lgf s" "same_procs s s5"
  proof -
    have b4: "b \<in> mine s4" "slot s4 b = Some j" using p3 p4 by simp_all
    have gt: "1 < refs s4 b" if "\<not> recovering" using that p3 p4 r(2) by simp
    note u = bunpin_spec [OF p4(1) b4 gt]
    show "binv s5" "slot s5 = slot s3" "cont s5 = cont s3" "held s5 = {a, b}" "mine s5 = {a, b}"
      using u p3 p4 by (auto simp: s5_def)
    show "refs s5 = (refs s)(a := 1, b := 1)" using u(4) p3 p4 r(2) by (auto simp: s5_def fun_eq_iff)
    show "disk s5 = disk s4" "dwrites s5 = dwrites s4" "lgf s5 = lgf s" "same_procs s s5"
      using disk_frame(1) [OF u(8)] lgf_frame(1) [OF u(8)] p4 same_procs_trans [of s s4 "bunpin j s4"]
      by (auto simp: s5_def)
  qed
  have "a \<in> mine s5" "slot s5 a = Some i" "refs s5 a = 1 \<Longrightarrow> cont s5 a = disk s5 a"
  proof -
    show "a \<in> mine s5" "slot s5 a = Some i" using p3 p5 by simp_all
    have "cont s a = disk s a" by (rule clean_block [OF inv(1) r(1)])
    then show "cont s5 a = disk s5 a" using p3 p4 p5 ab by simp
  qed
  from brelse_ok [OF p5(1) this] obtain s6 where x: "brelse i s5 = Ok s6" "brelse_post s5 a s6" by blast
  then have p6: "binv s6" "slot s6 = slot s3" "cont s6 = cont s3" "refs s6 = (refs s)(a := 0, b := 1)" "held s6 = {b}" "mine s6 = {b}"
    "disk s6 = disk s4" "dwrites s6 = dwrites s4" "lgf s6 = lgf s" "same_procs s s6"
    using p5 ab brelse_postD [OF x(2)] same_procs_trans [of s s5 s6]
    by (auto simp: fun_eq_iff)
  have "b \<in> mine s6" "slot s6 b = Some j" "refs s6 b = 1 \<Longrightarrow> cont s6 b = disk s6 b"
    using p3 p4 p6 ab by simp_all
  from brelse_ok [OF p6(1) this] obtain s7 where y: "brelse j s6 = Ok s7" "brelse_post s6 b s7" by blast
  then have p7: "binv s7" "cont s7 = cont s3" "refs s7 = (refs s)(b := 0)" "held s7 = {}"
    "disk s7 = disk s4" "dwrites s7 = dwrites s4" "lgf s7 = lgf s" "same_procs s s7"
    using p6 r(1) ab brelse_postD [OF y(2)] same_procs_trans [of s s6 s7]
    by (auto simp: fun_eq_iff)
  have "install_trans_body recovering t s = Ok s7"
    unfolding install_trans_body_def inv(3) a [symmetric]
    using rt(1,2) lgf_eq [OF rt(16)] inv(3) b w(1) x(1) y(1) s3_def s5_def by (simp add: Let_def)
  then show ?thesis using p7 p4 p3 by auto
qed

text \<open>The header: reading it, and writing it.\<close>

lemma write_head_ok:
  assumes inv: "binv s" "held s = {}" "lg_dev s = ROOTDEV" and r: "refs s (lg_start s) = 0" "busy s < NBUF"
  defines "h \<equiv> put_head (lh_n s) (lh_block s) (disk s (lg_start s))"
  shows "\<exists>s'. write_head s = Ok s' \<and> binv s' \<and> held s' = {} \<and> refs s' = refs s \<and>
    cont s' = (cont s)(lg_start s := h) \<and> disk s' = (disk s)(lg_start s := h) \<and>
    dwrites s' = dwrites s @ [(lg_start s, h)] \<and> lgf s' = lgf s \<and> same_procs s s'"
proof -
  let ?a = "lg_start s"
  have m: "mine s = {}" using mine_held [of s] inv(2) by auto
  have "?a \<notin> held s" "refs s ?a \<noteq> 0 \<or> busy s < NBUF" "refs s ?a < 2 ^ 32 - 1" using inv r by simp_all
  from bread_ok [OF inv(1) this] obtain i s1 where r1: "bread ROOTDEV ?a s = Ok (i, s1)" "bread_post s ?a i s1" by blast
  note q1 = bread_postD [OF r1(2)]
  have p1: "binv s1" "slot s1 ?a = Some i" "b_valid (bufs s1 ! i)" "cont s1 = cont s"
    "refs s1 = (refs s)(?a := 1)" "held s1 = {?a}" "mine s1 = {?a}"
    using q1(1-7) inv(2) m r by simp_all
  have f1: "disk s1 = disk s" "lgf s1 = lgf s" "dwrites s1 = dwrites s" "same_procs s s1" by (rule q1)+
  define f where "f = put_head (lh_n s1) (lh_block s1)"
  define s2 where "s2 = upd_buf i (\<lambda>x. x\<lparr>b_data := f (b_data x)\<rparr>) s1"
  have "?a \<in> mine s1" using p1 by simp
  note w2 = write_data_spec [where f = f, OF p1(1) this p1(2,3) s2_def]
  have fh: "f (cont s ?a) = h"
    using lgf_eq [OF f1(2)] clean_block [OF inv(1) r(1)] by (simp add: f_def h_def)
  have p2: "binv s2" "slot s2 = slot s1" "cont s2 = (cont s)(?a := h)" "refs s2 = (refs s)(?a := 1)" "held s2 = {?a}" "mine s2 = {?a}"
    "b_valid (bufs s2 ! i)" "disk s2 = disk s" "dwrites s2 = dwrites s" "lgf s2 = lgf s" "same_procs s s2"
    using w2(1-8) p1 fh disk_frame(1) [OF w2(9)] lgf_frame(1) [OF w2(9)] f1 same_procs_trans [of s s1 s2] by auto
  have "?a \<in> mine s2" "slot s2 ?a = Some i" using p1 p2 by simp_all
  from bwrite_ok [OF p2(1) this p2(7)] obtain s3 where w: "bwrite i s2 = Ok s3" "bwrite_post s2 ?a s3" by blast
  then have p3: "binv s3" "slot s3 = slot s1" "cont s3 = (cont s)(?a := h)" "refs s3 = (refs s)(?a := 1)" "held s3 = {?a}" "mine s3 = {?a}"
    "disk s3 = (disk s)(?a := h)" "dwrites s3 = dwrites s @ [(?a, h)]" "lgf s3 = lgf s" "same_procs s s3"
    using p2 bwrite_postD [OF w(2)] same_procs_trans [of s s2 s3] by simp_all
  have "?a \<in> mine s3" "slot s3 ?a = Some i" "refs s3 ?a = 1 \<Longrightarrow> cont s3 ?a = disk s3 ?a" using p1 p3 by simp_all
  from brelse_ok [OF p3(1) this] obtain s4 where y: "brelse i s3 = Ok s4" "brelse_post s3 ?a s4" by blast
  then have p4: "binv s4" "cont s4 = (cont s)(?a := h)" "refs s4 = refs s" "held s4 = {}"
    "disk s4 = (disk s)(?a := h)" "dwrites s4 = dwrites s @ [(?a, h)]" "lgf s4 = lgf s" "same_procs s s4"
    using p3 r brelse_postD [OF y(2)] same_procs_trans [of s s3 s4]
    by (auto simp: fun_eq_iff)
  have "write_head s = Ok s4"
    unfolding write_head_def inv(3) using r1(1) w(1) y(1) s2_def f_def by (simp add: Let_def)
  then show ?thesis using p4 by blast
qed

end
