(* ===== verification/LogCrash.thy ===== *)
theory LogCrash
  imports LogSpec
begin

text \<open>
  The log as a whole: \<^verbatim>\<open>write_log\<close>, \<^verbatim>\<open>install_trans\<close> and \<^verbatim>\<open>commit\<close> as sequences of block writes, recovery
  from any disk with a well-formed log, and crash atomicity.
\<close>

section \<open>Sequences of block writes\<close>

definition apply_writes :: "(uint32 \<times> block) list \<Rightarrow> (uint32 \<Rightarrow> block) \<Rightarrow> uint32 \<Rightarrow> block" where
  "apply_writes ws d = fold (\<lambda>(b, v) d. d(b := v)) ws d"

lemma apply_writes_Nil [simp]: "apply_writes [] d = d"
  by (simp add: apply_writes_def)

lemma apply_writes_append: "apply_writes (xs @ ys) d = apply_writes ys (apply_writes xs d)"
  by (simp add: apply_writes_def)

lemma apply_writes_Cons: "apply_writes ((b, v) # ws) d = apply_writes ws (d(b := v))"
  by (simp add: apply_writes_def)

lemma apply_writes_single [simp]: "apply_writes [(b, v)] d = d(b := v)"
  by (simp add: apply_writes_def)

lemma apply_writes_other: "x \<notin> fst ` set ws \<Longrightarrow> apply_writes ws d x = d x"
  by (induction ws arbitrary: d) (auto simp: apply_writes_def)

lemma apply_writes_in:
  assumes "inj_on f {..<n}" "i < n"
  shows "apply_writes (map (\<lambda>i. (f i, v i)) [0..<n]) d (f i) = v i"
  using assms
proof (induction n)
  case (Suc n)
  have "inj_on f {..<n}" using Suc.prems(1) by (rule inj_on_subset) auto
  moreover have "f i \<noteq> f n" if "i < n" using Suc.prems that by (auto simp: inj_on_def)
  ultimately show ?case using Suc by (cases "i = n") (auto simp: apply_writes_append)
qed simp

section \<open>The header\<close>

lemma put_head_fold:
  assumes "k \<le> n"
  shows "rd32 (fold (\<lambda>i d. wr32 d (4 + 4 * i) (bl ! i)) [0..<k] d) 0 = rd32 d 0 \<and>
    (\<forall>i<k. rd32 (fold (\<lambda>i d. wr32 d (4 + 4 * i) (bl ! i)) [0..<k] d) (4 + 4 * i) = bl ! i)"
  by (induction k) (auto simp: rd32_wr32_other less_Suc_eq)

lemma sint_word_of_int_small: "0 \<le> n \<Longrightarrow> n < 2 ^ 31 \<Longrightarrow> sint (word_of_int n :: uint32) = n"
  by (simp add: sint_sbintrunc' signed_take_bit_int_eq_self)

lemma put_head:
  assumes "0 \<le> n" "n < 2 ^ 31"
  shows "hdr_n (put_head n bl d) = n" "i < nat n \<Longrightarrow> hdr_block (put_head n bl d) i = bl ! i"
  using put_head_fold [of "nat n" "nat n" bl "wr32 d 0 (word_of_int n)"] assms sint_word_of_int_small
  by (simp_all add: put_head_def hdr_n_def hdr_block_def)

section \<open>The log region\<close>

definition logblk :: "'z klog_scheme \<Rightarrow> nat \<Rightarrow> uint32" where
  "logblk s i = lg_start s + word_of_nat i + 1"

definition logreg :: "'z klog_scheme \<Rightarrow> uint32 set" where
  "logreg s = insert (lg_start s) (logblk s ` {..<LOGSIZE})"

lemma LOGSIZE_eq: "LOGSIZE = 30"
  by (simp add: LOGSIZE_def MAXOPBLOCKS_def)

lemma logblk_inj: "inj_on (logblk s) {..<LOGSIZE}"
proof (rule inj_onI)
  fix i j assume "i \<in> {..<LOGSIZE}" "j \<in> {..<LOGSIZE}" "logblk s i = logblk s j"
  then have "(word_of_nat i :: uint32) = word_of_nat j" "i < 30" "j < 30"
    by (simp_all add: logblk_def LOGSIZE_eq)
  moreover have "unat (word_of_nat k :: uint32) = k" if "k < 30" for k
    using that by (intro unat_of_nat_small) simp
  ultimately show "i = j" by metis
qed

lemma logblk_start: "i < LOGSIZE \<Longrightarrow> logblk s i \<noteq> lg_start s"
proof
  assume i: "i < LOGSIZE" and "logblk s i = lg_start s"
  then have "word_of_nat (Suc i) = (0 :: uint32)" by (simp add: logblk_def algebra_simps)
  moreover have "unat (word_of_nat (Suc i) :: uint32) = Suc i"
    using i by (intro unat_of_nat_small) (simp add: LOGSIZE_eq)
  ultimately show False by (metis nat.simps(3) unat_0)
qed

lemma logblk_cong: "lgf s' = lgf s \<Longrightarrow> logblk s' = logblk s"
  using lgf_eq(1) [of s' s] by (simp add: logblk_def fun_eq_iff)

section \<open>The copying loops\<close>

definition idle :: "'z klog_scheme \<Rightarrow> bool" where
  "idle s \<longleftrightarrow> binv s \<and> held s = {} \<and> lg_dev s = ROOTDEV"

text \<open>The blocks of the current transaction.\<close>

definition home :: "'z klog_scheme \<Rightarrow> nat \<Rightarrow> uint32" where
  "home s i = lh_block s ! i"

definition tran :: "'z klog_scheme \<Rightarrow> nat \<Rightarrow> bool" where
  "tran s n \<longleftrightarrow> lh_n s = int n \<and> n \<le> LOGSIZE \<and> inj_on (home s) {..<n} \<and> (\<forall>i<n. home s i \<notin> logreg s)"

lemma home_cong: "lgf s' = lgf s \<Longrightarrow> home s' = home s"
  using lgf_eq(7) [of s' s] by (simp add: home_def fun_eq_iff)

lemma tran_ne: "tran s n \<Longrightarrow> i < n \<Longrightarrow> j < n \<Longrightarrow> home s i \<noteq> logblk s j"
  unfolding tran_def logreg_def by auto

lemma busy_mono:
  assumes "binv s" "binv s'" "\<And>b. refs s' b \<noteq> 0 \<Longrightarrow> refs s b \<noteq> 0"
  shows "busy s' \<le> busy s"
  using assms by (auto simp: busy_refs intro!: card_mono)

definition log_writes :: "'z klog_scheme \<Rightarrow> nat \<Rightarrow> (uint32 \<times> block) list" where
  "log_writes s t = map (\<lambda>i. (logblk s i, cont s (home s i))) [0..<t]"

lemma write_log_ok:
  assumes s: "idle s" "tran s n" and r: "\<And>i. i < n \<Longrightarrow> refs s (home s i) = 1" "\<And>i. i < n \<Longrightarrow> refs s (logblk s i) = 0"
    and b: "busy s < NBUF"
  shows "\<exists>s'. write_log s = Ok s' \<and> idle s' \<and> refs s' = refs s \<and> lgf s' = lgf s \<and> same_procs s s' \<and>
    disk s' = apply_writes (log_writes s n) (disk s) \<and> cont s' = apply_writes (log_writes s n) (cont s) \<and>
    dwrites s' = dwrites s @ log_writes s n"
proof -
  let ?P = "\<lambda>t s'. idle s' \<and> refs s' = refs s \<and> lgf s' = lgf s \<and> same_procs s s' \<and>
    disk s' = apply_writes (log_writes s t) (disk s) \<and> cont s' = apply_writes (log_writes s t) (cont s) \<and>
    dwrites s' = dwrites s @ log_writes s t"
  have "\<exists>s'. loop_res write_log_body [0..<n] s = Ok s' \<and> ?P n s'"
  proof (rule loop_res_upt_inv)
    show "?P 0 s" using s(1) by (simp add: log_writes_def same_procs_refl)
    fix t s1 assume t: "t < n" and P: "?P t s1"
    have inv: "binv s1" "held s1 = {}" "lg_dev s1 = ROOTDEV" using P by (simp_all add: idle_def)
    have f: "logblk s1 = logblk s" "home s1 = home s" using P logblk_cong home_cong by blast+
    have a: "logblk s t = lg_start s1 + word_of_nat t + 1" "home s t = lh_block s1 ! t"
      using f by (simp_all add: logblk_def home_def fun_eq_iff)
    have "busy s1 \<le> busy s" using P s(1) by (intro busy_mono) (auto simp: idle_def)
    then have "busy s1 < NBUF" using b by simp
    then obtain s2 where w: "write_log_body t s1 = Ok s2" "binv s2" "held s2 = {}" "refs s2 = refs s1"
      "cont s2 = (cont s1)(logblk s t := cont s1 (home s t))" "disk s2 = (disk s1)(logblk s t := cont s1 (home s t))"
      "dwrites s2 = dwrites s1 @ [(logblk s t, cont s1 (home s t))]" "lgf s2 = lgf s1" "same_procs s1 s2"
      using write_log_body_ok [OF inv a tran_ne [OF s(2) t t, symmetric]] r [OF t] P by auto
    have c: "cont s1 (home s t) = cont s (home s t)"
    proof -
      have "home s t \<notin> fst ` set (log_writes s t)"
      proof
        assume "home s t \<in> fst ` set (log_writes s t)"
        then obtain x where "x < t" "home s t = logblk s x" by (auto simp: log_writes_def)
        with tran_ne [OF s(2) t, of x] t show False by simp
      qed
      then show ?thesis using P apply_writes_other by metis
    qed
    have "?P (Suc t) s2"
      using w P c inv(3) lgf_eq(5) [OF w(8)] same_procs_trans [of s s1 s2]
      by (simp add: idle_def log_writes_def apply_writes_append)
    with w(1) show "\<exists>s'. write_log_body t s1 = Ok s' \<and> ?P (Suc t) s'" by blast
  qed simp
  then show ?thesis using s(2) by (simp add: write_log_def tran_def)
qed

definition home_writes :: "'z klog_scheme \<Rightarrow> nat \<Rightarrow> (uint32 \<times> block) list" where
  "home_writes s t = map (\<lambda>i. (home s i, cont s (logblk s i))) [0..<t]"

lemma install_trans_ok:
  assumes s: "idle s" "tran s n"
    and r: "\<And>i. i < n \<Longrightarrow> refs s (home s i) = (if rec then 0 else 1)" "\<And>i. i < n \<Longrightarrow> refs s (logblk s i) = 0"
    and b: "busy s < NBUF" "rec \<Longrightarrow> Suc (busy s) < NBUF"
  shows "\<exists>s'. install_trans rec s = Ok s' \<and> idle s' \<and> refs s' = (\<lambda>b. if b \<in> home s ` {..<n} then 0 else refs s b) \<and>
    lgf s' = lgf s \<and> same_procs s s' \<and>
    disk s' = apply_writes (home_writes s n) (disk s) \<and> cont s' = apply_writes (home_writes s n) (cont s) \<and>
    dwrites s' = dwrites s @ home_writes s n"
proof -
  let ?P = "\<lambda>t s'. idle s' \<and> refs s' = (\<lambda>b. if b \<in> home s ` {..<t} then 0 else refs s b) \<and> lgf s' = lgf s \<and> same_procs s s' \<and>
    disk s' = apply_writes (home_writes s t) (disk s) \<and> cont s' = apply_writes (home_writes s t) (cont s) \<and>
    dwrites s' = dwrites s @ home_writes s t"
  have "\<exists>s'. loop_res (install_trans_body rec) [0..<n] s = Ok s' \<and> ?P n s'"
  proof (rule loop_res_upt_inv)
    show "?P 0 s" using s(1) by (simp add: home_writes_def same_procs_refl)
    fix t s1 assume t: "t < n" and P: "?P t s1"
    have inv: "binv s1" "held s1 = {}" "lg_dev s1 = ROOTDEV" using P by (simp_all add: idle_def)
    have f: "logblk s1 = logblk s" "home s1 = home s" using P logblk_cong home_cong by blast+
    have a: "logblk s t = lg_start s1 + word_of_nat t + 1" "home s t = lh_block s1 ! t"
      using f by (simp_all add: logblk_def home_def fun_eq_iff)
    have "busy s1 \<le> busy s" using P s(1) by (intro busy_mono) (auto simp: idle_def split: if_splits)
    then have room: "busy s1 < NBUF" "rec \<Longrightarrow> Suc (busy s1) < NBUF" using b by auto
    have new: "home s t \<notin> home s ` {..<t}" using s(2) t by (fastforce simp: tran_def inj_on_def)
    have lb: "logblk s t \<notin> home s ` {..<t}" using tran_ne [OF s(2) _ t] t by (metis image_iff lessThan_iff less_trans)
    have "refs s1 (logblk s t) = 0" "refs s1 (home s t) = (if rec then 0 else 1)"
      using P r [OF t] new by auto
    from install_trans_body_ok [OF inv a tran_ne [OF s(2) t t, symmetric] this room]
    obtain s2 where w: "install_trans_body rec t s1 = Ok s2" "binv s2" "held s2 = {}" "refs s2 = (refs s1)(home s t := 0)"
      "cont s2 = (cont s1)(home s t := cont s1 (logblk s t))" "disk s2 = (disk s1)(home s t := cont s1 (logblk s t))"
      "dwrites s2 = dwrites s1 @ [(home s t, cont s1 (logblk s t))]" "lgf s2 = lgf s1" "same_procs s1 s2"
      by blast
    have c: "cont s1 (logblk s t) = cont s (logblk s t)"
      using P lb by (auto simp: home_writes_def intro!: apply_writes_other)
    have "refs s2 = (\<lambda>b. if b \<in> home s ` {..<Suc t} then 0 else refs s b)"
      using w(4) P by (auto simp: fun_eq_iff lessThan_Suc)
    then have "?P (Suc t) s2"
      using w P c inv(3) lgf_eq(5) [OF w(8)] same_procs_trans [of s s1 s2]
      by (simp add: idle_def home_writes_def apply_writes_append)
    with w(1) show "\<exists>s'. install_trans_body rec t s1 = Ok s' \<and> ?P (Suc t) s'" by blast
  qed simp
  then show ?thesis using s(2) by (simp add: install_trans_def tran_def)
qed

text \<open>The cache does not depend on the fields of the log.\<close>

lemma view_lh:
  "binv (s\<lparr>lh_n := n\<rparr>) = binv s" "held (s\<lparr>lh_n := n\<rparr>) = held s" "refs (s\<lparr>lh_n := n\<rparr>) = refs s"
  "busy (s\<lparr>lh_n := n\<rparr>) = busy s" "cont (s\<lparr>lh_n := n\<rparr>) = cont s" "slot (s\<lparr>lh_n := n\<rparr>) = slot s"
  "mine (s\<lparr>lh_n := n\<rparr>) = mine s"
  "binv (s\<lparr>lh_block := l\<rparr>) = binv s" "held (s\<lparr>lh_block := l\<rparr>) = held s" "refs (s\<lparr>lh_block := l\<rparr>) = refs s"
  "busy (s\<lparr>lh_block := l\<rparr>) = busy s" "cont (s\<lparr>lh_block := l\<rparr>) = cont s" "slot (s\<lparr>lh_block := l\<rparr>) = slot s"
  "mine (s\<lparr>lh_block := l\<rparr>) = mine s"
proof -
  have s: "slot (s\<lparr>lh_n := n\<rparr>) = slot s" "slot (s\<lparr>lh_block := l\<rparr>) = slot s" by (simp_all add: slot_def fun_eq_iff)
  show "binv (s\<lparr>lh_n := n\<rparr>) = binv s" "held (s\<lparr>lh_n := n\<rparr>) = held s" "refs (s\<lparr>lh_n := n\<rparr>) = refs s"
    "busy (s\<lparr>lh_n := n\<rparr>) = busy s" "cont (s\<lparr>lh_n := n\<rparr>) = cont s" "mine (s\<lparr>lh_n := n\<rparr>) = mine s"
    "binv (s\<lparr>lh_block := l\<rparr>) = binv s" "held (s\<lparr>lh_block := l\<rparr>) = held s" "refs (s\<lparr>lh_block := l\<rparr>) = refs s"
    "busy (s\<lparr>lh_block := l\<rparr>) = busy s" "cont (s\<lparr>lh_block := l\<rparr>) = cont s" "mine (s\<lparr>lh_block := l\<rparr>) = mine s"
    by (simp_all add: binv_def held_def refs_def s busy_def cont_def mine_def me_def myproc_def fun_eq_iff split: option.split)
  show "slot (s\<lparr>lh_n := n\<rparr>) = slot s" "slot (s\<lparr>lh_block := l\<rparr>) = slot s" by (rule s)+
qed

lemma same_procs_lh: "same_procs (s\<lparr>lh_n := n\<rparr>) s' = same_procs s s'"
  by (simp add: same_procs_def)

section \<open>Commit\<close>

text \<open>
  The state in which \<^verbatim>\<open>end_op\<close> calls \<^verbatim>\<open>commit\<close>: no buffer is locked, exactly the blocks of the
  transaction are pinned, and the header on disk is empty.
\<close>

definition ready :: "'z klog_scheme \<Rightarrow> nat \<Rightarrow> bool" where
  "ready s n \<longleftrightarrow> idle s \<and> tran s n \<and> n < NBUF \<and> length (lh_block s) = LOGSIZE \<and>
     refs s = (\<lambda>b. if b \<in> home s ` {..<n} then 1 else 0) \<and> hdr_n (disk s (lg_start s)) = 0"

definition header :: "'z klog_scheme \<Rightarrow> nat \<Rightarrow> block" where
  "header s n = put_head (int n) (lh_block s) (disk s (lg_start s))"

text \<open>The block writes of a commit, in order.\<close>

definition commit_writes :: "'z klog_scheme \<Rightarrow> nat \<Rightarrow> (uint32 \<times> block) list" where
  "commit_writes s n = log_writes s n @ [(lg_start s, header s n)] @
     map (\<lambda>i. (home s i, cont s (home s i))) [0..<n] @ [(lg_start s, put_head 0 (lh_block s) (header s n))]"

lemma ready_busy: "ready s n \<Longrightarrow> busy s = n"
proof -
  assume r: "ready s n"
  then have "busy s = card (home s ` {..<n})"
    by (simp add: ready_def idle_def busy_refs)
  also have "\<dots> = n" using r by (simp add: ready_def tran_def card_image)
  finally show ?thesis .
qed

lemma ready_refs:
  assumes "ready s n"
  shows "i < n \<Longrightarrow> refs s (home s i) = 1" "i < n \<Longrightarrow> refs s (logblk s i) = 0" "refs s (lg_start s) = 0"
proof -
  have t: "tran s n" and r: "refs s = (\<lambda>b. if b \<in> home s ` {..<n} then 1 else 0)"
    using assms by (simp_all add: ready_def)
  show "refs s (home s i) = 1" if "i < n" using that r by auto
  have "logblk s i \<notin> home s ` {..<n}" if "i < n"
    using tran_ne [OF t _ that] by (metis imageE lessThan_iff)
  then show "refs s (logblk s i) = 0" if "i < n" using that r by simp
  show "refs s (lg_start s) = 0" using t r by (auto simp: tran_def logreg_def)
qed

lemma log_writes_start:
  assumes "tran s n"
  shows "lg_start s \<notin> fst ` set (log_writes s n)"
proof
  assume "lg_start s \<in> fst ` set (log_writes s n)"
  then obtain x where "x < n" "lg_start s = logblk s x" by (auto simp: log_writes_def)
  with logblk_start [of x s] assms show False by (simp add: tran_def)
qed

lemma commit_ok:
  assumes s: "ready s n" and n: "0 < n"
  shows "\<exists>s'. commit s = Ok s' \<and> idle s' \<and> refs s' = (\<lambda>_. 0) \<and> lh_n s' = 0 \<and> lg_start s' = lg_start s \<and>
    lg_size s' = lg_size s \<and> lg_outstanding s' = lg_outstanding s \<and> lg_committing s' = lg_committing s \<and>
    lh_block s' = lh_block s \<and> same_procs s s' \<and> disk s' = apply_writes (commit_writes s n) (disk s) \<and>
    dwrites s' = dwrites s @ commit_writes s n"
proof -
  have i: "idle s" "tran s n" "busy s < NBUF" using s ready_busy [OF s] by (simp_all add: ready_def)
  note r = ready_refs [OF s]
  obtain s1 where w1: "write_log s = Ok s1" "idle s1" "refs s1 = refs s" "lgf s1 = lgf s" "same_procs s s1"
    "disk s1 = apply_writes (log_writes s n) (disk s)" "cont s1 = apply_writes (log_writes s n) (cont s)"
    "dwrites s1 = dwrites s @ log_writes s n"
    using write_log_ok [OF i(1,2) r(1,2) i(3)] by blast
  have b1: "busy s1 < NBUF" using busy_mono [of s s1] w1 i by (simp add: idle_def)
  have st: "lg_start s \<notin> fst ` set (log_writes s n)"
    by (rule log_writes_start [OF i(2)])
  have h: "put_head (lh_n s1) (lh_block s1) (disk s1 (lg_start s)) = header s n"
    using lgf_eq [OF w1(4)] w1(6) apply_writes_other [OF st] i(2) by (simp add: header_def tran_def)
  have "binv s1" "held s1 = {}" "lg_dev s1 = ROOTDEV" "refs s1 (lg_start s1) = 0"
    using w1 r(3) lgf_eq [OF w1(4)] by (simp_all add: idle_def)
  from write_head_ok [OF this b1] obtain s2 where w2: "write_head s1 = Ok s2" "binv s2" "held s2 = {}" "refs s2 = refs s1"
    "cont s2 = (cont s1)(lg_start s := header s n)" "disk s2 = (disk s1)(lg_start s := header s n)"
    "dwrites s2 = dwrites s1 @ [(lg_start s, header s n)]" "lgf s2 = lgf s1" "same_procs s1 s2"
    unfolding h lgf_eq(1) [OF w1(4)] by (elim exE conjE) (rule that)
  have l2: "lgf s2 = lgf s" using w1 w2 by simp
  note l2' = lgf_eq [OF l2] logblk_cong [OF l2] home_cong [OF l2]
  have i2: "idle s2" "tran s2 n" "busy s2 < NBUF"
    using w1 w2 l2' i busy_mono [of s1 s2] b1 by (simp_all add: idle_def tran_def logreg_def)
  have r2: "refs s2 (home s2 i) = (if False then 0 else 1)" "refs s2 (logblk s2 i) = 0" if "i < n" for i
    using w1 w2 l2' r that by simp_all
  obtain s3 where w3: "install_trans False s2 = Ok s3" "idle s3"
    "refs s3 = (\<lambda>b. if b \<in> home s2 ` {..<n} then 0 else refs s2 b)" "lgf s3 = lgf s2" "same_procs s2 s3"
    "disk s3 = apply_writes (home_writes s2 n) (disk s2)" "cont s3 = apply_writes (home_writes s2 n) (cont s2)"
    "dwrites s3 = dwrites s2 @ home_writes s2 n"
    using install_trans_ok [where rec = False, OF i2(1,2) r2 i2(3)] by blast
  have "cont s2 (logblk s i) = cont s (home s i)" if "i < n" for i
  proof -
    have "inj_on (logblk s) {..<n}" using i(2) by (intro inj_on_subset [OF logblk_inj]) (auto simp: tran_def)
    then have "apply_writes (log_writes s n) (cont s) (logblk s i) = cont s (home s i)"
      unfolding log_writes_def using that by (rule apply_writes_in)
    then show ?thesis using w2(5) w1(7) logblk_start [of i s] that i(2) by (simp add: tran_def)
  qed
  then have hw: "home_writes s2 n = map (\<lambda>i. (home s i, cont s (home s i))) [0..<n]"
    by (simp add: home_writes_def l2')
  have r3: "refs s3 = (\<lambda>_. 0)" using w3(3) w2(4) w1(3) s l2' by (auto simp: ready_def)
  let ?s3 = "s3\<lparr>lh_n := 0\<rparr>"
  note v3 = view_lh(1-5) [where s = s3 and n = 0]
  have b3: "busy ?s3 < NBUF" using busy_mono [of s2 s3] i2 w3(2) r3 v3 by (simp add: idle_def)
  have l3: "lgf s3 = lgf s" using w3(4) l2 by simp
  note l3' = lgf_eq [OF l3]
  have d3: "disk s3 (lg_start s) = header s n"
  proof -
    have "lg_start s \<notin> fst ` set (home_writes s2 n)" using i(2) by (auto simp: hw tran_def logreg_def)
    then show ?thesis using w3(6) w2(6) apply_writes_other by simp
  qed
  have "binv ?s3" "held ?s3 = {}" "lg_dev ?s3 = ROOTDEV" "refs ?s3 (lg_start ?s3) = 0"
    using w3(2) v3 r3 by (simp_all add: idle_def)
  from write_head_ok [OF this b3] obtain s4 where w4: "write_head ?s3 = Ok s4" "binv s4" "held s4 = {}" "refs s4 = refs ?s3"
    "cont s4 = (cont ?s3)(lg_start s := put_head 0 (lh_block s) (header s n))"
    "disk s4 = (disk s3)(lg_start s := put_head 0 (lh_block s) (header s n))"
    "dwrites s4 = dwrites s3 @ [(lg_start s, put_head 0 (lh_block s) (header s n))]" "lgf s4 = lgf ?s3" "same_procs ?s3 s4"
    using l3' d3 by (elim exE conjE) (rule that, simp_all)
  have "commit s = Ok s4" using n i(2) w1(1) w2(1) w3(1) w4(1) by (simp add: commit_def tran_def)
  moreover have "same_procs s s4"
    using same_procs_trans [OF same_procs_trans [OF same_procs_trans [OF w1(5) w2(9)] w3(5)] w4(9) [unfolded same_procs_lh]] .
  moreover have "disk s4 = apply_writes (commit_writes s n) (disk s)"
    using w4(6) w3(6) w2(6) w1(6) hw by (simp add: commit_writes_def apply_writes_append apply_writes_Cons)
  moreover have "dwrites s4 = dwrites s @ commit_writes s n"
    using w4(7) w3(8) w2(7) w1(8) hw by (simp add: commit_writes_def)
  moreover have "lg_dev s4 = ROOTDEV" using lgf_eq [OF w4(8)] w3(2) by (simp add: idle_def)
  ultimately show ?thesis using w4 r3 v3 l3' lgf_eq [OF w4(8)] by (simp add: idle_def)
qed

section \<open>Recovery\<close>

lemma fold_update_nth:
  "k \<le> length xs \<Longrightarrow> length (fold (\<lambda>i xs. xs[i := f i]) [0..<k] xs) = length xs \<and>
   (\<forall>i<length xs. fold (\<lambda>i xs. xs[i := f i]) [0..<k] xs ! i = (if i < k then f i else xs ! i))"
  by (induction k) (auto simp: nth_list_update less_Suc_eq)

lemma read_head_ok:
  assumes s: "idle s" "refs s (lg_start s) = 0" "busy s < NBUF"
  defines "h \<equiv> disk s (lg_start s)"
  shows "\<exists>s'. read_head s = Ok s' \<and> idle s' \<and> refs s' = refs s \<and> cont s' = cont s \<and> disk s' = disk s \<and>
    dwrites s' = dwrites s \<and> lg_start s' = lg_start s \<and> lh_n s' = hdr_n h \<and> same_procs s s' \<and>
    lh_block s' = fold (\<lambda>i bl. bl[i := hdr_block h i]) [0..<nat (hdr_n h)] (lh_block s)"
proof -
  let ?a = "lg_start s"
  have inv: "binv s" "held s = {}" "lg_dev s = ROOTDEV" using s by (simp_all add: idle_def)
  have m: "mine s = {}" using mine_held [of s] inv(2) by auto
  have "?a \<notin> held s" "refs s ?a \<noteq> 0 \<or> busy s < NBUF" "refs s ?a < 2 ^ 32 - 1" using inv s by simp_all
  from bread_ok [OF inv(1) this] obtain i s1 where r1: "bread ROOTDEV ?a s = Ok (i, s1)" "bread_post s ?a i s1" by blast
  note q1 = bread_postD [OF r1(2)]
  note l1 = lgf_eq [OF q1(11)]
  have d: "b_data (bufs s1 ! i) = h" using q1(13) clean_block [OF inv(1) s(2)] by (simp add: h_def)
  define s2 where "s2 = s1\<lparr>lh_n := hdr_n h, lh_block := fold (\<lambda>i bl. bl[i := hdr_block h i]) [0..<nat (hdr_n h)] (lh_block s)\<rparr>"
  have v: "binv s2" "slot s2 = slot s1" "cont s2 = cont s" "refs s2 = (refs s)(?a := 1)" "held s2 = {?a}" "mine s2 = {?a}"
    "disk s2 = disk s" "dwrites s2 = dwrites s" "same_procs s s2"
    using q1(1-12) s(2) m inv(2) by (simp_all add: s2_def view_lh same_procs_def)
  have "?a \<in> mine s2" "slot s2 ?a = Some i" "refs s2 ?a = 1 \<Longrightarrow> cont s2 ?a = disk s2 ?a"
    using v q1(2) clean_block [OF inv(1) s(2)] by simp_all
  from brelse_ok [OF v(1) this] obtain s3 where y: "brelse i s2 = Ok s3" "brelse_post s2 ?a s3" by blast
  note q3 = brelse_postD [OF y(2)]
  note l3 = lgf_eq [OF q3(10)]
  have "read_head s = Ok s3"
    using r1(1) y(1) d l1(7) inv(3) by (simp add: read_head_def Let_def s2_def)
  moreover have "idle s3" using q3(1,5) v l3 l1 inv(3) by (simp add: idle_def s2_def)
  moreover have "refs s3 = refs s" using q3(4) v s(2) by (auto simp: fun_eq_iff)
  moreover have "same_procs s s3" by (rule same_procs_trans [OF v(9) q3(11)])
  ultimately show ?thesis using q3 v l3 l1 by (simp add: s2_def)
qed

text \<open>A disk whose log header lists \<open>n\<close> blocks of the file system.\<close>

definition log_ok :: "'z klog_scheme \<Rightarrow> (uint32 \<Rightarrow> block) \<Rightarrow> nat \<Rightarrow> bool" where
  "log_ok s d n \<longleftrightarrow> hdr_n (d (lg_start s)) = int n \<and> n \<le> LOGSIZE \<and>
     inj_on (hdr_block (d (lg_start s))) {..<n} \<and> (\<forall>i<n. hdr_block (d (lg_start s)) i \<notin> logreg s)"

lemma recover_ok:
  assumes s: "idle s" "refs s = (\<lambda>_. 0)" "length (lh_block s) = LOGSIZE" and n: "log_ok s (disk s) n"
  shows "\<exists>s'. recover_from_log s = Ok s' \<and> idle s' \<and> refs s' = (\<lambda>_. 0) \<and> lh_n s' = 0 \<and> lg_start s' = lg_start s \<and>
    length (lh_block s') = LOGSIZE \<and> hdr_n (disk s' (lg_start s)) = 0 \<and>
    (\<forall>x. x \<noteq> lg_start s \<longrightarrow> disk s' x =
      apply_writes (map (\<lambda>i. (hdr_block (disk s (lg_start s)) i, disk s (logblk s i))) [0..<n]) (disk s) x)"
proof -
  let ?hd = "disk s (lg_start s)"
  have b0: "busy t = 0" if "binv t" "refs t = (\<lambda>_. 0)" for t :: "'a klog_scheme" using that by (simp add: busy_refs)
  have NB: "Suc 0 < NBUF" by (simp add: NBUF_def)
  have "refs s (lg_start s) = 0" "busy s < NBUF" using s b0 NB by (simp_all add: idle_def)
  from read_head_ok [OF s(1) this] obtain s1 where r: "read_head s = Ok s1" "idle s1" "refs s1 = refs s" "cont s1 = cont s"
    "disk s1 = disk s" "lg_start s1 = lg_start s" "lh_n s1 = hdr_n ?hd"
    "lh_block s1 = fold (\<lambda>i bl. bl[i := hdr_block ?hd i]) [0..<nat (hdr_n ?hd)] (lh_block s)" by blast
  have nn: "hdr_n ?hd = int n" "n \<le> LOGSIZE" using n by (simp_all add: log_ok_def)
  have bl: "length (lh_block s1) = LOGSIZE" "home s1 i = hdr_block ?hd i" if "i < n" for i
    using fold_update_nth [of n "lh_block s" "hdr_block ?hd"] r(8) nn s(3) that by (auto simp: home_def)
  have len: "length (lh_block s1) = LOGSIZE"
    using fold_update_nth [of n "lh_block s" "hdr_block ?hd"] r(8) nn s(3) by simp
  have lb: "logblk s1 = logblk s" "logreg s1 = logreg s" using r(6) by (simp_all add: logblk_def logreg_def fun_eq_iff)
  have "inj_on (home s1) {..<n} = inj_on (hdr_block ?hd) {..<n}" by (rule inj_on_cong) (simp add: bl)
  then have t1: "tran s1 n" using n r(7) bl(2) lb by (simp add: tran_def log_ok_def)
  have "refs s1 (home s1 i) = (if True then 0 else 1)" "refs s1 (logblk s1 i) = 0" for i using r(3) s(2) by simp_all
  moreover have "busy s1 < NBUF" "Suc (busy s1) < NBUF" using b0 [of s1] r s(2) NB by (simp_all add: idle_def)
  ultimately obtain s2 where i2: "install_trans True s1 = Ok s2" "idle s2"
    "refs s2 = (\<lambda>b. if b \<in> home s1 ` {..<n} then 0 else refs s1 b)" "lgf s2 = lgf s1"
    "disk s2 = apply_writes (home_writes s1 n) (disk s1)"
    using install_trans_ok [where rec = True, OF r(2) t1] by blast
  have r2: "refs s2 = (\<lambda>_. 0)" using i2(3) r(3) s(2) by auto
  note l2 = lgf_eq [OF i2(4)]
  have cl: "cont s b = disk s b" for b using s clean_block [of s b] by (simp add: idle_def)
  have hw: "home_writes s1 n = map (\<lambda>i. (hdr_block ?hd i, disk s (logblk s i))) [0..<n]"
    using bl(2) lb r(4) cl by (simp add: home_writes_def)
  let ?s2 = "s2\<lparr>lh_n := 0\<rparr>"
  have "binv ?s2" "held ?s2 = {}" "lg_dev ?s2 = ROOTDEV" "refs ?s2 (lg_start ?s2) = 0" "busy ?s2 < NBUF"
    using i2(2) r2 b0 [of s2] NB by (simp_all add: idle_def view_lh)
  from write_head_ok [OF this] obtain s3 where w: "write_head ?s2 = Ok s3" "binv s3" "held s3 = {}" "refs s3 = refs ?s2"
    "disk s3 = (disk ?s2)(lg_start ?s2 := put_head (lh_n ?s2) (lh_block ?s2) (disk ?s2 (lg_start ?s2)))" "lgf s3 = lgf ?s2"
    by (elim exE conjE) (rule that)
  note l3 = lgf_eq [OF w(6)]
  have "recover_from_log s = Ok s3" using r(1) i2(1) w(1) by (simp add: recover_from_log_def)
  moreover have "idle s3" using w(2,3) l3 i2(2) by (simp add: idle_def)
  moreover have "hdr_n (disk s3 (lg_start s)) = 0" using w(5) l2(1) r(6) by (simp add: put_head(1))
  moreover have "\<forall>x. x \<noteq> lg_start s \<longrightarrow> disk s3 x =
      apply_writes (map (\<lambda>i. (hdr_block ?hd i, disk s (logblk s i))) [0..<n]) (disk s) x"
    using w(5) i2(5) hw r(5,6) l2(1) by simp
  ultimately show ?thesis
    using w(4) r2 l3 l2 r(6) len by (intro exI [of _ s3]) (simp add: view_lh)
qed

end
