(* ===== verification/LogTxn.thy ===== *)
theory LogTxn
  imports LogCrash
begin

text \<open>
  Transactions as the file system uses them: \<open>txn\<close> is the invariant between \<^verbatim>\<open>begin_op\<close> and
  \<^verbatim>\<open>end_op\<close>, kept by reading, modifying, logging and releasing blocks; the last
  \<^verbatim>\<open>end_op\<close> commits from a state that satisfies \<open>ready\<close>. The properties of the buffer cache and the log
  are stated at the end.
\<close>

section \<open>Crash atomicity\<close>

text \<open>A kernel that boots on disk \<open>d\<close>: the cache is empty and \<^verbatim>\<open>initlog\<close> has found the log of \<open>s\<close>.\<close>

definition boots :: "'z klog_scheme \<Rightarrow> (uint32 \<Rightarrow> block) \<Rightarrow> 'z klog_scheme \<Rightarrow> bool" where
  "boots s d b \<longleftrightarrow> idle b \<and> refs b = (\<lambda>_. 0) \<and> length (lh_block b) = LOGSIZE \<and> lg_start b = lg_start s \<and> disk b = d"

lemma commit_writes_split:
  "commit_writes s n = log_writes s n @ (lg_start s, header s n) # map (\<lambda>i. (home s i, cont s (home s i))) [0..<n] @
     [(lg_start s, put_head 0 (lh_block s) (header s n))]"
  by (simp add: commit_writes_def)

text \<open>Before the header is written, recovery finds an empty log; afterwards, a full one or an empty one.\<close>

lemma crash_before:
  assumes s: "ready s n" and k: "k \<le> n"
  defines "d \<equiv> apply_writes (take k (commit_writes s n)) (disk s)"
  shows "log_ok s d 0" "x \<notin> logreg s \<Longrightarrow> d x = disk s x"
proof -
  have t: "tran s n" using s by (simp add: ready_def)
  have w: "take k (commit_writes s n) = take k (log_writes s n)"
    using k by (simp add: commit_writes_split log_writes_def)
  have "lg_start s \<notin> fst ` set (take k (log_writes s n))"
    using log_writes_start [OF t] set_take_subset [of k "log_writes s n"] by blast
  then show "log_ok s d 0" using s by (simp add: d_def w log_ok_def ready_def apply_writes_other)
  assume x: "x \<notin> logreg s"
  have "fst ` set (log_writes s n) \<subseteq> logreg s" using t by (auto simp: log_writes_def logreg_def tran_def)
  then have "x \<notin> fst ` set (take k (log_writes s n))" using x set_take_subset [of k "log_writes s n"] by blast
  then show "d x = disk s x" by (simp add: d_def w apply_writes_other)
qed

lemma crash_after:
  assumes s: "ready s n" and j: "j \<le> n"
  defines "d \<equiv> apply_writes (take (Suc (n + j)) (commit_writes s n)) (disk s)"
  shows "log_ok s d n" "i < n \<Longrightarrow> hdr_block (d (lg_start s)) i = home s i" "i < n \<Longrightarrow> d (logblk s i) = cont s (home s i)"
    "x \<notin> logreg s \<Longrightarrow> x \<notin> home s ` {..<n} \<Longrightarrow> d x = disk s x"
proof -
  have t: "tran s n" using s by (simp add: ready_def)
  have n31: "int n < 2 ^ 31" using t by (simp add: tran_def LOGSIZE_eq)
  let ?hw = "map (\<lambda>i. (home s i, cont s (home s i))) [0..<j]"
  have len: "length (log_writes s n) = n" by (simp add: log_writes_def)
  have "take (Suc (n + j)) (commit_writes s n) = log_writes s n @ (lg_start s, header s n) # ?hw"
    using j len by (simp add: commit_writes_split take_map Suc_diff_le)
  then have d: "d = apply_writes ?hw ((apply_writes (log_writes s n) (disk s))(lg_start s := header s n))"
    by (simp add: d_def apply_writes_append apply_writes_Cons)
  have off: "z \<notin> fst ` set ?hw" if "z \<notin> home s ` {..<n}" for z using that j by auto
  have st: "lg_start s \<notin> home s ` {..<n}" using t by (auto simp: tran_def logreg_def)
  have hd: "d (lg_start s) = header s n" using apply_writes_other [OF off [OF st]] by (simp add: d)
  note ph = put_head [where n = "int n" and bl = "lh_block s" and d = "disk s (lg_start s)", folded header_def]
  show hb: "hdr_block (d (lg_start s)) i = home s i" if "i < n" for i
    using ph(2) n31 that by (simp add: hd home_def)
  have "inj_on (hdr_block (header s n)) {..<n} = inj_on (home s) {..<n}"
    using hb by (intro inj_on_cong) (simp add: hd)
  then show "log_ok s d n" using t hb ph(1) n31 by (simp add: log_ok_def tran_def hd)
  show "d (logblk s i) = cont s (home s i)" if i: "i < n"
  proof -
    have "logblk s i \<notin> home s ` {..<n}" using tran_ne [OF t _ i] by (metis imageE lessThan_iff)
    moreover have "inj_on (logblk s) {..<n}" using t by (intro inj_on_subset [OF logblk_inj]) (auto simp: tran_def)
    then have "apply_writes (log_writes s n) (disk s) (logblk s i) = cont s (home s i)"
      unfolding log_writes_def using i by (rule apply_writes_in)
    moreover have "logblk s i \<noteq> lg_start s" using logblk_start [of i s] i t by (simp add: tran_def)
    ultimately show ?thesis using apply_writes_other [OF off] by (simp add: d)
  qed
  assume x: "x \<notin> logreg s" "x \<notin> home s ` {..<n}"
  have "fst ` set (log_writes s n) \<subseteq> logreg s" using t by (auto simp: log_writes_def logreg_def tran_def)
  then have "x \<notin> fst ` set (log_writes s n)" "x \<noteq> lg_start s" using x by (auto simp: logreg_def)
  then show "d x = disk s x" using apply_writes_other [OF off [OF x(2)]] by (simp add: d apply_writes_other)
qed

lemma crash_done:
  assumes s: "ready s n"
  defines "d \<equiv> apply_writes (commit_writes s n) (disk s)"
  shows "log_ok s d 0" "x \<notin> logreg s \<Longrightarrow> d x = cont s x"
proof -
  have t: "tran s n" using s by (simp add: ready_def)
  let ?hw = "map (\<lambda>i. (home s i, cont s (home s i))) [0..<n]"
  have d: "d = (apply_writes ?hw ((apply_writes (log_writes s n) (disk s))(lg_start s := header s n)))
      (lg_start s := put_head 0 (lh_block s) (header s n))"
    by (simp add: d_def commit_writes_split apply_writes_append apply_writes_Cons)
  show "log_ok s d 0" by (simp add: d log_ok_def put_head(1))
  assume x: "x \<notin> logreg s"
  have ne: "x \<noteq> lg_start s" using x by (simp add: logreg_def)
  show "d x = cont s x"
  proof (cases "x \<in> home s ` {..<n}")
    case True
    then obtain i where i: "i < n" "x = home s i" by auto
    have "inj_on (home s) {..<n}" using t by (simp add: tran_def)
    from apply_writes_in [OF this i(1), of "\<lambda>i. cont s (home s i)"] show ?thesis using ne by (simp add: d i(2))
  next
    case False
    have "fst ` set (log_writes s n) \<subseteq> logreg s" using t by (auto simp: log_writes_def logreg_def tran_def)
    then have "x \<notin> fst ` set (log_writes s n)" using x by blast
    moreover have "x \<notin> fst ` set ?hw" using False by auto
    ultimately have "d x = disk s x" using ne by (simp add: d apply_writes_other)
    moreover have "refs s x = 0" using s False by (simp add: ready_def)
    then have "cont s x = disk s x" using s by (intro clean_block) (simp_all add: ready_def idle_def)
    ultimately show ?thesis by simp
  qed
qed

lemma log_ok_cong: "lg_start b = lg_start s \<Longrightarrow> log_ok b d n = log_ok s d n"
  by (simp add: log_ok_def logreg_def logblk_def)

lemma recover_empty:
  assumes "boots s d b" "log_ok s d 0"
  shows "\<exists>b'. recover_from_log b = Ok b' \<and> (\<forall>x. x \<notin> logreg s \<longrightarrow> disk b' x = d x)"
proof -
  have b: "idle b" "refs b = (\<lambda>_. 0)" "length (lh_block b) = LOGSIZE" "log_ok b (disk b) 0" "lg_start b = lg_start s" "disk b = d"
    using assms log_ok_cong [of b s] by (simp_all add: boots_def)
  from recover_ok [OF b(1-4)] show ?thesis using b(5,6) by (auto simp: logreg_def)
qed

lemma crash_recovers:
  assumes s: "ready s n" and k: "k \<le> length (commit_writes s n)"
    and b: "boots s (apply_writes (take k (commit_writes s n)) (disk s)) b"
  shows "\<exists>b'. recover_from_log b = Ok b' \<and>
    (\<forall>x. x \<notin> logreg s \<longrightarrow> disk b' x = (if k \<le> n then disk s x else cont s x))"
proof -
  have len: "length (commit_writes s n) = 2 * n + 2" by (simp add: commit_writes_split log_writes_def)
  consider "k \<le> n" | j where "k = Suc (n + j)" "j \<le> n" | "k = 2 * n + 2" "n < k"
  proof -
    assume a: "k \<le> n \<Longrightarrow> thesis" "\<And>j. k = Suc (n + j) \<Longrightarrow> j \<le> n \<Longrightarrow> thesis" "k = 2 * n + 2 \<Longrightarrow> n < k \<Longrightarrow> thesis"
    show thesis
    proof (cases "k \<le> n \<or> k = 2 * n + 2")
      case False
      then show thesis using a(2) [of "k - Suc n"] k len by linarith
    qed (use a(1,3) in auto)
  qed
  then show ?thesis
  proof cases
    case 1
    note c = crash_before [OF s 1]
    from recover_empty [OF b c(1)] show ?thesis using 1 c(2) by auto
  next
    case (2 j)
    note c = crash_after [OF s 2(2), folded 2(1)]
    let ?d = "apply_writes (take k (commit_writes s n)) (disk s)"
    have bb: "idle b" "refs b = (\<lambda>_. 0)" "length (lh_block b) = LOGSIZE" "log_ok b (disk b) n" "lg_start b = lg_start s" "disk b = ?d"
      using b log_ok_cong [of b s] c(1) by (simp_all add: boots_def)
    have lb: "logblk b = logblk s" using bb(5) by (simp add: logblk_def fun_eq_iff)
    have m: "map (\<lambda>i. (hdr_block (?d (lg_start s)) i, ?d (logblk s i))) [0..<n] =
        map (\<lambda>i. (home s i, cont s (home s i))) [0..<n]" using c(2,3) by simp
    from recover_ok [OF bb(1-4)] obtain b' where r: "recover_from_log b = Ok b'"
      "\<And>x. x \<noteq> lg_start s \<Longrightarrow> disk b' x = apply_writes (map (\<lambda>i. (home s i, cont s (home s i))) [0..<n]) ?d x"
      unfolding bb(5,6) lb m by blast
    have "disk b' x = cont s x" if x: "x \<notin> logreg s" for x
    proof -
      have ne: "x \<noteq> lg_start s" using x by (simp add: logreg_def)
      show ?thesis
      proof (cases "x \<in> home s ` {..<n}")
        case True
        then obtain i where i: "i < n" "x = home s i" by auto
        have "inj_on (home s) {..<n}" using s by (simp add: ready_def tran_def)
        from apply_writes_in [OF this i(1), of "\<lambda>i. cont s (home s i)"] r(2) [OF ne] show ?thesis by (simp add: i(2))
      next
        case False
        then have "x \<notin> fst ` set (map (\<lambda>i. (home s i, cont s (home s i))) [0..<n])" by auto
        then have "disk b' x = disk s x" using r(2) [OF ne] apply_writes_other c(4) [OF x False] by simp
        moreover have "refs s x = 0" using s False by (simp add: ready_def)
        then have "cont s x = disk s x" using s by (intro clean_block) (simp_all add: ready_def idle_def)
        ultimately show ?thesis by simp
      qed
    qed
    with r(1) 2 show ?thesis by auto
  next
    case 3
    then have tk: "take k (commit_writes s n) = commit_writes s n" using len by simp
    note c = crash_done [OF s]
    from recover_empty [OF b, unfolded tk, OF c(1)] show ?thesis using 3 c(2) by auto
  qed
qed

section \<open>Transactions\<close>

lemma absorb_le: "absorb b xs \<le> length xs"
  by (induction xs) auto

lemma absorb_in: "b \<in> set xs \<Longrightarrow> absorb b xs < length xs \<and> xs ! absorb b xs = b"
  by (induction xs) auto

lemma absorb_notin: "b \<notin> set xs \<Longrightarrow> absorb b xs = length xs"
  by (induction xs) auto

text \<open>
  Within a transaction of \<open>n\<close> logged blocks: a block is referenced once for its place in the
  log and once for a lock on it.
\<close>

definition txn :: "'z klog_scheme \<Rightarrow> nat \<Rightarrow> bool" where
  "txn s n \<longleftrightarrow> binv s \<and> tran s n \<and> lg_dev s = ROOTDEV \<and> length (lh_block s) = LOGSIZE \<and>
     refs s = (\<lambda>b. of_bool (b \<in> home s ` {..<n}) + of_bool (b \<in> held s)) \<and>
     hdr_n (disk s (lg_start s)) = 0 \<and> \<not> lg_committing s"

lemma txn_ready: "txn s n \<Longrightarrow> held s = {} \<Longrightarrow> n < NBUF \<Longrightarrow> ready s n"
  by (auto simp: txn_def ready_def idle_def)

lemma txn_busy: "txn s n \<Longrightarrow> finite (held s) \<Longrightarrow> busy s \<le> n + card (held s)"
proof -
  assume t: "txn s n" "finite (held s)"
  then have "{b. refs s b \<noteq> 0} = home s ` {..<n} \<union> held s" by (auto simp: txn_def)
  then have "busy s = card (home s ` {..<n} \<union> held s)" using t by (simp add: txn_def busy_refs)
  also have "\<dots> \<le> card (home s ` {..<n}) + card (held s)" by (rule card_Un_le)
  also have "\<dots> \<le> n + card (held s)" using card_image_le [of "{..<n}" "home s"] by simp
  finally show ?thesis .
qed

lemma finite_held [simp]: "finite (held s)"
  by simp

lemma txn_cong:
  assumes "txn s n" "binv s'" "lgf s' = lgf s" "disk s' = disk s"
    "refs s' = (\<lambda>b. of_bool (b \<in> home s ` {..<n}) + of_bool (b \<in> held s'))"
  shows "txn s' n"
  using assms lgf_eq [OF assms(3)] logblk_cong [OF assms(3)] home_cong [OF assms(3)]
  by (simp add: txn_def tran_def logreg_def)

lemma txn_bread:
  assumes t: "txn s n" and b: "b \<notin> held s" and room: "n + card (held s) < NBUF"
  shows "\<exists>i s'. bread ROOTDEV b s = Ok (i, s') \<and> bread_post s b i s' \<and> txn s' n"
proof -
  have "busy s < NBUF" using txn_busy [OF t] room by simp
  moreover have "refs s b < 2 ^ 32 - 1" "binv s" using t by (simp_all add: txn_def)
  ultimately obtain i s' where r: "bread ROOTDEV b s = Ok (i, s')" "bread_post s b i s'"
    using bread_ok [of s b] b by blast
  note p = bread_postD [OF r(2)]
  have "refs s' = (\<lambda>x. of_bool (x \<in> home s ` {..<n}) + of_bool (x \<in> held s'))"
    using p(5,6) t b by (auto simp: txn_def fun_eq_iff)
  then have "txn s' n" using p by (intro txn_cong [OF t]) auto
  with r show ?thesis by blast
qed

lemma txn_write:
  assumes t: "txn s n" and m: "b \<in> mine s" "slot s b = Some i" "b_valid (bufs s ! i)"
    and s': "s' = upd_buf i (\<lambda>x. x\<lparr>b_data := f (b_data x)\<rparr>) s"
  shows "txn s' n"
proof -
  have inv: "binv s" using t by (simp add: txn_def)
  note w = write_data_spec [OF inv m s']
  show ?thesis
    using t w disk_frame(1) [OF w(9)] lgf_frame(1) [OF w(9)] by (intro txn_cong [OF t]) (auto simp: txn_def)
qed

text \<open>Releasing a block: it is in the log, or it was not changed.\<close>

lemma txn_brelse:
  assumes t: "txn s n" and m: "b \<in> mine s" "slot s b = Some i"
    and clean: "b \<notin> home s ` {..<n} \<Longrightarrow> cont s b = disk s b"
  shows "\<exists>s'. brelse i s = Ok s' \<and> brelse_post s b s' \<and> txn s' n"
proof -
  have inv: "binv s" using t by (simp add: txn_def)
  have h: "b \<in> held s" using m mine_held by blast
  have "refs s b = 1 \<Longrightarrow> cont s b = disk s b" using t clean h by (auto simp: txn_def split: if_splits)
  from brelse_ok [OF inv m this] obtain s' where r: "brelse i s = Ok s'" "brelse_post s b s'" by blast
  note p = brelse_postD [OF r(2)]
  have "refs s' = (\<lambda>x. of_bool (x \<in> home s ` {..<n}) + of_bool (x \<in> held s'))"
    using p(4,5) t h by (auto simp: txn_def fun_eq_iff)
  then have "txn s' n" using p by (intro txn_cong [OF t]) auto
  with r show ?thesis by blast
qed

text \<open>\<^verbatim>\<open>log_write\<close>: the block joins the transaction, once.\<close>

lemma txn_log_write:
  assumes t: "txn s n" and m: "b \<in> mine s" "slot s b = Some i" and nl: "b \<notin> logreg s"
    and room: "n < LOGSIZE" "int n < lg_size s - 1" and o: "1 \<le> lg_outstanding s"
  shows "\<exists>s' n'. log_write i s = Ok s' \<and> txn s' n' \<and> n' = (if b \<in> home s ` {..<n} then n else Suc n) \<and>
    home s' ` {..<n'} = insert b (home s ` {..<n}) \<and> slot s' = slot s \<and> cont s' = cont s \<and> held s' = held s \<and>
    mine s' = mine s \<and> disk s' = disk s \<and> dwrites s' = dwrites s \<and> lg_start s' = lg_start s \<and>
    lg_size s' = lg_size s \<and> lg_outstanding s' = lg_outstanding s \<and> same_procs s s' \<and>
    (\<forall>j. b_valid (bufs s' ! j) = b_valid (bufs s ! j))"
proof -
  have inv: "binv s" and tr: "tran s n" and len: "length (lh_block s) = LOGSIZE"
    and rf: "refs s = (\<lambda>b. of_bool (b \<in> home s ` {..<n}) + of_bool (b \<in> held s))"
    using t by (simp_all add: txn_def)
  have ln: "lh_n s = int n" "n \<le> LOGSIZE" using tr by (simp_all add: tran_def)
  have bno: "b_blockno (bufs s ! i) = b" using mineD(7) [OF inv m] by (simp add: holds_def)
  let ?xs = "take n (lh_block s)"
  have "home s = (!) (lh_block s)" by (simp add: home_def fun_eq_iff)
  then have xs: "set ?xs = home s ` {..<n}" "length ?xs = n"
    using len ln nth_image [of n "lh_block s"] by (simp_all add: lessThan_atLeast0)
  have g: "\<not> (lh_n s \<ge> int LOGSIZE \<or> lh_n s \<ge> lg_size s - 1)" "\<not> lg_outstanding s < 1" using ln room o by auto
  show ?thesis
  proof (cases "b \<in> home s ` {..<n}")
    case True
    then have a: "absorb b ?xs < n" "?xs ! absorb b ?xs = b" using absorb_in [of b ?xs] xs by auto
    then have "(lh_block s)[absorb b ?xs := b] = lh_block s" by (simp add: list_update_same_conv len ln order_less_le_trans)
    then have "log_write i s = Ok s" using g a(1) ln bno by (simp add: log_write_def Let_def)
    then show ?thesis using t True same_procs_refl by (intro exI [of _ s] exI [of _ n]) auto
  next
    case False
    then have a: "absorb b ?xs = n" using absorb_notin [of b ?xs] xs by auto
    have b32: "refs s b < 2 ^ 32 - 1" using rf by simp
    note pin = bpin_spec [OF inv m b32]
    let ?s1 = "s\<lparr>lh_block := (lh_block s)[n := b]\<rparr>"
    let ?s' = "(bpin i s)\<lparr>lh_block := (lh_block s)[n := b], lh_n := int (Suc n)\<rparr>"
    have "log_write i s = Ok ?s'"
      using g a ln bno by (simp add: log_write_def Let_def bpin_def upd_buf_def)
    moreover have v: "binv ?s'" "slot ?s' = slot s" "cont ?s' = cont s" "refs ?s' = (refs s)(b := Suc (refs s b))"
      "held ?s' = held s" "mine ?s' = mine s"
      using pin(1-7) by (simp_all add: view_lh)
    moreover have hm: "home ?s' j = (if j = n then b else home s j)" if "j < Suc n" for j
      using that len room by (simp add: home_def nth_list_update)
    have im: "home ?s' ` {..<Suc n} = insert b (home s ` {..<n})"
      using hm by (auto simp: lessThan_Suc image_iff)
    have lb: "logblk ?s' = logblk s" "logreg ?s' = logreg s"
      using lgf_eq(1) [OF lgf_frame(1) [OF pin(8)]] by (simp_all add: logblk_def logreg_def fun_eq_iff)
    have "inj_on (home ?s') {..<Suc n}"
      using tr False hm by (auto simp: inj_on_def tran_def less_Suc_eq)
    moreover have "\<forall>j<Suc n. home ?s' j \<notin> logreg ?s'" using tr nl hm lb by (auto simp: tran_def less_Suc_eq)
    ultimately have "tran ?s' (Suc n)" using room by (simp add: tran_def)
    moreover have "refs ?s' = (\<lambda>x. of_bool (x \<in> home ?s' ` {..<Suc n}) + of_bool (x \<in> held ?s'))"
      unfolding im v(4,5) using rf False by (auto simp: fun_eq_iff)
    moreover have fr: "lg_dev (bpin i s) = lg_dev s" "lg_start (bpin i s) = lg_start s" "lg_size (bpin i s) = lg_size s"
      "lg_outstanding (bpin i s) = lg_outstanding s" "lg_committing (bpin i s) = lg_committing s"
      "disk (bpin i s) = disk s" "dwrites (bpin i s) = dwrites s" "same_procs s (bpin i s)"
      using lgf_eq [OF lgf_frame(1) [OF pin(8)]] disk_frame(1) [OF pin(8)] by simp_all
    moreover have "length (lh_block ?s') = LOGSIZE" using len by simp
    ultimately have "txn ?s' (Suc n)" using t v(1) by (simp add: txn_def)
    with \<open>log_write i s = Ok ?s'\<close> v im fr False pin(9) show ?thesis
      by (intro exI [of _ ?s'] exI [of _ "Suc n"]) (simp add: same_procs_def)
  qed
qed

end
