(* ===== verification/LogProps.thy ===== *)
theory LogProps
  imports LogTxn
begin

text \<open>
  The properties of the buffer cache and the log, with an example: a freshly booted kernel on
  a zeroed disk whose log starts at block 2, and a transaction that updates block 50.
\<close>

section \<open>The end of an operation\<close>

lemma view_log_fields:
  "binv (s\<lparr>lg_outstanding := k, lg_committing := c\<rparr>) = binv s" "held (s\<lparr>lg_outstanding := k, lg_committing := c\<rparr>) = held s"
  "refs (s\<lparr>lg_outstanding := k, lg_committing := c\<rparr>) = refs s" "cont (s\<lparr>lg_outstanding := k, lg_committing := c\<rparr>) = cont s"
proof -
  have s: "slot (s\<lparr>lg_outstanding := k, lg_committing := c\<rparr>) = slot s" by (simp add: slot_def fun_eq_iff)
  show "binv (s\<lparr>lg_outstanding := k, lg_committing := c\<rparr>) = binv s" "held (s\<lparr>lg_outstanding := k, lg_committing := c\<rparr>) = held s"
    "refs (s\<lparr>lg_outstanding := k, lg_committing := c\<rparr>) = refs s" "cont (s\<lparr>lg_outstanding := k, lg_committing := c\<rparr>) = cont s"
    by (simp_all add: binv_def held_def refs_def s cont_def fun_eq_iff split: option.split)
qed

lemma ready_log_fields:
  "ready (s\<lparr>lg_outstanding := k, lg_committing := c\<rparr>) n = ready s n"
proof -
  have "home (s\<lparr>lg_outstanding := k, lg_committing := c\<rparr>) = home s" by (simp add: home_def fun_eq_iff)
  moreover have "logreg (s\<lparr>lg_outstanding := k, lg_committing := c\<rparr>) = logreg s" by (simp add: logreg_def logblk_def [abs_def])
  ultimately show ?thesis by (simp add: ready_def idle_def tran_def view_log_fields)
qed

lemma view_wakeup:
  assumes "binv s"
  shows "binv (wakeup c s)" "held (wakeup c s) = held s" "refs (wakeup c s) = refs s" "cont (wakeup c s) = cont s"
proof -
  have s: "slot (wakeup c s) = slot s" by (simp add: slot_def fun_eq_iff wakeup_def)
  show "binv (wakeup c s)" using assms by (simp add: binv_def wakeup_def)
  show "held (wakeup c s) = held s" "refs (wakeup c s) = refs s" "cont (wakeup c s) = cont s"
    by (simp_all add: held_def refs_def cont_def s fun_eq_iff) (simp_all add: wakeup_def split: option.split)
qed

lemma end_op_last:
  assumes t: "txn s n" "held s = {}" "n < NBUF" "lg_outstanding s = 1"
  shows "\<exists>s'. end_op s = Ok s' \<and> idle s' \<and> refs s' = (\<lambda>_. 0) \<and> lh_n s' = 0 \<and> lg_outstanding s' = 0 \<and>
    \<not> lg_committing s' \<and> hdr_n (disk s' (lg_start s)) = 0 \<and> (\<forall>x. x \<notin> logreg s \<longrightarrow> disk s' x = cont s x) \<and>
    dwrites s' = dwrites s @ (if n = 0 then [] else commit_writes s n)"
proof -
  have r: "ready s n" by (rule txn_ready [OF t(1-3)])
  let ?s1 = "s\<lparr>lg_outstanding := 0, lg_committing := True\<rparr>"
  have r1: "ready ?s1 n" using r by (simp add: ready_log_fields)
  have c: "lg_committing s = False" "lh_n s = int n" using t by (simp_all add: txn_def tran_def)
  have rw: "refs (wakeup c x) = refs x" "binv x \<Longrightarrow> binv (wakeup c x)" "held (wakeup c x) = held x" if "binv x"
    for c and x :: "'a klog_scheme" using view_wakeup [OF that] by auto
  show ?thesis
  proof (cases "n = 0")
    case True
    then have e: "end_op s = Ok (wakeup Chan_log (s\<lparr>lg_outstanding := 0, lg_committing := False\<rparr>))"
      using c t(4) by (simp add: end_op_def commit_def Let_def)
    have "refs s = (\<lambda>_. 0)" using r True by (simp add: ready_def)
    then have "disk s x = cont s x" for x
      using clean_block [of s x] r by (simp only: ready_def idle_def)
    moreover have "binv (s\<lparr>lg_outstanding := 0, lg_committing := False\<rparr>)" using r by (simp add: ready_def idle_def view_log_fields)
    ultimately show ?thesis
      using e r True c view_wakeup [of "s\<lparr>lg_outstanding := 0, lg_committing := False\<rparr>" Chan_log] \<open>refs s = (\<lambda>_. 0)\<close>
      by (simp add: ready_def idle_def view_log_fields wakeup_def)
  next
    case False
    then obtain s2 where s2: "commit ?s1 = Ok s2" "idle s2" "refs s2 = (\<lambda>_. 0)" "lh_n s2 = 0" "lg_start s2 = lg_start s"
      "lg_outstanding s2 = 0" "disk s2 = apply_writes (commit_writes ?s1 n) (disk s)"
      "dwrites s2 = dwrites s @ commit_writes ?s1 n"
      using commit_ok [OF r1] by auto
    have e: "end_op s = Ok (wakeup Chan_log (s2\<lparr>lg_committing := False\<rparr>))"
      using c t(4) s2(1) by (simp add: end_op_def Let_def)
    note d = crash_done [OF r1]
    have lr: "logreg ?s1 = logreg s" by (simp add: logreg_def logblk_def [abs_def])
    have f: "s2\<lparr>lg_committing := False\<rparr> = s2\<lparr>lg_outstanding := 0, lg_committing := False\<rparr>" using s2(6) by simp
    have cw: "commit_writes ?s1 n = commit_writes s n"
      by (simp add: commit_writes_def log_writes_def header_def view_log_fields home_def logblk_def)
    have b: "binv (s2\<lparr>lg_committing := False\<rparr>)" using s2(2) unfolding f by (simp add: idle_def view_log_fields)
    have "hdr_n (disk s2 (lg_start s)) = 0" using d(1) s2(7) by (simp add: log_ok_def)
    moreover have "disk s2 x = cont s x" if "x \<notin> logreg s" for x
      using d(2) [of x] s2(7) that lr by (simp add: view_log_fields)
    ultimately show ?thesis
      using e s2(2-6) s2(8) view_wakeup [OF b, of Chan_log] b False unfolding f cw
      by (simp add: idle_def view_log_fields) (simp add: wakeup_def)
  qed
qed

section \<open>Updating a block\<close>

text \<open>The way the file system changes a block, as the comment at \<^verbatim>\<open>log_write\<close> gives it.\<close>

definition log_update :: "uint32 \<Rightarrow> (block \<Rightarrow> block) \<Rightarrow> 'z klog_scheme \<Rightarrow> 'z klog_scheme res" where
  "log_update bno f s =
     and_then (bread ROOTDEV bno s) (\<lambda>(i, s).
     and_then (log_write i (upd_buf i (\<lambda>x. x\<lparr>b_data := f (b_data x)\<rparr>) s)) (\<lambda>s.
     brelse i s))"

lemma log_update_ok:
  assumes t: "txn s n" "held s = {}" and b: "b \<notin> logreg s"
    and room: "n < LOGSIZE" "n < NBUF" "int n < lg_size s - 1" and o: "1 \<le> lg_outstanding s"
  shows "\<exists>s' n'. log_update b f s = Ok s' \<and> txn s' n' \<and> n' = (if b \<in> home s ` {..<n} then n else Suc n) \<and>
    home s' ` {..<n'} = insert b (home s ` {..<n}) \<and> held s' = {} \<and> cont s' = (cont s)(b := f (cont s b)) \<and>
    disk s' = disk s \<and> lg_start s' = lg_start s \<and> lg_size s' = lg_size s \<and> lg_outstanding s' = lg_outstanding s"
proof -
  obtain i s1 where r: "bread ROOTDEV b s = Ok (i, s1)" "bread_post s b i s1" "txn s1 n"
    using txn_bread [OF t(1), of b] t(2) room by auto
  note p = bread_postD [OF r(2)]
  note g1 = lgf_eq [OF p(11)]
  define s2 where "s2 = upd_buf i (\<lambda>x. x\<lparr>b_data := f (b_data x)\<rparr>) s1"
  have m: "b \<in> mine s1" using p(7) by simp
  note w = write_data_spec [OF p(1) m p(2) p(3) s2_def]
  have t2: "txn s2 n" by (rule txn_write [OF r(3) m p(2) p(3) s2_def])
  note g2 = lgf_eq [OF lgf_frame(1) [OF w(9)]]
  have h2: "home s2 = home s" using g1(7) g2(7) by (simp add: home_def fun_eq_iff)
  have l2: "logreg s2 = logreg s" using g1(1) g2(1) by (simp add: logreg_def logblk_def [abs_def])
  obtain s3 n' where u: "log_write i s2 = Ok s3" "txn s3 n'" "n' = (if b \<in> home s2 ` {..<n} then n else Suc n)"
    "home s3 ` {..<n'} = insert b (home s2 ` {..<n})" "slot s3 = slot s2" "cont s3 = cont s2" "held s3 = held s2"
    "mine s3 = mine s2" "disk s3 = disk s2" "lg_start s3 = lg_start s2" "lg_size s3 = lg_size s2"
    "lg_outstanding s3 = lg_outstanding s2"
    using txn_log_write [OF t2, of b i] b room(1,3) o m p(2) w(2,6) l2 g1 g2 by (auto simp: )
  have "b \<in> mine s3" "slot s3 b = Some i" "b \<in> home s3 ` {..<n'}" using u m p(2) w(2,6) by simp_all
  from txn_brelse [OF u(2) this(1,2)] this(3)
  obtain s4 where v: "brelse i s3 = Ok s4" "brelse_post s3 b s4" "txn s4 n'" by auto
  note q = brelse_postD [OF v(2)]
  note g4 = lgf_eq [OF q(10)]
  have "home s4 = home s3" using g4(7) by (simp add: home_def fun_eq_iff)
  moreover have "log_update b f s = Ok s4" using r(1) u(1) v(1) by (simp add: log_update_def s2_def)
  moreover have "held s4 = {}" using q(5) u(7) w(5) p(6) t(2) by simp
  moreover have "disk s4 = disk s" using q(8) u(9) disk_frame(1) [OF w(9)] p(9) by simp
  ultimately show ?thesis using v(3) u(3,4,6,10-12) q(3) w(3) p(4) g1 g2 g4 h2
    by (intro exI [of _ s4] exI [of _ n']) auto
qed

text \<open>A sequence of updates, and what it leaves.\<close>

fun log_updates :: "(uint32 \<times> block) list \<Rightarrow> 'z klog_scheme \<Rightarrow> 'z klog_scheme res" where
  "log_updates [] s = Ok s"
| "log_updates ((b, v) # us) s = and_then (log_update b (\<lambda>_. v) s) (log_updates us)"

lemma log_updates_ok:
  assumes "txn s n" "held s = {}" "\<forall>b\<in>fst ` set us. b \<notin> logreg s" "n + length us < NBUF"
    "int (n + length us) < lg_size s" "1 \<le> lg_outstanding s"
  shows "\<exists>s' n'. log_updates us s = Ok s' \<and> txn s' n' \<and> n' \<le> n + length us \<and> held s' = {} \<and>
    home s' ` {..<n'} = fst ` set us \<union> home s ` {..<n} \<and>
    cont s' = apply_writes us (cont s) \<and> disk s' = disk s \<and> lg_start s' = lg_start s \<and>
    lg_size s' = lg_size s \<and> lg_outstanding s' = lg_outstanding s"
  using assms
proof (induction us arbitrary: s n)
  case Nil
  then show ?case by auto
next
  case (Cons u us)
  obtain b v where u: "u = (b, v)" by fastforce
  have n: "n < LOGSIZE" "n < NBUF" "int n < lg_size s - 1" using Cons.prems(4,5) by (auto simp: NBUF_def LOGSIZE_eq)
  obtain s1 n1 where r: "log_update b (\<lambda>_. v) s = Ok s1" "txn s1 n1" "n1 \<le> Suc n"
    "home s1 ` {..<n1} = insert b (home s ` {..<n})" "held s1 = {}" "cont s1 = (cont s)(b := v)"
    "disk s1 = disk s" "lg_start s1 = lg_start s" "lg_size s1 = lg_size s" "lg_outstanding s1 = lg_outstanding s"
    using log_update_ok [OF Cons.prems(1,2) _ n, of b "\<lambda>_. v"] Cons.prems(3,6) by (auto simp: u split: if_splits)
  have "logreg s1 = logreg s" using r(8) by (simp add: logreg_def logblk_def [abs_def])
  then obtain s' n' where "log_updates us s1 = Ok s'" "txn s' n'" "n' \<le> n1 + length us" "held s' = {}"
    "home s' ` {..<n'} = fst ` set us \<union> home s1 ` {..<n1}" "cont s' = apply_writes us (cont s1)" "disk s' = disk s1"
    "lg_start s' = lg_start s1" "lg_size s' = lg_size s1" "lg_outstanding s' = lg_outstanding s1"
    using Cons.IH [OF r(2,5)] Cons.prems(3-6) r(3,9,10) by auto
  then show ?case using r by (intro exI [of _ s'] exI [of _ n']) (auto simp: u apply_writes_Cons)
qed

end
