(* ===== verification/LogThms.thy ===== *)
theory LogThms
  imports LogProps
begin

text \<open>
  The properties of the buffer cache and of the log, with the example they are applied to: a
  kernel booted on a zeroed disk whose log has its header in block 2.
\<close>

section \<open>An example\<close>

definition zero_buf :: buf where
  "zero_buf = \<lparr>b_valid = False, b_dev = 0, b_blockno = 0, b_lock = initsleeplock, b_refcnt = 0, b_prev = 0, b_next = 0,
     b_data = (\<lambda>_. 0)\<rparr>"

definition proc1 :: kproc where
  "proc1 = \<lparr>p_state = RUNNING, p_chan = None, p_killed = False, p_xstate = 0, p_pid = 1, p_parent = None, p_kstack = 0,
     p_sz = 0, p_pagetable = 0x80003000, p_trapframe = 0, p_context = \<lparr>ctx_ra = 0, ctx_sp = 0, ctx_s = []\<rparr>,
     p_ofile = replicate NOFILE None, p_cwd = None, p_name = [], p_swapFile = None, p_ram = [], p_swap = [],
     p_fifo_counter = 0\<rparr>"

definition boot_on :: "(uint32 \<Rightarrow> block) \<Rightarrow> klog" where
  "boot_on d = binit
     \<lparr>ram = ram one_page, freelist = freelist one_page, kend = kend one_page, ketext = ketext one_page,
      ktrampoline = ktrampoline one_page, procs = [proc1], cur = 0, nextpid = 2, initproc = Some 0, kforkret = 0,
      bufs = replicate (Suc NBUF) zero_buf, disk = d, dwrites = [],
      lg_start = 2, lg_size = 30, lg_outstanding = 0, lg_committing = False, lg_dev = ROOTDEV, lh_n = 0,
      lh_block = replicate LOGSIZE 0\<rparr>"

definition booted :: klog where
  "booted = boot_on (\<lambda>_ _. 0)"

lemma booted_fields:
  "disk booted = (\<lambda>_ _. 0)" "dwrites booted = []" "lg_start booted = 2" "lg_size booted = 30" "lg_outstanding booted = 0"
  "lg_committing booted = False" "lg_dev booted = ROOTDEV" "lh_n booted = 0" "lh_block booted = replicate LOGSIZE 0"
  "procs booted = [proc1]" "cur booted = 0"
  by (simp_all add: booted_def boot_on_def binit_def Let_def)

lemma boot_on_binv:
  "binv (boot_on d)" "cont (boot_on d) = d" "refs (boot_on d) = (\<lambda>_. 0)" "held (boot_on d) = {}"
proof -
  let ?s = "\<lparr>ram = ram one_page, freelist = freelist one_page, kend = kend one_page, ketext = ketext one_page,
      ktrampoline = ktrampoline one_page, procs = [proc1], cur = 0, nextpid = 2, initproc = Some 0, kforkret = 0,
      bufs = replicate (Suc NBUF) zero_buf, disk = d, dwrites = [],
      lg_start = 2, lg_size = 30, lg_outstanding = 0, lg_committing = False, lg_dev = ROOTDEV, lh_n = 0,
      lh_block = replicate LOGSIZE 0\<rparr>"
  have "length (bufs ?s) = Suc NBUF" "cur ?s < length (procs ?s)" by simp_all
  moreover have "\<forall>j<NBUF. b_refcnt (bufs ?s ! j) = 0 \<and> b_dev (bufs ?s ! j) \<noteq> ROOTDEV"
    by (simp add: zero_buf_def ROOTDEV_def del: replicate_Suc)
  ultimately show "binv (boot_on d)" "cont (boot_on d) = d" "refs (boot_on d) = (\<lambda>_. 0)" "held (boot_on d) = {}"
    using binit_spec [of ?s] by (simp_all add: boot_on_def fun_eq_iff)
qed

lemmas booted_binv = boot_on_binv [where d = "\<lambda>_ _. 0", folded booted_def]


lemma booted_txn: "txn booted 0"
  unfolding txn_def tran_def using booted_binv by (simp add: booted_fields fun_eq_iff hdr_n_def rd32_def)

lemma txn_begin:
  assumes "txn s n" "begin_op s = Ok s'"
  shows "txn s' n" "held s' = held s" "cont s' = cont s" "logreg s' = logreg s" "disk s' = disk s" "dwrites s' = dwrites s"
    "lg_size s' = lg_size s" "lg_outstanding s' = lg_outstanding s + 1" "lg_start s' = lg_start s" "home s' = home s"
proof -
  have s': "s' = s\<lparr>lg_outstanding := lg_outstanding s + 1, lg_committing := lg_committing s\<rparr>"
    using assms(2) by (simp add: begin_op_def split: if_splits)
  then show "disk s' = disk s" "dwrites s' = dwrites s" "lg_size s' = lg_size s"
    "lg_outstanding s' = lg_outstanding s + 1" "lg_start s' = lg_start s" by simp_all
  have h: "home s' = home s" and l: "logreg s' = logreg s"
    by (simp_all add: s' home_def logreg_def logblk_def [abs_def] fun_eq_iff)
  then show "home s' = home s" "logreg s' = logreg s" by simp_all
  show v: "held s' = held s" "cont s' = cont s" unfolding s' by (rule view_log_fields)+
  have "binv s' = binv s" "refs s' = refs s" unfolding s' by (rule view_log_fields)+
  moreover have "lg_dev s' = lg_dev s" "lh_block s' = lh_block s" "lh_n s' = lh_n s" "disk s' = disk s"
    "lg_start s' = lg_start s" "lg_committing s' = lg_committing s" by (simp_all add: s')
  ultimately show "txn s' n" using assms(1) h l v(1) by (simp add: txn_def tran_def)
qed



lemma booted_logreg: "50 \<notin> logreg booted"
  "i < 40 \<Longrightarrow> 100 + word_of_nat i \<notin> logreg booted"
proof -
  have far: "b \<notin> logreg booted" if b: "33 \<le> unat b" for b
  proof
    assume "b \<in> logreg booted"
    then consider "b = 2" | j where "j < 30" "b = 2 + word_of_nat j + 1"
      by (auto simp: logreg_def logblk_def booted_fields LOGSIZE_eq)
    then show False using b by cases (auto simp: unat_word_ariths unat_of_nat)
  qed
  show "50 \<notin> logreg booted" by (rule far) simp
  assume "i < 40"
  then have "unat (100 + word_of_nat i :: uint32) = 100 + i" by (simp add: unat_word_ariths unat_of_nat)
  then show "100 + word_of_nat i \<notin> logreg booted" by (intro far) simp
qed


section \<open>Properties\<close>





text \<open>
  C18. The reservations of \<^verbatim>\<open>begin_op\<close> overrun the log. \<^verbatim>\<open>begin_op\<close> counts with \<^const>\<open>LOGSIZE\<close> while
  \<^verbatim>\<open>log_write\<close> stops one block earlier: on the log that mkfs makes, three operations are
  admitted at once, 29 distinct blocks can be logged, and the thirtieth, still within the
  three reservations of \<^const>\<open>MAXOPBLOCKS\<close> blocks, panics.
\<close>

theorem begin_op_overcommits:
  "\<exists>s s'. and_then (begin_op booted) (\<lambda>s. and_then (begin_op s) begin_op) = Ok s \<and> lg_outstanding s = 3 \<and>
     log_updates (map (\<lambda>i. (100 + word_of_nat i, \<lambda>_. 7)) [0..<29]) s = Ok s' \<and>
     log_update 200 (\<lambda>_ _. 7) s' = Panic ''too big a transaction''"
proof -
  let ?us = "map (\<lambda>i. (100 + word_of_nat i, \<lambda>_. 7)) [0..<29] :: (uint32 \<times> block) list"
  define s1 where "s1 = booted\<lparr>lg_outstanding := 1\<rparr>"
  define s2 where "s2 = booted\<lparr>lg_outstanding := 2\<rparr>"
  define s where "s = booted\<lparr>lg_outstanding := 3\<rparr>"
  have b: "begin_op booted = Ok s1" "begin_op s1 = Ok s2" "begin_op s2 = Ok s"
    by (simp_all add: begin_op_def booted_fields s1_def s2_def s_def MAXOPBLOCKS_def LOGSIZE_eq)
  note t1 = txn_begin [OF booted_txn b(1)]
  note t2 = txn_begin [OF t1(1) b(2)]
  note t3 = txn_begin [OF t2(1) b(3)]
  have "\<forall>b\<in>fst ` set ?us. b \<notin> logreg s" "held s = {}"
    using booted_logreg(2) t1 t2 t3 booted_binv by (auto simp: image_iff)
  then obtain s' n where r: "log_updates ?us s = Ok s'" "txn s' n" "held s' = {}" "home s' ` {..<n} = fst ` set ?us"
    "lg_size s' = 30" "lg_outstanding s' = 3" "n \<le> 29"
    using log_updates_ok [OF t3(1), of ?us] by (auto simp: s_def booted_fields NBUF_def)
  have "unat (100 + word_of_nat i :: uint32) = 100 + i" if "i < 29" for i
    using that by (simp add: unat_word_ariths unat_of_nat)
  then have "inj_on (\<lambda>i. 100 + word_of_nat i :: uint32) {..<29}"
    by (intro inj_onI) (metis add_left_cancel lessThan_iff)
  then have "card (fst ` set ?us) = 29" by (simp add: image_image card_image lessThan_atLeast0)
  then have n: "n = 29" using card_image [of "home s'" "{..<n}"] r(2,4) by (simp add: txn_def tran_def)
  obtain i s4 where br: "bread ROOTDEV 200 s' = Ok (i, s4)" "txn s4 n" "bread_post s' 200 i s4"
    using txn_bread [OF r(2), of 200] r(3) n by (auto simp: NBUF_def)
  have "lh_n s4 = 29" using br(2) n by (simp add: txn_def tran_def)
  moreover have "lg_size s4 = 30" using lgf_eq(2) [OF bread_postD(11) [OF br(3)]] r(5) by simp
  ultimately have "log_update 200 (\<lambda>_ _. 7) s' = Panic ''too big a transaction''"
    using br(1) by (simp add: log_update_def log_write_def upd_buf_def)
  moreover have "lg_outstanding s = 3" by (simp add: s_def)
  ultimately show ?thesis using b r(1) by auto
qed

text \<open>
  C19. One copy of every block. With the invariant of the cache and a free buffer, \<^verbatim>\<open>bread\<close> of a
  block nobody has locked returns a valid buffer with the block's current contents (the
  cached ones if there are any, else the disk's), locked by the caller and with one more
  reference; the contents of all blocks, and the buffers of blocks in use, are unchanged, and
  the invariant (no block is in two buffers, unused buffers agree with the disk) still holds.
\<close>

theorem bread_returns_current_copy:
  assumes "binv s" "bno \<notin> held s" "refs s bno \<noteq> 0 \<or> busy s < NBUF" "refs s bno < 2 ^ 32 - 1"
  shows "\<exists>i s'. bread ROOTDEV bno s = Ok (i, s') \<and> binv s' \<and> slot s' bno = Some i \<and> b_valid (bufs s' ! i) \<and>
    b_data (bufs s' ! i) = cont s bno \<and> bno \<in> mine s' \<and> cont s' = cont s \<and> disk s' = disk s \<and>
    refs s' = (refs s)(bno := refs s bno + 1) \<and> held s' = insert bno (held s) \<and>
    (\<forall>b j. b \<noteq> bno \<longrightarrow> slot s b = Some j \<longrightarrow> refs s b \<noteq> 0 \<longrightarrow> slot s' b = Some j \<and> bufs s' ! j = bufs s ! j)"
proof -
  obtain i s' where r: "bread ROOTDEV bno s = Ok (i, s')" "bread_post s bno i s'" using bread_ok [OF assms] by blast
  have e: "s' = s\<lparr>bufs := bufs s'\<rparr>" and m: "mine s' = insert bno (mine s)"
    using r(2) unfolding bread_post_def by blast+
  from e have "disk s' = disk s" by (metis kbio.select_convs(2) kbio.surjective kbio.update_convs(1))
  then show ?thesis using r(1,2) m unfolding bread_post_def by (intro exI [of _ i] exI [of _ s']) auto
qed

theorem bread_returns_current_copy_witness:
  "\<exists>i s'. bread ROOTDEV 5 booted = Ok (i, s') \<and> binv s' \<and> slot s' 5 = Some i \<and> b_valid (bufs s' ! i) \<and>
    b_data (bufs s' ! i) = (\<lambda>_. 0) \<and> held s' = {5}"
proof -
  have "busy booted < NBUF" using busy_refs [OF booted_binv(1)] booted_binv(3) by (simp add: NBUF_def)
  then show ?thesis using bread_returns_current_copy [of booted 5] booted_binv by auto
qed

text \<open>
  C20. Replacement order. With the buffers linked in the order \<open>xs\<close> of use, a miss in \<^verbatim>\<open>bget\<close> recycles
  the last buffer of that order that has no references and keeps the order, and
  panics exactly if there is none; \<^verbatim>\<open>brelse\<close> of the last reference moves the buffer to the
  front and keeps the order of the others.
\<close>

theorem bcache_replaces_lru:
  assumes "lru (bufs s) xs" "\<forall>i<NBUF. \<not> (b_dev (bufs s ! i) = dev \<and> b_blockno (bufs s ! i) = bno)"
    "\<forall>i<NBUF. b_refcnt (bufs s ! i) = 0 \<longrightarrow> \<not> sl_locked (b_lock (bufs s ! i))"
  shows "(case find (\<lambda>i. b_refcnt (bufs s ! i) = 0) (rev xs) of
      None \<Rightarrow> bget dev bno s = Panic ''bget: no buffers''
    | Some i \<Rightarrow> \<exists>s'. bget dev bno s = Ok (i, s') \<and> lru (bufs s') xs \<and> b_dev (bufs s' ! i) = dev \<and>
        b_blockno (bufs s' ! i) = bno \<and> b_refcnt (bufs s' ! i) = 1 \<and> \<not> b_valid (bufs s' ! i)) \<and>
    (\<forall>i. i < NBUF \<longrightarrow> b_refcnt (bufs s ! i) = 1 \<longrightarrow> holdingsleep (b_lock (bufs s ! i)) (me s) \<longrightarrow>
      (\<exists>s'. brelse i s = Ok s' \<and> lru (bufs s') (i # remove1 i xs)))"
proof (intro conjI allI impI)
  have set: "set xs = {..<NBUF}" and len: "length (bufs s) = Suc NBUF" using assms(1) by (auto simp: lru_def)
  have miss: "find (\<lambda>i. b_dev (bufs s ! i) = dev \<and> b_blockno (bufs s ! i) = bno) xs = None"
    using assms(2) set by (auto simp: find_None_iff)
  note sc = lru_scan [OF assms(1)]
  show "case find (\<lambda>i. b_refcnt (bufs s ! i) = 0) (rev xs) of
      None \<Rightarrow> bget dev bno s = Panic ''bget: no buffers''
    | Some i \<Rightarrow> \<exists>s'. bget dev bno s = Ok (i, s') \<and> lru (bufs s') xs \<and> b_dev (bufs s' ! i) = dev \<and>
        b_blockno (bufs s' ! i) = bno \<and> b_refcnt (bufs s' ! i) = 1 \<and> \<not> b_valid (bufs s' ! i)"
  proof (cases "find (\<lambda>i. b_refcnt (bufs s ! i) = 0) (rev xs)")
    case None
    then show ?thesis using sc miss by (simp add: bget_def)
  next
    case (Some i)
    then obtain k where k: "k < length (rev xs)" "i = rev xs ! k" "b_refcnt (bufs s ! i) = 0"
      by (auto simp: find_Some_iff)
    then have i: "i < NBUF" "b_refcnt (bufs s ! i) = 0" using set nth_mem [OF k(1)] by auto
    let ?f = "\<lambda>x. x\<lparr>b_dev := dev, b_blockno := bno, b_valid := False, b_refcnt := 1\<rparr>"
    have nl: "\<not> sl_locked (b_lock (?f (bufs s ! i)))" using i assms(3) by simp
    have "\<exists>s'. lock_buf i (upd_buf i ?f s) = Ok (i, s') \<and> length (bufs s') = length (bufs s) \<and> b_dev (bufs s' ! i) = dev \<and>
        b_blockno (bufs s' ! i) = bno \<and> b_refcnt (bufs s' ! i) = 1 \<and> \<not> b_valid (bufs s' ! i) \<and>
        (\<forall>j. b_next (bufs s' ! j) = b_next (bufs s ! j) \<and> b_prev (bufs s' ! j) = b_prev (bufs s ! j))"
      using nl i len by (auto simp: lock_buf_def upd_buf_def acquiresleep_def nth_list_update)
    then show ?thesis using sc miss Some lru_core [OF assms(1)] by (auto simp: bget_def)
  qed
next
  fix i
  assume i: "i < NBUF" "b_refcnt (bufs s ! i) = 1" "holdingsleep (b_lock (bufs s ! i)) (me s)"
  let ?bs = "(bufs s)[i := (bufs s ! i)\<lparr>b_lock := releasesleep (b_lock (bufs s ! i)), b_refcnt := 0\<rparr>]"
  have len: "length (bufs s) = Suc NBUF" using assms(1) by (auto simp: lru_def)
  have "lru ?bs xs" using len i(1) by (intro lru_core [OF assms(1)]) (auto simp: nth_list_update)
  from move_front(1) [OF this i(1)] show "\<exists>s'. brelse i s = Ok s' \<and> lru (bufs s') (i # remove1 i xs)"
    using i len by (simp add: brelse_def Let_def upd_buf_def wakeup_def)
qed

theorem bcache_replaces_lru_witness:
  "\<exists>xs s'. lru (bufs booted) xs \<and> bget ROOTDEV 5 booted = Ok (0, s') \<and> lru (bufs s') xs"
proof -
  have f: "bufs booted = fold (\<lambda>b bs. link_front b (bs[b := (bs ! b)\<lparr>b_lock := initsleeplock\<rparr>])) [0..<NBUF]
      ((replicate (Suc NBUF) zero_buf)[NBUF := (replicate (Suc NBUF) zero_buf ! NBUF)\<lparr>b_prev := NBUF, b_next := NBUF\<rparr>])"
    by (simp add: booted_def boot_on_def binit_def Let_def)
  have l: "length (replicate (Suc NBUF) zero_buf) = Suc NBUF" by simp
  note b = binit_fold [OF l order_refl, folded f]
  then have lru: "lru (bufs booted) (rev [0..<NBUF])" by (auto simp: lru_def)
  have "core (bufs booted ! j) = core (zero_buf\<lparr>b_lock := initsleeplock\<rparr>)" if "j < NBUF" for j
    using b that by (simp del: replicate_Suc)
  then have c: "b_dev (bufs booted ! j) \<noteq> ROOTDEV" "b_refcnt (bufs booted ! j) = 0" "\<not> sl_locked (b_lock (bufs booted ! j))"
    if "j < NBUF" for j using core_cong [of "bufs booted ! j"] that by (simp_all add: zero_buf_def ROOTDEV_def initsleeplock_def)
  have u: "[0..<NBUF] = 0 # [1..<NBUF]" by (simp add: NBUF_def upt_rec)
  then have "find (\<lambda>i. b_refcnt (bufs booted ! i) = 0) (rev (rev [0..<NBUF])) = Some 0" using c(2) [of 0] by (simp add: NBUF_def)
  then show ?thesis using bcache_replaces_lru [OF lru, of ROOTDEV 5] c lru by auto
qed

end
