(* ===== verification/Fs.thy ===== *)
theory Fs
  imports LogThms
begin

text \<open>
  The file system proper, \<^verbatim>\<open>kernel/fs.c\<close>, on top of the log: the block bitmap, inodes on disk and in
  the in-memory table, file contents, directories and path names. A \<^verbatim>\<open>struct inode *\<close> is the
  index of its entry in the table. A file's data goes to or comes from a \<^typ>\<open>place\<close>; a kernel
  routine that reads into a local variable takes the bytes that \<open>readi\<close> returns. Names are
  the bytes before the terminator.
\<close>

section \<open>State\<close>

definition ROOTINO :: uint32 where "ROOTINO = 1"
definition FSMAGIC :: uint32 where "FSMAGIC = 0x10203040"
definition NDIRECT :: nat where "NDIRECT = 12"
definition NINDIRECT :: nat where "NINDIRECT = BSIZE div 4"
definition MAXFILE :: nat where "MAXFILE = NDIRECT + NINDIRECT"
definition IPB :: nat where "IPB = BSIZE div 64"
definition BPB :: nat where "BPB = BSIZE * 8"
definition DIRSIZ :: nat where "DIRSIZ = 14"
definition NINODE :: nat where "NINODE = 50"
definition T_DIR :: ushort where "T_DIR = 1"
definition T_FILE :: ushort where "T_FILE = 2"
definition T_DEVICE :: ushort where "T_DEVICE = 3"

record superblock =
  sb_magic :: uint32
  sb_size :: uint32
  sb_nblocks :: uint32
  sb_ninodes :: uint32
  sb_nlog :: uint32
  sb_logstart :: uint32
  sb_inodestart :: uint32
  sb_bmapstart :: uint32

record dinode =
  di_type :: ushort
  di_major :: ushort
  di_minor :: ushort
  di_nlink :: ushort
  di_size :: uint32
  di_addrs :: "uint32 list"

record inode =
  i_dev :: uint32
  i_inum :: uint32
  i_ref :: int
  i_lock :: sleeplock
  i_valid :: bool
  i_type :: ushort
  i_major :: ushort
  i_minor :: ushort
  i_nlink :: ushort
  i_size :: uint32
  i_addrs :: "uint32 list"

record kfs = klog +
  sb :: superblock
  itable :: "inode list"

definition upd_inode :: "nat \<Rightarrow> (inode \<Rightarrow> inode) \<Rightarrow> 'z kfs_scheme \<Rightarrow> 'z kfs_scheme" where
  "upd_inode ip f s = s\<lparr>itable := (itable s)[ip := f (itable s ! ip)]\<rparr>"

definition upd_data :: "nat \<Rightarrow> (block \<Rightarrow> block) \<Rightarrow> 'z kbio_scheme \<Rightarrow> 'z kbio_scheme" where
  "upd_data b f s = upd_buf b (\<lambda>x. x\<lparr>b_data := f (b_data x)\<rparr>) s"

section \<open>On-disk structures\<close>

definition IBLOCK :: "uint32 \<Rightarrow> superblock \<Rightarrow> uint32" where
  "IBLOCK i x = i div word_of_nat IPB + sb_inodestart x"

definition BBLOCK :: "uint32 \<Rightarrow> superblock \<Rightarrow> uint32" where
  "BBLOCK b x = b div word_of_nat BPB + sb_bmapstart x"

text \<open>The offset of inode \<open>inum\<close> in its block.\<close>

definition dinode_off :: "uint32 \<Rightarrow> nat" where
  "dinode_off inum = 64 * (unat inum mod IPB)"

definition get_superblock :: "block \<Rightarrow> superblock" where
  "get_superblock d = \<lparr>sb_magic = rd32 d 0, sb_size = rd32 d 4, sb_nblocks = rd32 d 8, sb_ninodes = rd32 d 12,
     sb_nlog = rd32 d 16, sb_logstart = rd32 d 20, sb_inodestart = rd32 d 24, sb_bmapstart = rd32 d 28\<rparr>"

definition get_dinode :: "block \<Rightarrow> nat \<Rightarrow> dinode" where
  "get_dinode d k = \<lparr>di_type = rd16 d k, di_major = rd16 d (k + 2), di_minor = rd16 d (k + 4), di_nlink = rd16 d (k + 6),
     di_size = rd32 d (k + 8), di_addrs = map (\<lambda>i. rd32 d (k + 12 + 4 * i)) [0..<Suc NDIRECT]\<rparr>"

definition put_addrs :: "uint32 list \<Rightarrow> nat \<Rightarrow> block \<Rightarrow> block" where
  "put_addrs as k d = fold (\<lambda>i d. wr32 d (k + 4 * i) (as ! i)) [0..<length as] d"

definition put_dinode :: "dinode \<Rightarrow> nat \<Rightarrow> block \<Rightarrow> block" where
  "put_dinode di k d =
     put_addrs (di_addrs di) (k + 12)
       (wr32 (wr16 (wr16 (wr16 (wr16 d k (di_type di)) (k + 2) (di_major di)) (k + 4) (di_minor di)) (k + 6) (di_nlink di))
         (k + 8) (di_size di))"

definition zero_dinode :: dinode where
  "zero_dinode = \<lparr>di_type = 0, di_major = 0, di_minor = 0, di_nlink = 0, di_size = 0, di_addrs = replicate (Suc NDIRECT) 0\<rparr>"

definition dinode_of :: "inode \<Rightarrow> dinode" where
  "dinode_of i = \<lparr>di_type = i_type i, di_major = i_major i, di_minor = i_minor i, di_nlink = i_nlink i,
     di_size = i_size i, di_addrs = i_addrs i\<rparr>"

definition set_dinode :: "dinode \<Rightarrow> inode \<Rightarrow> inode" where
  "set_dinode di i = i\<lparr>i_type := di_type di, i_major := di_major di, i_minor := di_minor di, i_nlink := di_nlink di,
     i_size := di_size di, i_addrs := di_addrs di\<rparr>"

section \<open>Blocks\<close>

definition readsb :: "uint32 \<Rightarrow> 'z kfs_scheme \<Rightarrow> 'z kfs_scheme res" where
  "readsb dev s =
     and_then (bread dev 1 s) (\<lambda>(bp, s).
     brelse bp (s\<lparr>sb := get_superblock (b_data (bufs s ! bp))\<rparr>))"

definition fsinit :: "uint32 \<Rightarrow> 'z kfs_scheme \<Rightarrow> 'z kfs_scheme res" where
  "fsinit dev s =
     and_then (readsb dev s) (\<lambda>s.
     if sb_magic (sb s) \<noteq> FSMAGIC then Panic ''invalid file system''
     else initlog dev (sb_logstart (sb s)) (sb_nlog (sb s)) s)"

definition bzero :: "uint32 \<Rightarrow> uint32 \<Rightarrow> 'z kfs_scheme \<Rightarrow> 'z kfs_scheme res" where
  "bzero dev bno s =
     and_then (bread dev bno s) (\<lambda>(bp, s).
     and_then (log_write bp (upd_data bp (\<lambda>_ _. 0) s)) (\<lambda>s.
     brelse bp s))"

text \<open>Bit \<open>bi\<close> of a bitmap block.\<close>

definition bmap_bit :: "block \<Rightarrow> nat \<Rightarrow> bool" where
  "bmap_bit d bi \<longleftrightarrow> d (bi div 8) AND push_bit (bi mod 8) 1 \<noteq> 0"

definition set_bmap_bit :: "nat \<Rightarrow> block \<Rightarrow> block" where
  "set_bmap_bit bi d = d(bi div 8 := d (bi div 8) OR push_bit (bi mod 8) 1)"

definition clear_bmap_bit :: "nat \<Rightarrow> block \<Rightarrow> block" where
  "clear_bmap_bit bi d = d(bi div 8 := d (bi div 8) AND NOT (push_bit (bi mod 8) 1))"

text \<open>The outer loop of \<^verbatim>\<open>balloc\<close>, over the first block of each bitmap block; the inner loop looks for a clear bit.\<close>

fun balloc_loop :: "uint32 \<Rightarrow> nat list \<Rightarrow> 'z kfs_scheme \<Rightarrow> (uint32 \<times> 'z kfs_scheme) res" where
  "balloc_loop dev [] s = Panic ''balloc: out of blocks''"
| "balloc_loop dev (b # bs) s =
     and_then (bread dev (BBLOCK (word_of_nat b) (sb s)) s) (\<lambda>(bp, s).
     case find (\<lambda>bi. \<not> bmap_bit (b_data (bufs s ! bp)) bi) [0..<min BPB (unat (sb_size (sb s)) - b)] of
       Some bi \<Rightarrow>
         and_then (log_write bp (upd_data bp (set_bmap_bit bi) s)) (\<lambda>s.
         and_then (brelse bp s) (\<lambda>s.
         and_then (bzero dev (word_of_nat (b + bi)) s) (\<lambda>s.
         Ok (word_of_nat (b + bi), s))))
     | None \<Rightarrow> and_then (brelse bp s) (\<lambda>s. balloc_loop dev bs s))"

definition balloc :: "uint32 \<Rightarrow> 'z kfs_scheme \<Rightarrow> (uint32 \<times> 'z kfs_scheme) res" where
  "balloc dev s = balloc_loop dev (map (\<lambda>k. k * BPB) [0..<(unat (sb_size (sb s)) + BPB - 1) div BPB]) s"

definition bfree :: "uint32 \<Rightarrow> uint32 \<Rightarrow> 'z kfs_scheme \<Rightarrow> 'z kfs_scheme res" where
  "bfree dev b s =
     and_then (bread dev (BBLOCK b (sb s)) s) (\<lambda>(bp, s).
     let bi = unat b mod BPB
     in if \<not> bmap_bit (b_data (bufs s ! bp)) bi then Panic ''freeing free block''
        else and_then (log_write bp (upd_data bp (clear_bmap_bit bi) s)) (\<lambda>s. brelse bp s))"

section \<open>Inodes\<close>

definition iinit :: "'z kfs_scheme \<Rightarrow> 'z kfs_scheme" where
  "iinit s = fold (\<lambda>i. upd_inode i (\<lambda>x. x\<lparr>i_lock := initsleeplock\<rparr>)) [0..<NINODE] s"

text \<open>
  \<^verbatim>\<open>iget\<close> scans the table for the inode and, on the way, for the first free entry. Both are
  the results of one pass, so they are given by two searches.
\<close>

definition iget :: "uint32 \<Rightarrow> uint32 \<Rightarrow> 'z kfs_scheme \<Rightarrow> (nat \<times> 'z kfs_scheme) res" where
  "iget dev inum s =
     (case find (\<lambda>i. i_ref (itable s ! i) > 0 \<and> i_dev (itable s ! i) = dev \<and> i_inum (itable s ! i) = inum) [0..<NINODE] of
        Some ip \<Rightarrow> Ok (ip, upd_inode ip (\<lambda>x. x\<lparr>i_ref := i_ref x + 1\<rparr>) s)
      | None \<Rightarrow> (case find (\<lambda>i. i_ref (itable s ! i) = 0) [0..<NINODE] of
          None \<Rightarrow> Panic ''iget: no inodes''
        | Some ip \<Rightarrow> Ok (ip, upd_inode ip (\<lambda>x. x\<lparr>i_dev := dev, i_inum := inum, i_ref := 1, i_valid := False\<rparr>) s)))"

definition idup :: "nat \<Rightarrow> 'z kfs_scheme \<Rightarrow> 'z kfs_scheme" where
  "idup ip s = upd_inode ip (\<lambda>x. x\<lparr>i_ref := i_ref x + 1\<rparr>) s"

text \<open>The loop of \<^verbatim>\<open>ialloc\<close> over inode numbers.\<close>

fun ialloc_loop :: "uint32 \<Rightarrow> ushort \<Rightarrow> nat list \<Rightarrow> 'z kfs_scheme \<Rightarrow> (nat \<times> 'z kfs_scheme) res" where
  "ialloc_loop dev ty [] s = Panic ''ialloc: no inodes''"
| "ialloc_loop dev ty (inum # is) s =
     and_then (bread dev (IBLOCK (word_of_nat inum) (sb s)) s) (\<lambda>(bp, s).
     let k = dinode_off (word_of_nat inum)
     in if di_type (get_dinode (b_data (bufs s ! bp)) k) = 0
        then and_then (log_write bp (upd_data bp (put_dinode (zero_dinode\<lparr>di_type := ty\<rparr>) k) s)) (\<lambda>s.
             and_then (brelse bp s) (\<lambda>s.
             iget dev (word_of_nat inum) s))
        else and_then (brelse bp s) (\<lambda>s. ialloc_loop dev ty is s))"

definition ialloc :: "uint32 \<Rightarrow> ushort \<Rightarrow> 'z kfs_scheme \<Rightarrow> (nat \<times> 'z kfs_scheme) res" where
  "ialloc dev ty s = ialloc_loop dev ty [1..<unat (sb_ninodes (sb s))] s"

definition iupdate :: "nat \<Rightarrow> 'z kfs_scheme \<Rightarrow> 'z kfs_scheme res" where
  "iupdate ip s =
     (let i = itable s ! ip
      in and_then (bread (i_dev i) (IBLOCK (i_inum i) (sb s)) s) (\<lambda>(bp, s).
         and_then (log_write bp (upd_data bp (put_dinode (dinode_of i) (dinode_off (i_inum i))) s)) (\<lambda>s.
         brelse bp s)))"

definition lock_inode :: "nat \<Rightarrow> 'z kfs_scheme \<Rightarrow> 'z kfs_scheme res" where
  "lock_inode ip s =
     and_then (acquiresleep (Chan_inode ip) (i_lock (itable s ! ip)) (me s)) (\<lambda>lk.
     Ok (upd_inode ip (\<lambda>x. x\<lparr>i_lock := lk\<rparr>) s))"

definition unlock_inode :: "nat \<Rightarrow> 'z kfs_scheme \<Rightarrow> 'z kfs_scheme" where
  "unlock_inode ip s = wakeup (Chan_inode ip) (upd_inode ip (\<lambda>x. x\<lparr>i_lock := releasesleep (i_lock x)\<rparr>) s)"

definition ilock :: "nat \<Rightarrow> 'z kfs_scheme \<Rightarrow> 'z kfs_scheme res" where
  "ilock ip s =
     (if i_ref (itable s ! ip) < 1 then Panic ''ilock''
      else and_then (lock_inode ip s) (\<lambda>s.
        if \<not> i_valid (itable s ! ip)
        then let i = itable s ! ip
             in and_then (bread (i_dev i) (IBLOCK (i_inum i) (sb s)) s) (\<lambda>(bp, s).
                let di = get_dinode (b_data (bufs s ! bp)) (dinode_off (i_inum i));
                    s = upd_inode ip (set_dinode di) s
                in and_then (brelse bp s) (\<lambda>s.
                   let s = upd_inode ip (\<lambda>x. x\<lparr>i_valid := True\<rparr>) s
                   in if i_type (itable s ! ip) = 0 then Panic ''ilock: no type'' else Ok s))
        else Ok s))"

definition iunlock :: "nat \<Rightarrow> 'z kfs_scheme \<Rightarrow> 'z kfs_scheme res" where
  "iunlock ip s =
     (if \<not> holdingsleep (i_lock (itable s ! ip)) (me s) \<or> i_ref (itable s ! ip) < 1 then Panic ''iunlock''
      else Ok (unlock_inode ip s))"

section \<open>Inode content\<close>

definition bmap :: "nat \<Rightarrow> nat \<Rightarrow> 'z kfs_scheme \<Rightarrow> (uint32 \<times> 'z kfs_scheme) res" where
  "bmap ip bn s =
     (let i = itable s ! ip
      in if bn < NDIRECT
         then if i_addrs i ! bn = 0
              then and_then (balloc (i_dev i) s) (\<lambda>(addr, s).
                   Ok (addr, upd_inode ip (\<lambda>x. x\<lparr>i_addrs := (i_addrs x)[bn := addr]\<rparr>) s))
              else Ok (i_addrs i ! bn, s)
         else if bn - NDIRECT < NINDIRECT
         then and_then (if i_addrs i ! NDIRECT = 0
                        then and_then (balloc (i_dev i) s) (\<lambda>(addr, s).
                             Ok (addr, upd_inode ip (\<lambda>x. x\<lparr>i_addrs := (i_addrs x)[NDIRECT := addr]\<rparr>) s))
                        else Ok (i_addrs i ! NDIRECT, s)) (\<lambda>(ind, s).
              and_then (bread (i_dev i) ind s) (\<lambda>(bp, s).
              let k = 4 * (bn - NDIRECT); addr = rd32 (b_data (bufs s ! bp)) k
              in and_then (if addr = 0
                           then and_then (balloc (i_dev i) s) (\<lambda>(addr, s).
                                and_then (log_write bp (upd_data bp (\<lambda>d. wr32 d k addr) s)) (\<lambda>s. Ok (addr, s)))
                           else Ok (addr, s)) (\<lambda>(addr, s).
                 and_then (brelse bp s) (\<lambda>s. Ok (addr, s)))))
         else Panic ''bmap: out of range'')"

definition itrunc_direct :: "nat \<Rightarrow> nat \<Rightarrow> 'z kfs_scheme \<Rightarrow> 'z kfs_scheme res" where
  "itrunc_direct ip k s =
     (let i = itable s ! ip
      in if i_addrs i ! k \<noteq> 0
         then and_then (bfree (i_dev i) (i_addrs i ! k) s) (\<lambda>s.
              Ok (upd_inode ip (\<lambda>x. x\<lparr>i_addrs := (i_addrs x)[k := 0]\<rparr>) s))
         else Ok s)"

definition itrunc :: "nat \<Rightarrow> 'z kfs_scheme \<Rightarrow> 'z kfs_scheme res" where
  "itrunc ip s =
     and_then (loop_res (itrunc_direct ip) [0..<NDIRECT] s) (\<lambda>s.
     let i = itable s ! ip; ind = i_addrs i ! NDIRECT
     in and_then (if ind \<noteq> 0
                  then and_then (bread (i_dev i) ind s) (\<lambda>(bp, s).
                       and_then (loop_res (\<lambda>j s.
                           let a = rd32 (b_data (bufs s ! bp)) (4 * j)
                           in if a \<noteq> 0 then bfree (i_dev i) a s else Ok s) [0..<NINDIRECT] s) (\<lambda>s.
                       and_then (brelse bp s) (\<lambda>s.
                       and_then (bfree (i_dev i) ind s) (\<lambda>s.
                       Ok (upd_inode ip (\<lambda>x. x\<lparr>i_addrs := (i_addrs x)[NDIRECT := 0]\<rparr>) s)))))
                  else Ok s) (\<lambda>s.
        iupdate ip (upd_inode ip (\<lambda>x. x\<lparr>i_size := 0\<rparr>) s)))"

text \<open>
  \<^verbatim>\<open>iput\<close>: the last reference to an inode without links frees it on disk. The test and the
  truncation are not one atomic step in the code, but no other process can hold the entry.
\<close>

definition iput :: "nat \<Rightarrow> 'z kfs_scheme \<Rightarrow> 'z kfs_scheme res" where
  "iput ip s =
     (let i = itable s ! ip
      in and_then (if i_ref i = 1 \<and> i_valid i \<and> i_nlink i = 0
                   then and_then (lock_inode ip s) (\<lambda>s.
                        and_then (itrunc ip s) (\<lambda>s.
                        and_then (iupdate ip (upd_inode ip (\<lambda>x. x\<lparr>i_type := 0\<rparr>) s)) (\<lambda>s.
                        Ok (unlock_inode ip (upd_inode ip (\<lambda>x. x\<lparr>i_valid := False\<rparr>) s)))))
                   else Ok s) (\<lambda>s.
         Ok (upd_inode ip (\<lambda>x. x\<lparr>i_ref := i_ref x - 1\<rparr>) s)))"

definition iunlockput :: "nat \<Rightarrow> 'z kfs_scheme \<Rightarrow> 'z kfs_scheme res" where
  "iunlockput ip s = and_then (iunlock ip s) (iput ip)"

text \<open>\<^verbatim>\<open>struct stat\<close>, as the bytes that \<^verbatim>\<open>filestat\<close> copies out; the four bytes before \<open>size\<close> are padding.\<close>

record stat =
  st_dev :: uint32
  st_ino :: uint32
  st_type :: ushort
  st_nlink :: ushort
  st_size :: uint64

definition stati :: "nat \<Rightarrow> 'z kfs_scheme \<Rightarrow> stat" where
  "stati ip s = (let i = itable s ! ip in
     \<lparr>st_dev = i_dev i, st_ino = i_inum i, st_type = i_type i, st_nlink = i_nlink i, st_size = ucast (i_size i)\<rparr>)"

text \<open>
  The loop of \<^verbatim>\<open>readi\<close>, with \<open>left\<close> bytes to go; \<open>acc\<close> are the bytes read so far. The offsets
  are below \<^verbatim>\<open>ip->size\<close>, so natural numbers stand for the unsigned ints.
\<close>

function readi_loop ::
  "nat \<Rightarrow> place \<Rightarrow> nat \<Rightarrow> nat \<Rightarrow> uchar list \<Rightarrow> 'z kfs_scheme \<Rightarrow> (int \<times> uchar list \<times> 'z kfs_scheme) res"
where
  "readi_loop ip dst off left acc s =
     (if left = 0 then Ok (int (length acc), acc, s)
      else let m = min left (BSIZE - off mod BSIZE)
           in and_then (bmap ip (off div BSIZE) s) (\<lambda>(addr, s).
              and_then (bread (i_dev (itable s ! ip)) addr s) (\<lambda>(bp, s).
              let bs = slice (b_data (bufs s ! bp)) (off mod BSIZE) m
              in and_then (either_copyout dst bs s) (\<lambda>(r, s).
                 and_then (brelse bp s) (\<lambda>s.
                 if r = -1 then Ok (-1, acc, s)
                 else readi_loop ip (place_add dst m) (off + m) (left - m) (acc @ bs) s)))))"
  by pat_completeness auto
termination
  by (relation "measure (\<lambda>(_, _, _, left, _, _). left)") (auto simp: BSIZE_def)

definition readi :: "nat \<Rightarrow> place \<Rightarrow> uint32 \<Rightarrow> uint32 \<Rightarrow> 'z kfs_scheme \<Rightarrow> (int \<times> uchar list \<times> 'z kfs_scheme) res" where
  "readi ip dst off n s =
     (let size = i_size (itable s ! ip)
      in if off > size \<or> off + n < off then Ok (0, [], s)
         else let n = if off + n > size then size - off else n
              in readi_loop ip dst (unat off) (unat n) [] s)"

text \<open>
  The loop of \<^verbatim>\<open>writei\<close> with \<open>left\<close> of \<open>n\<close> bytes to go; it returns the offset it reached and the
  bytes written. A copy that fails half way leaves what it copied in the buffer.
\<close>

function writei_loop ::
  "nat \<Rightarrow> place \<Rightarrow> nat \<Rightarrow> nat \<Rightarrow> nat \<Rightarrow> 'z kfs_scheme \<Rightarrow> (nat \<times> nat \<times> 'z kfs_scheme) res"
where
  "writei_loop ip src off left tot s =
     (if left = 0 then Ok (off, tot, s)
      else let m = min left (BSIZE - off mod BSIZE)
           in and_then (bmap ip (off div BSIZE) s) (\<lambda>(addr, s).
              and_then (bread (i_dev (itable s ! ip)) addr s) (\<lambda>(bp, s).
              and_then (either_copyin src m s) (\<lambda>(r, bs).
              let s = upd_data bp (\<lambda>d. splice d (off mod BSIZE) bs) s
              in if r = -1 then and_then (brelse bp s) (\<lambda>s. Ok (off, tot, s))
                 else and_then (log_write bp s) (\<lambda>s.
                      and_then (brelse bp s) (\<lambda>s.
                      writei_loop ip (place_add src m) (off + m) (left - m) (tot + m) s))))))"
  by pat_completeness auto
termination
  by (relation "measure (\<lambda>(_, _, _, left, _, _). left)") (auto simp: BSIZE_def)

definition writei :: "nat \<Rightarrow> place \<Rightarrow> uint32 \<Rightarrow> uint32 \<Rightarrow> 'z kfs_scheme \<Rightarrow> (int \<times> 'z kfs_scheme) res" where
  "writei ip src off n s =
     (if off > i_size (itable s ! ip) \<or> off + n < off then Ok (-1, s)
      else if unat (off + n) > MAXFILE * BSIZE then Ok (-1, s)
      else and_then (writei_loop ip src (unat off) (unat n) 0 s) (\<lambda>(off, tot, s).
           let s = if off > unat (i_size (itable s ! ip)) then upd_inode ip (\<lambda>x. x\<lparr>i_size := word_of_nat off\<rparr>) s else s
           in and_then (iupdate ip s) (\<lambda>s. Ok (int tot, s))))"

section \<open>Directories\<close>

text \<open>\<^verbatim>\<open>namecmp\<close> on the bytes of two names, a name of \<^const>\<open>DIRSIZ\<close> bytes having no terminator.\<close>

fun strncmp_name :: "nat \<Rightarrow> uchar list \<Rightarrow> uchar list \<Rightarrow> int" where
  "strncmp_name 0 p q = 0"
| "strncmp_name (Suc n) [] [] = 0"
| "strncmp_name (Suc n) [] (b # q) = - int (unat b)"
| "strncmp_name (Suc n) (a # p) [] = int (unat a)"
| "strncmp_name (Suc n) (a # p) (b # q) = (if a \<noteq> 0 \<and> a = b then strncmp_name n p q else int (unat a) - int (unat b))"

definition namecmp :: "uchar list \<Rightarrow> uchar list \<Rightarrow> int" where
  "namecmp s t = strncmp_name DIRSIZ s t"

definition de_inum :: "uchar list \<Rightarrow> ushort" where
  "de_inum de = ucast (de ! 0) OR push_bit 8 (ucast (de ! 1))"

definition de_name :: "uchar list \<Rightarrow> uchar list" where
  "de_name de = drop 2 de"

definition mk_dirent :: "ushort \<Rightarrow> uchar list \<Rightarrow> uchar list" where
  "mk_dirent inum name = [ucast inum, ucast (drop_bit 8 inum)] @ take DIRSIZ name @ replicate (DIRSIZ - length name) 0"

text \<open>The offsets of the entries of a directory of \<open>size\<close> bytes.\<close>

definition de_offs :: "uint32 \<Rightarrow> nat list" where
  "de_offs sz = map (\<lambda>k. 16 * k) [0..<(unat sz + 15) div 16]"

fun dirlookup_loop :: "nat \<Rightarrow> uchar list \<Rightarrow> nat list \<Rightarrow> 'z kfs_scheme \<Rightarrow> ((nat \<times> nat) option \<times> 'z kfs_scheme) res" where
  "dirlookup_loop dp name [] s = Ok (None, s)"
| "dirlookup_loop dp name (off # offs) s =
     and_then (readi dp (Local []) (word_of_nat off) 16 s) (\<lambda>(r, de, s).
     if r \<noteq> 16 then Panic ''dirlookup read''
     else if de_inum de = 0 then dirlookup_loop dp name offs s
     else if namecmp name (de_name de) = 0
     then and_then (iget (i_dev (itable s ! dp)) (ucast (de_inum de)) s) (\<lambda>(ip, s). Ok (Some (ip, off), s))
     else dirlookup_loop dp name offs s)"

text \<open>The result carries the offset of the entry, which the code stores through \<^verbatim>\<open>poff\<close>.\<close>

definition dirlookup :: "nat \<Rightarrow> uchar list \<Rightarrow> 'z kfs_scheme \<Rightarrow> ((nat \<times> nat) option \<times> 'z kfs_scheme) res" where
  "dirlookup dp name s =
     (if i_type (itable s ! dp) \<noteq> T_DIR then Panic ''dirlookup not DIR''
      else dirlookup_loop dp name (de_offs (i_size (itable s ! dp))) s)"

text \<open>The search for an empty entry in \<^verbatim>\<open>dirlink\<close>; without one, the offset past the end.\<close>

fun dirlink_loop :: "nat \<Rightarrow> nat list \<Rightarrow> 'z kfs_scheme \<Rightarrow> (nat option \<times> 'z kfs_scheme) res" where
  "dirlink_loop dp [] s = Ok (None, s)"
| "dirlink_loop dp (off # offs) s =
     and_then (readi dp (Local []) (word_of_nat off) 16 s) (\<lambda>(r, de, s).
     if r \<noteq> 16 then Panic ''dirlink read''
     else if de_inum de = 0 then Ok (Some off, s)
     else dirlink_loop dp offs s)"

definition dirlink :: "nat \<Rightarrow> uchar list \<Rightarrow> uint32 \<Rightarrow> 'z kfs_scheme \<Rightarrow> (int \<times> 'z kfs_scheme) res" where
  "dirlink dp name inum s =
     and_then (dirlookup dp name s) (\<lambda>(r, s).
     case r of
       Some (ip, _) \<Rightarrow> and_then (iput ip s) (\<lambda>s. Ok (-1, s))
     | None \<Rightarrow>
         let offs = de_offs (i_size (itable s ! dp))
         in and_then (dirlink_loop dp offs s) (\<lambda>(r, s).
            let off = (case r of Some off \<Rightarrow> off | None \<Rightarrow> 16 * length offs)
            in and_then (writei dp (Local (mk_dirent (ucast inum) name)) (word_of_nat off) 16 s) (\<lambda>(r, s).
               if r \<noteq> 16 then Panic ''dirlink'' else Ok (0, s))))"

section \<open>Paths\<close>

definition slash :: uchar where "slash = 0x2F"

text \<open>
  \<^verbatim>\<open>skipelem\<close> on the bytes of a path before its terminator: the first element, cut to
  \<^const>\<open>DIRSIZ\<close> bytes, and the rest without leading slashes.
\<close>

definition skipelem :: "uchar list \<Rightarrow> (uchar list \<times> uchar list) option" where
  "skipelem pn =
     (let p = dropWhile (\<lambda>c. c = slash) pn
      in if p = [] then None
         else Some (take DIRSIZ (takeWhile (\<lambda>c. c \<noteq> slash) p), dropWhile (\<lambda>c. c = slash) (dropWhile (\<lambda>c. c \<noteq> slash) p)))"

lemma skipelem_shorter: "skipelem pn = Some (name, rest) \<Longrightarrow> length rest < length pn"
proof -
  assume a: "skipelem pn = Some (name, rest)"
  let ?p = "dropWhile (\<lambda>c. c = slash) pn"
  have p: "?p \<noteq> []" "rest = dropWhile (\<lambda>c. c = slash) (dropWhile (\<lambda>c. c \<noteq> slash) ?p)"
    using a by (auto simp: skipelem_def Let_def split: if_splits)
  then obtain c q where q: "?p = c # q" by (cases ?p) auto
  then have "c \<noteq> slash" by (metis (mono_tags, lifting) dropWhile_eq_Cons_conv)
  then have "length (dropWhile (\<lambda>c. c \<noteq> slash) ?p) \<le> length q" using length_dropWhile_le [of _ q] q by simp
  moreover have "length rest \<le> length (dropWhile (\<lambda>c. c \<noteq> slash) ?p)" using p(2) length_dropWhile_le by metis
  moreover have "length ?p \<le> length pn" by (rule length_dropWhile_le)
  ultimately show ?thesis using q by simp
qed

function namex_loop ::
  "uchar list \<Rightarrow> bool \<Rightarrow> uchar list \<Rightarrow> nat \<Rightarrow> 'z kfs_scheme \<Rightarrow> ((nat \<times> uchar list) option \<times> 'z kfs_scheme) res"
where
  "namex_loop pn parent name ip s =
     (case skipelem pn of
        None \<Rightarrow> if parent then and_then (iput ip s) (\<lambda>s. Ok (None, s)) else Ok (Some (ip, name), s)
      | Some (name, pn) \<Rightarrow>
          and_then (ilock ip s) (\<lambda>s.
          if i_type (itable s ! ip) \<noteq> T_DIR then and_then (iunlockput ip s) (\<lambda>s. Ok (None, s))
          else if parent \<and> pn = [] then and_then (iunlock ip s) (\<lambda>s. Ok (Some (ip, name), s))
          else and_then (dirlookup ip name s) (\<lambda>(r, s).
               case r of
                 None \<Rightarrow> and_then (iunlockput ip s) (\<lambda>s. Ok (None, s))
               | Some (next, _) \<Rightarrow> and_then (iunlockput ip s) (\<lambda>s. namex_loop pn parent name next s))))"
  by pat_completeness auto
termination
  by (relation "measure (\<lambda>(pn, _, _, _, _). length pn)") (auto simp: skipelem_shorter)

definition namex :: "uchar list \<Rightarrow> bool \<Rightarrow> 'z kfs_scheme \<Rightarrow> ((nat \<times> uchar list) option \<times> 'z kfs_scheme) res" where
  "namex pn parent s =
     (if pn \<noteq> [] \<and> pn ! 0 = slash
      then and_then (iget ROOTDEV ROOTINO s) (\<lambda>(ip, s). namex_loop pn parent [] ip s)
      else case p_cwd (myproc s) of
          Some ip \<Rightarrow> namex_loop pn parent [] ip (idup ip s)
        | None \<Rightarrow> Panic ''kerneltrap'')"

definition namei :: "uchar list \<Rightarrow> 'z kfs_scheme \<Rightarrow> (nat option \<times> 'z kfs_scheme) res" where
  "namei pn s = and_then (namex pn False s) (\<lambda>(r, s). Ok (map_option fst r, s))"

definition nameiparent :: "uchar list \<Rightarrow> 'z kfs_scheme \<Rightarrow> ((nat \<times> uchar list) option \<times> 'z kfs_scheme) res" where
  "nameiparent pn s = namex pn True s"

section \<open>Numbers in file names\<close>

text \<open>
  \<^verbatim>\<open>itoa\<close>: the first loop counts the digits, the second one stores them from the last to the
  first. The minus sign goes in front; the argument is any int but the least one.
\<close>

function itoa_len :: "nat \<Rightarrow> nat" where
  "itoa_len i = (if i div 10 = 0 then 1 else Suc (itoa_len (i div 10)))"
  by pat_completeness auto
termination by (relation "measure id") auto

function itoa_fill :: "nat \<Rightarrow> nat \<Rightarrow> uchar list \<Rightarrow> uchar list" where
  "itoa_fill i p b =
     (let b = b[p - 1 := word_of_nat (48 + i mod 10)]
      in if i div 10 = 0 then b else itoa_fill (i div 10) (p - 1) b)"
  by pat_completeness auto
termination by (relation "measure fst") auto

definition itoa :: "int \<Rightarrow> uchar list" where
  "itoa i = (let n = nat \<bar>i\<bar>; k = itoa_len n; p = (if i < 0 then [0x2D] else [])
     in p @ itoa_fill n k (replicate k 0))"

end
