(* ===== verification/Ring.thy ===== *)
theory Ring
  imports Prelude
begin

text \<open>
  Bounded FIFO buffers. The kernel has four of them: the transmit buffer of the uart, the input
  buffer of the console, the data of a pipe, and \<^verbatim>\<open>struct queue\<close> of \<^verbatim>\<open>kernel/queue.c\<close>. The first three
  are arrays indexed by free-running unsigned counters modulo the array's size. The locale
  \<open>fifo\<close> is their contract; it is interpreted for each of them. \<^verbatim>\<open>queue.c\<close> is modelled here.
\<close>

section \<open>The contract\<close>

text \<open>
  \<open>absq\<close> gives the elements in order. A client that puts and gets in any order, putting only
  when there is room, gets out what it put in, in order.
\<close>

datatype 'a qop = Put 'a | Get

locale fifo =
  fixes inv :: "'s \<Rightarrow> bool" and absq :: "'s \<Rightarrow> 'a list" and cap :: nat
    and put :: "'a \<Rightarrow> 's \<Rightarrow> 's" and get :: "'s \<Rightarrow> 'a \<times> 's"
  assumes bounded: "inv s \<Longrightarrow> length (absq s) \<le> cap"
    and put_inv: "inv s \<Longrightarrow> length (absq s) < cap \<Longrightarrow> inv (put x s)"
    and put_abs: "inv s \<Longrightarrow> length (absq s) < cap \<Longrightarrow> absq (put x s) = absq s @ [x]"
    and get_inv: "inv s \<Longrightarrow> absq s \<noteq> [] \<Longrightarrow> inv (snd (get s))"
    and get_abs: "inv s \<Longrightarrow> absq s \<noteq> [] \<Longrightarrow> fst (get s) = hd (absq s) \<and> absq (snd (get s)) = tl (absq s)"
begin

text \<open>A run: refused operations (putting into a full buffer, getting from an empty one) do nothing.\<close>

primrec run :: "'a qop list \<Rightarrow> 's \<Rightarrow> 'a list \<times> 'a list \<times> 's" where
  "run [] s = ([], [], s)"
| "run (x # xs) s = (case x of
     Put a \<Rightarrow> if length (absq s) < cap then case run xs (put a s) of (ins, outs, s') \<Rightarrow> (a # ins, outs, s') else run xs s
   | Get \<Rightarrow> if absq s \<noteq> [] then case run xs (snd (get s)) of (ins, outs, s') \<Rightarrow> (ins, fst (get s) # outs, s') else run xs s)"

lemma run_fifo:
  "inv s \<Longrightarrow> run xs s = (ins, outs, s') \<Longrightarrow> inv s' \<and> absq s @ ins = outs @ absq s' \<and> length (absq s') \<le> cap"
proof (induction xs arbitrary: s ins outs s')
  case Nil
  then show ?case using bounded by simp
next
  case (Cons x xs)
  show ?case
  proof (cases x)
    case (Put a)
    show ?thesis
    proof (cases "length (absq s) < cap")
      case True
      then obtain i where i: "run xs (put a s) = (i, outs, s')" "ins = a # i"
        using Put Cons.prems by (auto split: prod.splits)
      show ?thesis using Cons.IH [OF put_inv [OF Cons.prems(1) True] i(1)] put_abs [OF Cons.prems(1) True] i(2) by simp
    next
      case False
      then have "run xs s = (ins, outs, s')" using Put Cons.prems(2) by simp
      then show ?thesis by (rule Cons.IH [OF Cons.prems(1)])
    qed
  next
    case Get
    show ?thesis
    proof (cases "absq s = []")
      case True
      then have "run xs s = (ins, outs, s')" using Get Cons.prems(2) by simp
      then show ?thesis by (rule Cons.IH [OF Cons.prems(1)])
    next
      case False
      then obtain os where i: "run xs (snd (get s)) = (ins, os, s')" "outs = fst (get s) # os"
        using Get Cons.prems by (auto split: prod.splits)
      show ?thesis using Cons.IH [OF get_inv [OF Cons.prems(1) False] i(1)] get_abs [OF Cons.prems(1) False] i(2)
          append_Cons [of "hd (absq s)" "tl (absq s)" ins] False by simp
    qed
  qed
qed

end

section \<open>Arrays with free-running counters\<close>

text \<open>
  The elements between the read counter \<open>r\<close> and the write counter \<open>w\<close>; the counters wrap around
  at the width of their type, which the size \<open>N\<close> of the array divides.
\<close>

definition ring_elems :: "nat \<Rightarrow> 'b list \<Rightarrow> 'a :: len word \<Rightarrow> 'a word \<Rightarrow> 'b list" where
  "ring_elems N buf r w = map (\<lambda>k. buf ! (unat (r + word_of_nat k) mod N)) [0..<unat (w - r)]"

lemma length_ring_elems [simp]: "length (ring_elems N buf r w) = unat (w - r)"
  by (simp add: ring_elems_def)

lemma ring_empty: "ring_elems N buf r w = [] \<longleftrightarrow> r = w"
  by (auto simp: ring_elems_def unat_eq_0)

lemma unat_add_mod: "N dvd 2 ^ LENGTH('a) \<Longrightarrow> unat (a + b :: 'a :: len word) mod N = (unat a + unat b) mod N"
  by (simp add: unat_word_ariths mod_mod_cancel)

text \<open>Different positions less than \<open>N\<close> apart are different slots.\<close>

lemma ring_slot_neq:
  assumes "N dvd 2 ^ LENGTH('a)" "i < j" "j < N"
  shows "unat (r + word_of_nat i :: 'a :: len word) mod N \<noteq> unat (r + word_of_nat j) mod N"
proof
  have m: "unat (word_of_nat k :: 'a word) mod N = k mod N" for k
    using assms(1) by (simp add: unat_of_nat mod_mod_cancel)
  assume "unat (r + word_of_nat i) mod N = unat (r + word_of_nat j) mod N"
  then have "(unat r + i) mod N = (unat r + j) mod N"
    using m [of i] m [of j] by (simp add: unat_add_mod [OF assms(1)]) (metis mod_add_right_eq)
  then have "N dvd (unat r + j) - (unat r + i)" using assms mod_eq_dvd_iff_nat [of "unat r + i" "unat r + j" N] by simp
  then show False using assms by (auto dest: dvd_imp_le)
qed

lemma ring_put:
  assumes N: "N dvd 2 ^ LENGTH('a)" "0 < N" "length buf = N" and room: "unat (w - r) < N"
    and w: "unat (w - r) < 2 ^ LENGTH('a) - 1"
  shows "ring_elems N (buf[unat w mod N := x]) r (w + 1 :: 'a :: len word) = ring_elems N buf r w @ [x]"
proof -
  let ?n = "unat (w - r)"
  have n1: "unat (w + 1 - r) = Suc ?n"
  proof -
    have e: "w + 1 - r = (w - r) + 1" by simp
    have "unat ((w - r) + 1) = unat (w - r) + unat (1 :: 'a word)"
      using w by (intro unat_add_lem [THEN iffD1]) simp
    then show ?thesis unfolding e by simp
  qed
  have wn: "w = r + word_of_nat ?n" by simp
  have other: "unat w mod N \<noteq> unat (r + word_of_nat k) mod N" if "k < ?n" for k
    using ring_slot_neq [OF N(1) that room, of r] wn by simp
  have "unat w mod N < length buf" using N by simp
  then show ?thesis using other wn by (simp add: ring_elems_def n1 del: word_of_nat_eq_iff)
qed

lemma ring_get:
  assumes "r \<noteq> w"
  shows "ring_elems N buf r w = buf ! (unat r mod N) # ring_elems N buf (r + 1) w"
proof -
  have nz: "w - r \<noteq> 0" using assms by auto
  have n: "unat (w - (r + 1)) = unat (w - r) - 1" "0 < unat (w - r)"
    using unat_minus_one [OF nz] nz by (simp_all add: diff_diff_eq unat_gt_0)
  have "[0..<unat (w - r)] = 0 # map Suc [0..<unat (w - r) - 1]"
    using n(2) by (metis Suc_diff_1 map_Suc_upt upt_conv_Cons)
  then show ?thesis by (simp add: ring_elems_def n(1) add.assoc add.commute [of 1])
qed

section \<open>kernel/queue.c\<close>

text \<open>The C ints are in range throughout, so integers stand for them.\<close>

record queue =
  q_front :: int
  q_rear :: int
  q_size :: int
  q_q :: "int list"

definition dequeue :: "queue \<Rightarrow> int \<times> queue" where
  "dequeue x =
     (if q_size x = 0 then (-1, x)
      else (q_q x ! nat (q_front x), x\<lparr>q_front := (q_front x + 1) mod 32, q_size := q_size x - 1\<rparr>))"

definition enqueue :: "int \<Rightarrow> queue \<Rightarrow> queue" where
  "enqueue item x =
     (if q_size x = 32 then x
      else let rear = (q_rear x + 1) mod 32
           in x\<lparr>q_rear := rear, q_q := (q_q x)[nat rear := item], q_size := q_size x + 1\<rparr>)"

text \<open>The loop of \<^verbatim>\<open>remove_item\<close>, with the number of iterations left.\<close>

primrec remove_loop :: "nat \<Rightarrow> int \<Rightarrow> queue \<Rightarrow> queue" where
  "remove_loop 0 item x = x"
| "remove_loop (Suc k) item x =
     (case dequeue x of (tmp, x) \<Rightarrow> remove_loop k item (if tmp \<noteq> item then enqueue tmp x else x))"

definition remove_item :: "int \<Rightarrow> queue \<Rightarrow> queue" where
  "remove_item item x = remove_loop (nat (q_size x)) item x"

definition front_to_rear :: "queue \<Rightarrow> queue" where
  "front_to_rear x = (case dequeue x of (item, x) \<Rightarrow> enqueue item x)"

text \<open>The queue's elements; the rear index is kept one behind the next free slot.\<close>

definition queue_inv :: "queue \<Rightarrow> bool" where
  "queue_inv x \<longleftrightarrow> 0 \<le> q_front x \<and> q_front x < 32 \<and> 0 \<le> q_size x \<and> q_size x \<le> 32 \<and> length (q_q x) = 32 \<and>
     q_rear x mod 32 = (q_front x + q_size x - 1) mod 32"

definition queue_elems :: "queue \<Rightarrow> int list" where
  "queue_elems x = map (\<lambda>k. q_q x ! nat ((q_front x + int k) mod 32)) [0..<nat (q_size x)]"

lemma length_queue_elems [simp]: "queue_inv x \<Longrightarrow> int (length (queue_elems x)) = q_size x"
  by (simp add: queue_elems_def queue_inv_def)

lemma enqueue_spec:
  assumes "queue_inv x" "q_size x < 32"
  shows "queue_inv (enqueue a x)" "queue_elems (enqueue a x) = queue_elems x @ [a]"
proof -
  let ?r = "(q_rear x + 1) mod 32"
  have r: "?r = (q_front x + q_size x) mod 32"
    using assms mod_add_cong [of "q_rear x" 32 "q_front x + q_size x - 1" 1 1] by (simp add: queue_inv_def)
  have e: "enqueue a x = x\<lparr>q_rear := ?r, q_q := (q_q x)[nat ?r := a], q_size := q_size x + 1\<rparr>"
    using assms by (simp add: enqueue_def Let_def)
  show "queue_inv (enqueue a x)" using assms r by (simp add: e queue_inv_def)
  have ne: "nat ?r \<noteq> nat ((q_front x + int k) mod 32)" if "k < nat (q_size x)" for k
  proof -
    have "(q_front x + int k) mod 32 \<noteq> (q_front x + q_size x) mod 32"
    proof
      assume "(q_front x + int k) mod 32 = (q_front x + q_size x) mod 32"
      then have "32 dvd (q_size x - int k)" by (simp add: mod_eq_dvd_iff algebra_simps) (metis dvd_minus_iff minus_diff_eq)
      then show False using that assms by (auto dest: zdvd_imp_le)
    qed
    then show ?thesis using r by (simp add: eq_nat_nat_iff)
  qed
  have "nat (q_size x + 1) = Suc (nat (q_size x))" using assms by (simp add: queue_inv_def nat_add_distrib)
  moreover have "nat ?r < length (q_q x)" "0 \<le> q_size x" using assms by (simp_all add: queue_inv_def nat_less_iff)
  ultimately show "queue_elems (enqueue a x) = queue_elems x @ [a]"
    using ne r by (simp add: queue_elems_def e)
qed

lemma dequeue_spec:
  assumes "queue_inv x" "q_size x > 0"
  shows "queue_inv (snd (dequeue x))" "queue_elems x = fst (dequeue x) # queue_elems (snd (dequeue x))"
    "q_size (snd (dequeue x)) = q_size x - 1"
proof -
  have e: "dequeue x = (q_q x ! nat (q_front x), x\<lparr>q_front := (q_front x + 1) mod 32, q_size := q_size x - 1\<rparr>)"
    using assms by (simp add: dequeue_def)
  have "((q_front x + 1) mod 32 + (q_size x - 2)) mod 32 = (q_front x + 1 + (q_size x - 2)) mod 32"
    by (rule mod_add_left_eq)
  then have "(q_front x + q_size x - 1) mod 32 = ((q_front x + 1) mod 32 + (q_size x - 1) - 1) mod 32"
    by (simp add: algebra_simps)
  then show "queue_inv (snd (dequeue x))" using assms by (simp add: e queue_inv_def)
  have "[0..<nat (q_size x)] = 0 # map Suc [0..<nat (q_size x - 1)]"
    using assms by (simp add: map_Suc_upt upt_conv_Cons Suc_nat_eq_nat_zadd1)
  moreover have "(q_front x + (1 + int k)) mod 32 = ((q_front x + 1) mod 32 + int k) mod 32" for k
    by (simp add: mod_simps algebra_simps)
  ultimately show "queue_elems x = fst (dequeue x) # queue_elems (snd (dequeue x))"
    using assms by (simp add: queue_elems_def e queue_inv_def)
  show "q_size (snd (dequeue x)) = q_size x - 1" by (simp add: e)
qed

lemma remove_loop_spec:
  "queue_inv x \<Longrightarrow> queue_elems x = xs @ ys \<Longrightarrow> length xs = k \<Longrightarrow>
   queue_inv (remove_loop k item x) \<and> queue_elems (remove_loop k item x) = ys @ filter (\<lambda>a. a \<noteq> item) xs"
proof (induction k arbitrary: x xs ys)
  case (Suc k)
  then obtain a zs where xs: "xs = a # zs" "length zs = k" by (cases xs) auto
  have "q_size x > 0" using length_queue_elems [OF Suc.prems(1)] Suc.prems(2) xs by simp
  note d = dequeue_spec [OF Suc.prems(1) this]
  let ?x = "snd (dequeue x)"
  have a: "fst (dequeue x) = a" "queue_elems ?x = zs @ ys" using d(2) Suc.prems(2) xs by simp_all
  have "q_size ?x < 32" using d(3) Suc.prems(1) by (simp add: queue_inv_def)
  note e = enqueue_spec [OF d(1) this, of a]
  show ?case
    using Suc.IH [OF d(1) a(2) xs(2)] Suc.IH [OF e(1), of zs "ys @ [a]"] e(2) a xs by (simp add: case_prod_unfold)
qed simp

interpretation queue_fifo: fifo queue_inv queue_elems 32 enqueue dequeue
proof
  show "length (queue_elems s) \<le> 32" if "queue_inv s" for s
    using length_queue_elems [OF that] that by (simp add: queue_inv_def)
  show "queue_inv (enqueue x s)" "queue_elems (enqueue x s) = queue_elems s @ [x]"
    if "queue_inv s" "length (queue_elems s) < 32" for s x
    using enqueue_spec [OF that(1)] length_queue_elems [OF that(1)] that(2) by simp_all
  show "queue_inv (snd (dequeue s))"
    "fst (dequeue s) = hd (queue_elems s) \<and> queue_elems (snd (dequeue s)) = tl (queue_elems s)"
    if "queue_inv s" "queue_elems s \<noteq> []" for s
  proof -
    have "q_size s > 0" using length_queue_elems [OF that(1)] that(2) by (metis length_greater_0_conv of_nat_0_less_iff)
    from dequeue_spec [OF that(1) this] show "queue_inv (snd (dequeue s))"
      "fst (dequeue s) = hd (queue_elems s) \<and> queue_elems (snd (dequeue s)) = tl (queue_elems s)" by simp_all
  qed
qed

end
