(* ===== verification/Dev.thy ===== *)
theory Dev
  imports Fs Ring
begin

text \<open>
  The uart driver \<^verbatim>\<open>kernel/uart.c\<close>, kernel printing \<^verbatim>\<open>kernel/printf.c\<close>, and the console
  \<^verbatim>\<open>kernel/console.c\<close>. The device is given by what its registers will return: the value of each
  read of the line status register and of the receive register, in order; every register
  write is recorded.
\<close>

section \<open>State\<close>

definition UART_TX_BUF_SIZE :: nat where "UART_TX_BUF_SIZE = 32"
definition INPUT_BUF :: nat where "INPUT_BUF = 128"

record kdev = kfs +
  panicked :: bool
  uart_lsr :: "nat \<Rightarrow> uchar"
  uart_nlsr :: nat
  uart_rhr :: "nat \<Rightarrow> uchar"
  uart_nrhr :: nat
  uart_writes :: "(nat \<times> uchar) list"
  uart_tx_buf :: "uchar list"
  uart_tx_w :: uint64
  uart_tx_r :: uint64
  cons_buf :: "uchar list"
  cons_r :: uint32
  cons_w :: uint32
  cons_e :: uint32

section \<open>The uart\<close>

definition RHR :: nat where "RHR = 0"
definition THR :: nat where "THR = 0"
definition IER :: nat where "IER = 1"
definition IER_RX_ENABLE :: uchar where "IER_RX_ENABLE = push_bit 0 1"
definition IER_TX_ENABLE :: uchar where "IER_TX_ENABLE = push_bit 1 1"
definition FCR :: nat where "FCR = 2"
definition FCR_FIFO_ENABLE :: uchar where "FCR_FIFO_ENABLE = push_bit 0 1"
definition FCR_FIFO_CLEAR :: uchar where "FCR_FIFO_CLEAR = push_bit 1 3"
definition LCR :: nat where "LCR = 3"
definition LCR_EIGHT_BITS :: uchar where "LCR_EIGHT_BITS = push_bit 0 3"
definition LCR_BAUD_LATCH :: uchar where "LCR_BAUD_LATCH = push_bit 7 1"
definition LSR_RX_READY :: uchar where "LSR_RX_READY = push_bit 0 1"
definition LSR_TX_IDLE :: uchar where "LSR_TX_IDLE = push_bit 5 1"

definition ReadLSR :: "'z kdev_scheme \<Rightarrow> uchar \<times> 'z kdev_scheme" where
  "ReadLSR s = (uart_lsr s (uart_nlsr s), s\<lparr>uart_nlsr := Suc (uart_nlsr s)\<rparr>)"

definition ReadRHR :: "'z kdev_scheme \<Rightarrow> uchar \<times> 'z kdev_scheme" where
  "ReadRHR s = (uart_rhr s (uart_nrhr s), s\<lparr>uart_nrhr := Suc (uart_nrhr s)\<rparr>)"

definition WriteReg :: "nat \<Rightarrow> uchar \<Rightarrow> 'z kdev_scheme \<Rightarrow> 'z kdev_scheme" where
  "WriteReg reg v s = s\<lparr>uart_writes := uart_writes s @ [(reg, v)]\<rparr>"

definition uartinit :: "'z kdev_scheme \<Rightarrow> 'z kdev_scheme" where
  "uartinit s =
     (let s = WriteReg IER 0 s;
          s = WriteReg LCR LCR_BAUD_LATCH s;
          s = WriteReg 0 3 s;
          s = WriteReg 1 0 s;
          s = WriteReg LCR LCR_EIGHT_BITS s;
          s = WriteReg FCR (FCR_FIFO_ENABLE OR FCR_FIFO_CLEAR) s
      in WriteReg IER (IER_TX_ENABLE OR IER_RX_ENABLE) s)"

lemma tx_less: "w \<noteq> r \<Longrightarrow> unat (w - (r + 1) :: uint64) < unat (w - r)"
proof -
  assume "w \<noteq> r"
  then have nz: "w - r \<noteq> 0" by simp
  from unat_minus_one [OF this] nz show ?thesis by (simp add: diff_diff_eq unat_gt_0)
qed

function uartstart :: "'z kdev_scheme \<Rightarrow> 'z kdev_scheme" where
  "uartstart s =
     (if uart_tx_w s = uart_tx_r s then s
      else let (l, s) = ReadLSR s
           in if l AND LSR_TX_IDLE = 0 then s
              else let c = uart_tx_buf s ! (unat (uart_tx_r s) mod UART_TX_BUF_SIZE);
                       s = s\<lparr>uart_tx_r := uart_tx_r s + 1\<rparr>;
                       s = wakeup Chan_uart s
                   in uartstart (WriteReg THR c s))"
  by pat_completeness auto
termination
  by (relation "measure (\<lambda>s. unat (uart_tx_w s - uart_tx_r s))") (auto simp: ReadLSR_def WriteReg_def wakeup_def tx_less)

declare uartstart.simps [simp del]

text \<open>The two halves of the ring: storing a character, and taking the next one.\<close>

definition uart_put :: "uchar \<Rightarrow> 'z kdev_scheme \<Rightarrow> 'z kdev_scheme" where
  "uart_put c s = s\<lparr>uart_tx_buf := (uart_tx_buf s)[unat (uart_tx_w s) mod UART_TX_BUF_SIZE := c],
     uart_tx_w := uart_tx_w s + 1\<rparr>"

definition uartputc :: "uchar \<Rightarrow> 'z kdev_scheme \<Rightarrow> 'z kdev_scheme res" where
  "uartputc c s =
     (if panicked s then Spin
      else if uart_tx_w s = uart_tx_r s + word_of_nat UART_TX_BUF_SIZE then Sleep Chan_uart
      else Ok (uartstart (uart_put c s)))"

text \<open>Polling the line status register from its \<open>k\<close>-th read on; it may never be idle.\<close>

partial_function (option) wait_idle :: "(nat \<Rightarrow> uchar) \<Rightarrow> nat \<Rightarrow> nat option" where
  [code]: "wait_idle lsr k = (if lsr k AND LSR_TX_IDLE = 0 then wait_idle lsr (Suc k) else Some (Suc k))"

definition uartputc_sync :: "uchar \<Rightarrow> 'z kdev_scheme \<Rightarrow> 'z kdev_scheme res" where
  "uartputc_sync c s =
     (if panicked s then Spin
      else case wait_idle (uart_lsr s) (uart_nlsr s) of
          None \<Rightarrow> Spin
        | Some k \<Rightarrow> Ok (WriteReg THR c (s\<lparr>uart_nlsr := k\<rparr>)))"

definition uartgetc :: "'z kdev_scheme \<Rightarrow> int \<times> 'z kdev_scheme" where
  "uartgetc s =
     (case ReadLSR s of (l, s) \<Rightarrow>
        if l AND 1 \<noteq> 0 then case ReadRHR s of (c, s) \<Rightarrow> (int (unat c), s) else (-1, s))"

section \<open>Printing\<close>

definition BACKSPACE :: int where "BACKSPACE = 0x100"

definition consputc :: "int \<Rightarrow> 'z kdev_scheme \<Rightarrow> 'z kdev_scheme res" where
  "consputc c s =
     (if c = BACKSPACE
      then and_then (uartputc_sync 8 s) (\<lambda>s. and_then (uartputc_sync 0x20 s) (uartputc_sync 8))
      else uartputc_sync (word_of_int c) s)"

definition digits :: "uchar list" where
  "digits = [0x30, 0x31, 0x32, 0x33, 0x34, 0x35, 0x36, 0x37, 0x38, 0x39, 0x61, 0x62, 0x63, 0x64, 0x65, 0x66]"

text \<open>The first loop of \<^verbatim>\<open>printint\<close>: the digits of \<open>x\<close> from the last to the first. The base is at least 2.\<close>

function int_digits :: "nat \<Rightarrow> nat \<Rightarrow> uchar list" where
  "int_digits base x = digits ! (x mod base) # (if base < 2 \<or> x div base = 0 then [] else int_digits base (x div base))"
  by pat_completeness auto
termination
proof (relation "measure snd")
  fix base x :: nat
  assume "\<not> (base < 2 \<or> x div base = 0)"
  then have "1 < base" "0 < x" by (auto intro: Nat.gr0I)
  then show "((base, x div base), base, x) \<in> measure snd" by (simp add: div_less_dividend)
qed simp

declare int_digits.simps [simp del]

text \<open>The contents of \<^verbatim>\<open>buf\<close>, which is printed backwards.\<close>

definition int_buf :: "uint32 \<Rightarrow> nat \<Rightarrow> bool \<Rightarrow> uchar list" where
  "int_buf xx base sign =
     (let neg = sign \<and> xx <s 0;
          x = if neg then - xx else xx
      in int_digits base (unat x) @ (if neg then [0x2D] else []))"

definition print_chars :: "uchar list \<Rightarrow> 'z kdev_scheme \<Rightarrow> 'z kdev_scheme res" where
  "print_chars cs s = loop_res (\<lambda>c. consputc (int (unat c))) cs s"

definition printint :: "uint32 \<Rightarrow> nat \<Rightarrow> bool \<Rightarrow> 'z kdev_scheme \<Rightarrow> 'z kdev_scheme res" where
  "printint xx base sign s = print_chars (rev (int_buf xx base sign)) s"

primrec ptr_digits :: "nat \<Rightarrow> uint64 \<Rightarrow> uchar list" where
  "ptr_digits 0 x = []"
| "ptr_digits (Suc n) x = digits ! unat (drop_bit 60 x) # ptr_digits n (push_bit 4 x)"

definition printptr :: "uint64 \<Rightarrow> 'z kdev_scheme \<Rightarrow> 'z kdev_scheme res" where
  "printptr x s = print_chars (0x30 # 0x78 # ptr_digits 16 x) s"

text \<open>
  The arguments of \<^verbatim>\<open>printf\<close>; a string argument may be null. Reading an argument that was not
  passed, or one of another type, is undefined in C and gives \<open>None\<close>.
\<close>

datatype printf_arg = Arg_int uint32 | Arg_ptr uint64 | Arg_str "uchar list option"

fun printf_text :: "uchar list \<Rightarrow> printf_arg list \<Rightarrow> uchar list option" where
  "printf_text [] args = Some []"
| "printf_text (c # cs) args =
     (if c \<noteq> 0x25 then map_option ((#) c) (printf_text cs args)
      else case cs of
          [] \<Rightarrow> Some []
        | d # cs \<Rightarrow>
            if d = 0x64 then (case args of Arg_int x # args \<Rightarrow> map_option ((@) (rev (int_buf x 10 True))) (printf_text cs args) | _ \<Rightarrow> None)
            else if d = 0x78 then (case args of Arg_int x # args \<Rightarrow> map_option ((@) (rev (int_buf x 16 True))) (printf_text cs args) | _ \<Rightarrow> None)
            else if d = 0x70 then (case args of Arg_ptr x # args \<Rightarrow> map_option ((@) (0x30 # 0x78 # ptr_digits 16 x)) (printf_text cs args) | _ \<Rightarrow> None)
            else if d = 0x73 then (case args of
                Arg_str (Some t) # args \<Rightarrow> map_option ((@) t) (printf_text cs args)
              | Arg_str None # args \<Rightarrow> map_option ((@) [0x28, 0x6E, 0x75, 0x6C, 0x6C, 0x29]) (printf_text cs args)
              | _ \<Rightarrow> None)
            else if d = 0x25 then map_option ((#) 0x25) (printf_text cs args)
            else map_option (\<lambda>t. 0x25 # d # t) (printf_text cs args))"

definition kprintf :: "uchar list \<Rightarrow> printf_arg list \<Rightarrow> 'z kdev_scheme \<Rightarrow> 'z kdev_scheme res" where
  "kprintf fmt args s = (case printf_text fmt args of Some t \<Rightarrow> print_chars t s | None \<Rightarrow> Spin)"

text \<open>\<^verbatim>\<open>panic\<close> up to its endless loop.\<close>

definition panic_print :: "uchar list \<Rightarrow> 'z kdev_scheme \<Rightarrow> 'z kdev_scheme res" where
  "panic_print m s =
     and_then (kprintf [0x70, 0x61, 0x6E, 0x69, 0x63, 0x3A, 0x20] [] s) (\<lambda>s.
     and_then (kprintf m [] s) (\<lambda>s.
     and_then (kprintf [0x0A] [] s) (\<lambda>s.
     Ok (s\<lparr>panicked := True\<rparr>))))"

definition state_name :: "procstate \<Rightarrow> uchar list" where
  "state_name q = map (\<lambda>c. word_of_nat (of_char c)) (case q of
     UNUSED \<Rightarrow> ''unused'' | USED \<Rightarrow> ''???'' | SLEEPING \<Rightarrow> ''sleep '' | RUNNABLE \<Rightarrow> ''runble'' | RUNNING \<Rightarrow> ''run   '' | ZOMBIE \<Rightarrow> ''zombie'')"

definition procdump :: "'z kdev_scheme \<Rightarrow> 'z kdev_scheme res" where
  "procdump s =
     and_then (kprintf [0x0A] [] s) (\<lambda>s.
     loop_res (\<lambda>p s.
       if p_state p = UNUSED then Ok s
       else and_then (kprintf [0x25, 0x64, 0x20, 0x25, 0x73, 0x20, 0x25, 0x73]
                       [Arg_int (word_of_int (p_pid p)), Arg_str (Some (state_name (p_state p))),
                        Arg_str (Some (takeWhile (\<lambda>c. c \<noteq> 0) (p_name p)))] s) (\<lambda>s.
            kprintf [0x0A] [] s)) (procs s) s)"

section \<open>The console\<close>

text \<open>The loop of \<^verbatim>\<open>consolewrite\<close>, with the number of characters left and done.\<close>

primrec consolewrite_loop :: "nat \<Rightarrow> place \<Rightarrow> nat \<Rightarrow> 'z kdev_scheme \<Rightarrow> (int \<times> 'z kdev_scheme) res" where
  "consolewrite_loop 0 src i s = Ok (int i, s)"
| "consolewrite_loop (Suc k) src i s =
     and_then (either_copyin (place_add src i) 1 s) (\<lambda>(r, bs).
     if r = -1 then Ok (int i, s)
     else and_then (uartputc (bs ! 0) s) (\<lambda>s. consolewrite_loop k src (Suc i) s))"

definition consolewrite :: "place \<Rightarrow> uint32 \<Rightarrow> 'z kdev_scheme \<Rightarrow> (int \<times> 'z kdev_scheme) res" where
  "consolewrite src n s = consolewrite_loop (nat (sint n)) src 0 s"

text \<open>
  The loop of \<^verbatim>\<open>consoleread\<close> with \<open>n\<close> bytes to go of \<open>target\<close>. Where the code waits for input the model
  says so with \<open>Sleep\<close>.
\<close>

primrec consoleread_loop :: "nat \<Rightarrow> place \<Rightarrow> nat \<Rightarrow> 'z kdev_scheme \<Rightarrow> (int \<times> 'z kdev_scheme) res" where
  "consoleread_loop 0 dst target s = Ok (int target, s)"
| "consoleread_loop (Suc n) dst target s =
     (if cons_r s = cons_w s then if p_killed (myproc s) then Ok (-1, s) else Sleep Chan_cons
      else let c = cons_buf s ! (unat (cons_r s) mod INPUT_BUF);
               s = s\<lparr>cons_r := cons_r s + 1\<rparr>
           in if c = 4
              then Ok (int target - int (Suc n), if Suc n < target then s\<lparr>cons_r := cons_r s - 1\<rparr> else s)
              else and_then (either_copyout dst [c] s) (\<lambda>(r, s).
                   if r = -1 then Ok (int target - int (Suc n), s)
                   else if c = 0x0A then Ok (int target - int n, s)
                   else consoleread_loop n (place_add dst 1) target s))"

definition consoleread :: "place \<Rightarrow> uint32 \<Rightarrow> 'z kdev_scheme \<Rightarrow> (int \<times> 'z kdev_scheme) res" where
  "consoleread dst n s =
     (if sint n \<le> 0 then Ok (0, s) else consoleread_loop (nat (sint n)) dst (nat (sint n)) s)"

lemma consputc_frame:
  assumes "consputc c s = Ok s'"
  shows "cons_buf s' = cons_buf s" "cons_r s' = cons_r s" "cons_w s' = cons_w s" "cons_e s' = cons_e s"
    "procs s' = procs s" "cur s' = cur s" "panicked s' = panicked s" "uart_lsr s' = uart_lsr s"
proof -
  have one: "cons_buf y = cons_buf x \<and> cons_r y = cons_r x \<and> cons_w y = cons_w x \<and> cons_e y = cons_e x \<and>
      procs y = procs x \<and> cur y = cur x \<and> panicked y = panicked x \<and> uart_lsr y = uart_lsr x"
    if "uartputc_sync a x = Ok y" for a and x y :: "'a kdev_scheme"
    using that by (auto simp: uartputc_sync_def WriteReg_def split: if_splits option.splits)
  show "cons_buf s' = cons_buf s" "cons_r s' = cons_r s" "cons_w s' = cons_w s" "cons_e s' = cons_e s"
    "procs s' = procs s" "cur s' = cur s" "panicked s' = panicked s" "uart_lsr s' = uart_lsr s"
    using assms by (auto simp: consputc_def and_then_eq_Ok dest!: one split: if_splits)
qed

lemma edit_less: "e \<noteq> w \<Longrightarrow> unat (e - 1 - w :: uint32) < unat (e - w)"
proof -
  assume "e \<noteq> w"
  then have nz: "e - w \<noteq> 0" by simp
  have "e - 1 - w = (e - w) - 1" by simp
  from unat_minus_one [OF nz] nz show ?thesis unfolding \<open>e - 1 - w = (e - w) - 1\<close> by (simp add: unat_gt_0)
qed

function kill_line :: "'z kdev_scheme \<Rightarrow> 'z kdev_scheme res" where
  "kill_line s =
     (if cons_e s \<noteq> cons_w s \<and> cons_buf s ! (unat (cons_e s - 1) mod INPUT_BUF) \<noteq> 0x0A
      then and_then (consputc BACKSPACE (s\<lparr>cons_e := cons_e s - 1\<rparr>)) kill_line
      else Ok s)"
  by pat_completeness auto
termination
  by (relation "measure (\<lambda>s. unat (cons_e s - cons_w s))") (auto simp: consputc_frame edit_less)

declare kill_line.simps [simp del]

definition consoleintr :: "int \<Rightarrow> 'z kdev_scheme \<Rightarrow> 'z kdev_scheme res" where
  "consoleintr c s =
     (if c = 0x10 then procdump s
      else if c = 0x15 then kill_line s
      else if c = 8 \<or> c = 0x7F
      then if cons_e s \<noteq> cons_w s then consputc BACKSPACE (s\<lparr>cons_e := cons_e s - 1\<rparr>) else Ok s
      else if c \<noteq> 0 \<and> unat (cons_e s - cons_r s) < INPUT_BUF
      then let c = if c = 0x0D then 0x0A else c
           in and_then (consputc c s) (\<lambda>s.
              let s = s\<lparr>cons_buf := (cons_buf s)[unat (cons_e s) mod INPUT_BUF := word_of_int c], cons_e := cons_e s + 1\<rparr>
              in Ok (if c = 0x0A \<or> c = 4 \<or> cons_e s = cons_r s + word_of_nat INPUT_BUF
                     then wakeup Chan_cons (s\<lparr>cons_w := cons_e s\<rparr>) else s))
      else Ok s)"

text \<open>The input loop of \<^verbatim>\<open>uartintr\<close>; the device may keep it busy forever.\<close>

partial_function (option) uartintr_loop :: "'z kdev_scheme \<Rightarrow> 'z kdev_scheme res option" where
  [code]: "uartintr_loop s =
     (case uartgetc s of (c, s) \<Rightarrow>
        if c = -1 then Some (Ok s)
        else case consoleintr c s of Ok s \<Rightarrow> uartintr_loop s | Panic m \<Rightarrow> Some (Panic m) | Sleep ch \<Rightarrow> Some (Sleep ch) | Spin \<Rightarrow> Some Spin)"

definition uartintr :: "'z kdev_scheme \<Rightarrow> 'z kdev_scheme res" where
  "uartintr s = (case uartintr_loop s of None \<Rightarrow> Spin | Some r \<Rightarrow> and_then r (\<lambda>s. Ok (uartstart s)))"

text \<open>
  \<^verbatim>\<open>consoleinit\<close> also enters the two routines into \<^verbatim>\<open>devsw\<close>; the file layer calls them for the
  console's major number.
\<close>

definition consoleinit :: "'z kdev_scheme \<Rightarrow> 'z kdev_scheme" where
  "consoleinit s = uartinit s"

end
