(* ===== verification/File.thy ===== *)
theory File
  imports Dev
begin

text \<open>
  Open files and pipes: \<^verbatim>\<open>kernel/file.c\<close> and \<^verbatim>\<open>kernel/pipe.c\<close>. A \<^verbatim>\<open>struct file *\<close> is the index of its
  entry in \<^verbatim>\<open>ftable\<close>. A pipe lives in a page from \<^verbatim>\<open>kalloc\<close>, whose address names it; its fields are
  kept in a table of records by address instead of in the bytes of that page. The kernel
  variants \<^verbatim>\<open>kfileread\<close> and \<^verbatim>\<open>kfilewrite\<close> differ from the user ones in the kind of address that
  \<^verbatim>\<open>readi\<close> and \<^verbatim>\<open>writei\<close> get.
\<close>

section \<open>State\<close>

definition NFILE :: nat where "NFILE = 100"
definition NDEV :: int where "NDEV = 10"
definition CONSOLE :: int where "CONSOLE = 1"
definition PIPESIZE :: nat where "PIPESIZE = 512"

datatype fdtype = FD_NONE | FD_PIPE | FD_INODE | FD_DEVICE

record ofile =
  f_type :: fdtype
  f_ref :: int
  f_readable :: bool
  f_writable :: bool
  f_pipe :: addr
  f_ip :: nat
  f_off :: uint32
  f_major :: ushort

record pipe =
  pi_data :: "uchar list"
  pi_nread :: uint32
  pi_nwrite :: uint32
  pi_readopen :: bool
  pi_writeopen :: bool

record kfile = kdev +
  ftable :: "ofile list"
  pipes :: "addr \<Rightarrow> pipe"

definition upd_file :: "nat \<Rightarrow> (ofile \<Rightarrow> ofile) \<Rightarrow> 'z kfile_scheme \<Rightarrow> 'z kfile_scheme" where
  "upd_file f g s = s\<lparr>ftable := (ftable s)[f := g (ftable s ! f)]\<rparr>"

definition upd_pipe :: "addr \<Rightarrow> (pipe \<Rightarrow> pipe) \<Rightarrow> 'z kfile_scheme \<Rightarrow> 'z kfile_scheme" where
  "upd_pipe p g s = s\<lparr>pipes := (pipes s)(p := g (pipes s p))\<rparr>"

section \<open>The file table\<close>

definition filealloc :: "'z kfile_scheme \<Rightarrow> nat option \<times> 'z kfile_scheme" where
  "filealloc s =
     (case find (\<lambda>f. f_ref (ftable s ! f) = 0) [0..<NFILE] of
        Some f \<Rightarrow> (Some f, upd_file f (\<lambda>x. x\<lparr>f_ref := 1\<rparr>) s)
      | None \<Rightarrow> (None, s))"

definition filedup :: "nat \<Rightarrow> 'z kfile_scheme \<Rightarrow> 'z kfile_scheme res" where
  "filedup f s =
     (if f_ref (ftable s ! f) < 1 then Panic ''filedup''
      else Ok (upd_file f (\<lambda>x. x\<lparr>f_ref := f_ref x + 1\<rparr>) s))"

section \<open>Pipes\<close>

text \<open>The ring of a pipe: one byte in, one byte out.\<close>

definition pipe_put :: "uchar \<Rightarrow> pipe \<Rightarrow> pipe" where
  "pipe_put ch p = p\<lparr>pi_data := (pi_data p)[unat (pi_nwrite p) mod PIPESIZE := ch], pi_nwrite := pi_nwrite p + 1\<rparr>"

definition pipe_get :: "pipe \<Rightarrow> uchar \<times> pipe" where
  "pipe_get p = (pi_data p ! (unat (pi_nread p) mod PIPESIZE), p\<lparr>pi_nread := pi_nread p + 1\<rparr>)"

definition pipeclose :: "addr \<Rightarrow> bool \<Rightarrow> 'z kfile_scheme \<Rightarrow> 'z kfile_scheme res" where
  "pipeclose pi writable s =
     (let s = (if writable then wakeup (Chan_pipe_nread pi) (upd_pipe pi (\<lambda>p. p\<lparr>pi_writeopen := False\<rparr>) s)
               else wakeup (Chan_pipe_nwrite pi) (upd_pipe pi (\<lambda>p. p\<lparr>pi_readopen := False\<rparr>) s))
      in if \<not> pi_readopen (pipes s pi) \<and> \<not> pi_writeopen (pipes s pi) then kfree pi s else Ok s)"

text \<open>A transfer either ends with a return value or stops where the code sleeps, after \<open>i\<close> bytes.\<close>

datatype pipe_out = Done int | Blocked nat

text \<open>\<^verbatim>\<open>pipewrite\<close> from its \<open>i\<close>-th byte on, with \<open>k\<close> bytes to go.\<close>

primrec pipewrite_loop :: "nat \<Rightarrow> addr \<Rightarrow> uint64 \<Rightarrow> nat \<Rightarrow> 'z kfile_scheme \<Rightarrow> (pipe_out \<times> 'z kfile_scheme) res" where
  "pipewrite_loop 0 pi addr i s = Ok (Done (int i), wakeup (Chan_pipe_nread pi) s)"
| "pipewrite_loop (Suc k) pi addr i s =
     (let p = pipes s pi
      in if \<not> pi_readopen p \<or> p_killed (myproc s) then Ok (Done (-1), s)
         else if pi_nwrite p = pi_nread p + word_of_nat PIPESIZE
         then Ok (Blocked i, wakeup (Chan_pipe_nread pi) s)
         else and_then (copyin (p_pagetable (myproc s)) (addr + word_of_nat i) 1 s) (\<lambda>(r, bs).
              if r = -1 then Ok (Done (int i), wakeup (Chan_pipe_nread pi) s)
              else pipewrite_loop k pi addr (Suc i) (upd_pipe pi (pipe_put (bs ! 0)) s)))"

definition pipewrite :: "addr \<Rightarrow> uint64 \<Rightarrow> uint32 \<Rightarrow> 'z kfile_scheme \<Rightarrow> (int \<times> 'z kfile_scheme) res" where
  "pipewrite pi addr n s =
     and_then (pipewrite_loop (nat (sint n)) pi addr 0 s) (\<lambda>(r, s).
     case r of Done v \<Rightarrow> Ok (v, s) | Blocked _ \<Rightarrow> Sleep (Chan_pipe_nwrite pi))"

primrec piperead_loop :: "nat \<Rightarrow> addr \<Rightarrow> uint64 \<Rightarrow> nat \<Rightarrow> 'z kfile_scheme \<Rightarrow> (int \<times> 'z kfile_scheme) res" where
  "piperead_loop 0 pi addr i s = Ok (int i, s)"
| "piperead_loop (Suc k) pi addr i s =
     (let p = pipes s pi
      in if pi_nread p = pi_nwrite p then Ok (int i, s)
         else case pipe_get p of (ch, p') \<Rightarrow>
              and_then (copyout (p_pagetable (myproc s)) (addr + word_of_nat i) [ch] (upd_pipe pi (\<lambda>_. p') s)) (\<lambda>(r, s).
              if r = -1 then Ok (int i, s) else piperead_loop k pi addr (Suc i) s))"

definition piperead :: "addr \<Rightarrow> uint64 \<Rightarrow> uint32 \<Rightarrow> 'z kfile_scheme \<Rightarrow> (int \<times> 'z kfile_scheme) res" where
  "piperead pi addr n s =
     (let p = pipes s pi
      in if pi_nread p = pi_nwrite p \<and> pi_writeopen p
         then if p_killed (myproc s) then Ok (-1, s) else Sleep (Chan_pipe_nread pi)
         else and_then (piperead_loop (nat (sint n)) pi addr 0 s) (\<lambda>(r, s). Ok (r, wakeup (Chan_pipe_nwrite pi) s)))"

section \<open>Operations on files\<close>

definition fileclose :: "nat \<Rightarrow> 'z kfile_scheme \<Rightarrow> 'z kfile_scheme res" where
  "fileclose f s =
     (if f_ref (ftable s ! f) < 1 then Panic ''fileclose''
      else let s = upd_file f (\<lambda>x. x\<lparr>f_ref := f_ref x - 1\<rparr>) s
           in if f_ref (ftable s ! f) > 0 then Ok s
              else let ff = ftable s ! f;
                       s = upd_file f (\<lambda>x. x\<lparr>f_ref := 0, f_type := FD_NONE\<rparr>) s
                   in case f_type ff of
                        FD_PIPE \<Rightarrow> pipeclose (f_pipe ff) (f_writable ff) s
                      | FD_NONE \<Rightarrow> Ok s
                      | _ \<Rightarrow> and_then (begin_op s) (\<lambda>s. and_then (iput (f_ip ff) s) end_op))"

definition pipealloc :: "'z kfile_scheme \<Rightarrow> ((nat \<times> nat) option \<times> 'z kfile_scheme) res" where
  "pipealloc s =
     (case filealloc s of
        (None, s) \<Rightarrow> Ok (None, s)
      | (Some f0, s) \<Rightarrow>
          (case filealloc s of
             (None, s) \<Rightarrow> and_then (fileclose f0 s) (\<lambda>s. Ok (None, s))
           | (Some f1, s) \<Rightarrow>
               (case kalloc s of (pi, s) \<Rightarrow>
                  if pi = 0
                  then and_then (fileclose f0 s) (\<lambda>s. and_then (fileclose f1 s) (\<lambda>s. Ok (None, s)))
                  else let s = upd_pipe pi (\<lambda>_. \<lparr>pi_data = replicate PIPESIZE 5, pi_nread = 0, pi_nwrite = 0,
                                                 pi_readopen = True, pi_writeopen = True\<rparr>) s;
                           s = upd_file f0 (\<lambda>x. x\<lparr>f_type := FD_PIPE, f_readable := True, f_writable := False, f_pipe := pi\<rparr>) s;
                           s = upd_file f1 (\<lambda>x. x\<lparr>f_type := FD_PIPE, f_readable := False, f_writable := True, f_pipe := pi\<rparr>) s
                       in Ok (Some (f0, f1), s))))"

text \<open>The bytes of a \<^verbatim>\<open>struct stat\<close>; \<open>pad\<close> are the four bytes of padding, which nothing initialises.\<close>

definition le_bytes :: "nat \<Rightarrow> 'a :: len word \<Rightarrow> uchar list" where
  "le_bytes n w = map (\<lambda>i. ucast (drop_bit (8 * i) w)) [0..<n]"

definition stat_bytes :: "uchar list \<Rightarrow> stat \<Rightarrow> uchar list" where
  "stat_bytes pad t = le_bytes 4 (st_dev t) @ le_bytes 4 (st_ino t) @ le_bytes 2 (st_type t) @ le_bytes 2 (st_nlink t) @
     pad @ le_bytes 8 (st_size t)"

definition filestat :: "uchar list \<Rightarrow> nat \<Rightarrow> uint64 \<Rightarrow> 'z kfile_scheme \<Rightarrow> (int \<times> 'z kfile_scheme) res" where
  "filestat pad f addr s =
     (let x = ftable s ! f
      in if f_type x = FD_INODE \<or> f_type x = FD_DEVICE
         then and_then (ilock (f_ip x) s) (\<lambda>s.
              let t = stati (f_ip x) s
              in and_then (iunlock (f_ip x) s) (\<lambda>s.
                 and_then (copyout (p_pagetable (myproc s)) addr (stat_bytes pad t) s) (\<lambda>(r, s).
                 Ok (if r < 0 then -1 else 0, s))))
         else Ok (-1, s))"

text \<open>The device switch: only the console has routines.\<close>

definition has_dev :: "ushort \<Rightarrow> bool" where
  "has_dev mj \<longleftrightarrow> \<not> (sint mj < 0 \<or> sint mj \<ge> NDEV) \<and> sint mj = CONSOLE"

text \<open>
  The branches of \<^verbatim>\<open>fileread\<close> and \<^verbatim>\<open>kfileread\<close>, which differ in the address handed to \<^verbatim>\<open>readi\<close>: \<open>dst\<close>. The
  pipe and console branches of both take \<open>addr\<close> as a user address.
\<close>

definition file_read :: "nat \<Rightarrow> place \<Rightarrow> uint64 \<Rightarrow> uint32 \<Rightarrow> 'z kfile_scheme \<Rightarrow> (int \<times> 'z kfile_scheme) res" where
  "file_read f dst addr n s =
     (let x = ftable s ! f
      in if \<not> f_readable x then Ok (-1, s)
         else case f_type x of
             FD_PIPE \<Rightarrow> piperead (f_pipe x) addr n s
           | FD_DEVICE \<Rightarrow> if \<not> has_dev (f_major x) then Ok (-1, s) else consoleread (User addr) n s
           | FD_INODE \<Rightarrow>
               and_then (ilock (f_ip x) s) (\<lambda>s.
               and_then (readi (f_ip x) dst (f_off x) n s) (\<lambda>(r, _, s).
               let s = if r > 0 then upd_file f (\<lambda>y. y\<lparr>f_off := f_off y + word_of_int r\<rparr>) s else s
               in and_then (iunlock (f_ip x) s) (\<lambda>s. Ok (r, s))))
           | FD_NONE \<Rightarrow> Panic ''fileread'')"

definition fileread :: "nat \<Rightarrow> uint64 \<Rightarrow> uint32 \<Rightarrow> 'z kfile_scheme \<Rightarrow> (int \<times> 'z kfile_scheme) res" where
  "fileread f addr n s = file_read f (User addr) addr n s"

definition kfileread :: "nat \<Rightarrow> uint64 \<Rightarrow> uint32 \<Rightarrow> 'z kfile_scheme \<Rightarrow> (int \<times> 'z kfile_scheme) res" where
  "kfileread f addr n s = file_read f (Kernel addr) addr n s"

definition write_max :: int where
  "write_max = ((int MAXOPBLOCKS - 1 - 1 - 2) div 2) * int BSIZE"

text \<open>One chunk of \<^verbatim>\<open>filewrite\<close>, in a transaction of its own.\<close>

definition write_chunk :: "nat \<Rightarrow> place \<Rightarrow> int \<Rightarrow> 'z kfile_scheme \<Rightarrow> (int \<times> 'z kfile_scheme) res" where
  "write_chunk f src n1 s =
     and_then (begin_op s) (\<lambda>s.
     let ip = f_ip (ftable s ! f)
     in and_then (ilock ip s) (\<lambda>s.
        and_then (writei ip src (f_off (ftable s ! f)) (word_of_int n1) s) (\<lambda>(r, s).
        let s = if r > 0 then upd_file f (\<lambda>y. y\<lparr>f_off := f_off y + word_of_int r\<rparr>) s else s
        in and_then (iunlock ip s) (\<lambda>s.
           and_then (end_op s) (\<lambda>s. Ok (r, s))))))"

function write_chunks :: "nat \<Rightarrow> place \<Rightarrow> int \<Rightarrow> int \<Rightarrow> 'z kfile_scheme \<Rightarrow> (int \<times> 'z kfile_scheme) res" where
  "write_chunks f src i n s =
     (if i < n
      then let n1 = if n - i > write_max then write_max else n - i
           in and_then (write_chunk f (place_add src (nat i)) n1 s) (\<lambda>(r, s).
              if r \<noteq> n1 then Ok (i, s) else write_chunks f src (i + r) n s)
      else Ok (i, s))"
  by pat_completeness auto
termination
  by (relation "measure (\<lambda>(_, _, i, n, _). nat (n - i))") (auto simp: write_max_def MAXOPBLOCKS_def BSIZE_def split: if_splits)

declare write_chunks.simps [simp del]

definition file_write :: "nat \<Rightarrow> place \<Rightarrow> uint64 \<Rightarrow> uint32 \<Rightarrow> 'z kfile_scheme \<Rightarrow> (int \<times> 'z kfile_scheme) res" where
  "file_write f src addr n s =
     (let x = ftable s ! f
      in if \<not> f_writable x then Ok (-1, s)
         else case f_type x of
             FD_PIPE \<Rightarrow> pipewrite (f_pipe x) addr n s
           | FD_DEVICE \<Rightarrow> if \<not> has_dev (f_major x) then Ok (-1, s) else consolewrite (User addr) n s
           | FD_INODE \<Rightarrow> and_then (write_chunks f src 0 (sint n) s) (\<lambda>(i, s). Ok (if i = sint n then i else -1, s))
           | FD_NONE \<Rightarrow> Panic ''filewrite'')"

definition filewrite :: "nat \<Rightarrow> uint64 \<Rightarrow> uint32 \<Rightarrow> 'z kfile_scheme \<Rightarrow> (int \<times> 'z kfile_scheme) res" where
  "filewrite f addr n s = file_write f (User addr) addr n s"

definition kfilewrite :: "nat \<Rightarrow> uint64 \<Rightarrow> uint32 \<Rightarrow> 'z kfile_scheme \<Rightarrow> (int \<times> 'z kfile_scheme) res" where
  "kfilewrite f addr n s = file_write f (Kernel addr) addr n s"

end
