(* ===== verification/SwapFile.thy ===== *)
theory SwapFile
  imports File
begin

text \<open>
  Creating and unlinking files (\<^verbatim>\<open>create\<close>, \<^verbatim>\<open>isdirempty\<close> and the body of \<^verbatim>\<open>sys_unlink\<close> in
  \<^verbatim>\<open>kernel/sysfile.c\<close>) and the swap files built on them (\<^verbatim>\<open>createSwapFile\<close>, \<^verbatim>\<open>removeSwapFile\<close>,
  \<^verbatim>\<open>writeToSwapFile\<close>, \<^verbatim>\<open>readFromSwapFile\<close> in \<^verbatim>\<open>kernel/fs.c\<close>).
\<close>

section \<open>Creating and unlinking\<close>

definition dot :: "uchar list" where "dot = [0x2E]"
definition dotdot :: "uchar list" where "dotdot = [0x2E, 0x2E]"

fun isdirempty_loop :: "nat \<Rightarrow> nat list \<Rightarrow> 'z kfile_scheme \<Rightarrow> (bool \<times> 'z kfile_scheme) res" where
  "isdirempty_loop dp [] s = Ok (True, s)"
| "isdirempty_loop dp (off # offs) s =
     and_then (readi dp (Local []) (word_of_nat off) 16 s) (\<lambda>(r, de, s).
     if r \<noteq> 16 then Panic ''isdirempty: readi''
     else if de_inum de \<noteq> 0 then Ok (False, s)
     else isdirempty_loop dp offs s)"

definition isdirempty :: "nat \<Rightarrow> 'z kfile_scheme \<Rightarrow> (bool \<times> 'z kfile_scheme) res" where
  "isdirempty dp s = isdirempty_loop dp (drop 2 (de_offs (i_size (itable s ! dp)))) s"

definition create ::
  "uchar list \<Rightarrow> ushort \<Rightarrow> ushort \<Rightarrow> ushort \<Rightarrow> 'z kfile_scheme \<Rightarrow> (nat option \<times> 'z kfile_scheme) res"
where
  "create pn ty mj mn s =
     and_then (nameiparent pn s) (\<lambda>(r, s).
     case r of
       None \<Rightarrow> Ok (None, s)
     | Some (dp, name) \<Rightarrow>
         and_then (ilock dp s) (\<lambda>s.
         and_then (dirlookup dp name s) (\<lambda>(r, s).
         case r of
           Some (ip, _) \<Rightarrow>
             and_then (iunlockput dp s) (\<lambda>s.
             and_then (ilock ip s) (\<lambda>s.
             let t = i_type (itable s ! ip)
             in if ty = T_FILE \<and> (t = T_FILE \<or> t = T_DEVICE) then Ok (Some ip, s)
                else and_then (iunlockput ip s) (\<lambda>s. Ok (None, s))))
         | None \<Rightarrow>
             and_then (ialloc (i_dev (itable s ! dp)) ty s) (\<lambda>(ip, s).
             and_then (ilock ip s) (\<lambda>s.
             and_then (iupdate ip (upd_inode ip (\<lambda>x. x\<lparr>i_major := mj, i_minor := mn, i_nlink := 1\<rparr>) s)) (\<lambda>s.
             and_then (if ty = T_DIR
                       then and_then (iupdate dp (upd_inode dp (\<lambda>x. x\<lparr>i_nlink := i_nlink x + 1\<rparr>) s)) (\<lambda>s.
                            and_then (dirlink ip dot (i_inum (itable s ! ip)) s) (\<lambda>(r, s).
                            if r < 0 then Panic ''create dots''
                            else and_then (dirlink ip dotdot (i_inum (itable s ! dp)) s) (\<lambda>(r, s).
                                 if r < 0 then Panic ''create dots'' else Ok s)))
                       else Ok s) (\<lambda>s.
             and_then (dirlink dp name (i_inum (itable s ! ip)) s) (\<lambda>(r, s).
             if r < 0 then Panic ''create: dirlink''
             else and_then (iunlockput dp s) (\<lambda>s. Ok (Some ip, s))))))))))"

text \<open>
  \<^verbatim>\<open>sys_unlink\<close> after it has fetched its argument; \<^verbatim>\<open>removeSwapFile\<close> repeats the same steps.
\<close>

definition unlink_bad :: "nat \<Rightarrow> 'z kfile_scheme \<Rightarrow> (int \<times> 'z kfile_scheme) res" where
  "unlink_bad dp s = and_then (iunlockput dp s) (\<lambda>s. and_then (end_op s) (\<lambda>s. Ok (-1, s)))"

definition unlink_path :: "uchar list \<Rightarrow> 'z kfile_scheme \<Rightarrow> (int \<times> 'z kfile_scheme) res" where
  "unlink_path pn s =
     and_then (begin_op s) (\<lambda>s.
     and_then (nameiparent pn s) (\<lambda>(r, s).
     case r of
       None \<Rightarrow> and_then (end_op s) (\<lambda>s. Ok (-1, s))
     | Some (dp, name) \<Rightarrow>
         and_then (ilock dp s) (\<lambda>s.
         if namecmp name dot = 0 \<or> namecmp name dotdot = 0 then unlink_bad dp s
         else and_then (dirlookup dp name s) (\<lambda>(r, s).
         case r of
           None \<Rightarrow> unlink_bad dp s
         | Some (ip, off) \<Rightarrow>
             and_then (ilock ip s) (\<lambda>s.
             if sint (i_nlink (itable s ! ip)) < 1 then Panic ''unlink: nlink < 1''
             else and_then (if i_type (itable s ! ip) = T_DIR then isdirempty ip s else Ok (True, s)) (\<lambda>(e, s).
             if \<not> e then and_then (iunlockput ip s) (unlink_bad dp)
             else and_then (writei dp (Local (replicate 16 0)) (word_of_nat off) 16 s) (\<lambda>(r, s).
                  if r \<noteq> 16 then Panic ''unlink: writei''
                  else and_then (if i_type (itable s ! ip) = T_DIR
                                 then iupdate dp (upd_inode dp (\<lambda>x. x\<lparr>i_nlink := i_nlink x - 1\<rparr>) s)
                                 else Ok s) (\<lambda>s.
                       and_then (iunlockput dp s) (\<lambda>s.
                       and_then (iupdate ip (upd_inode ip (\<lambda>x. x\<lparr>i_nlink := i_nlink x - 1\<rparr>) s)) (\<lambda>s.
                       and_then (iunlockput ip s) (\<lambda>s.
                       and_then (end_op s) (\<lambda>s. Ok (0, s)))))))))))))"

section \<open>Swap files\<close>

text \<open>The name of a process's swap file; the code builds it in an array of \<open>DIGITS\<close> bytes.\<close>

definition DIGITS :: nat where "DIGITS = 14"

definition swap_path :: "int \<Rightarrow> uchar list" where
  "swap_path pid = [0x2F, 0x2E, 0x73, 0x77, 0x61, 0x70] @ itoa pid"

definition removeSwapFile :: "nat \<Rightarrow> 'z kfile_scheme \<Rightarrow> (int \<times> 'z kfile_scheme) res" where
  "removeSwapFile p s =
     (case p_swapFile (procs s ! p) of
        None \<Rightarrow> Ok (-1, s)
      | Some f \<Rightarrow> and_then (fileclose f s) (\<lambda>s. unlink_path (swap_path (p_pid (procs s ! p))) s))"

text \<open>\<^verbatim>\<open>create\<close> can fail, which the code does not check: \<^verbatim>\<open>iunlock\<close> of a null pointer panics.\<close>

definition createSwapFile :: "nat \<Rightarrow> 'z kfile_scheme \<Rightarrow> (int \<times> 'z kfile_scheme) res" where
  "createSwapFile p s =
     and_then (begin_op s) (\<lambda>s.
     and_then (create (swap_path (p_pid (procs s ! p))) T_FILE 0 0 s) (\<lambda>(r, s).
     case r of
       None \<Rightarrow> Panic ''iunlock''
     | Some ip \<Rightarrow>
         and_then (iunlock ip s) (\<lambda>s.
         case filealloc s of
           (None, s) \<Rightarrow> Panic ''no slot for files on /store''
         | (Some f, s) \<Rightarrow>
             let s = upd_proc p (\<lambda>x. x\<lparr>p_swapFile := Some f\<rparr>) s;
                 s = upd_file f (\<lambda>x. x\<lparr>f_ip := ip, f_type := FD_INODE, f_off := 0, f_readable := True, f_writable := True\<rparr>) s
             in and_then (end_op s) (\<lambda>s. Ok (0, s)))))"

text \<open>A process without a swap file has a null \<^verbatim>\<open>swapFile\<close>; using it faults in the kernel.\<close>

definition writeToSwapFile :: "nat \<Rightarrow> addr \<Rightarrow> uint32 \<Rightarrow> uint32 \<Rightarrow> 'z kfile_scheme \<Rightarrow> (int \<times> 'z kfile_scheme) res" where
  "writeToSwapFile p buffer placeOnFile sz s =
     (case p_swapFile (procs s ! p) of
        None \<Rightarrow> Panic ''kerneltrap''
      | Some f \<Rightarrow> kfilewrite f buffer sz (upd_file f (\<lambda>x. x\<lparr>f_off := placeOnFile\<rparr>) s))"

definition readFromSwapFile :: "nat \<Rightarrow> addr \<Rightarrow> uint32 \<Rightarrow> uint32 \<Rightarrow> 'z kfile_scheme \<Rightarrow> (int \<times> 'z kfile_scheme) res" where
  "readFromSwapFile p buffer placeOnFile sz s =
     (case p_swapFile (procs s ! p) of
        None \<Rightarrow> Panic ''kerneltrap''
      | Some f \<Rightarrow> kfileread f buffer sz (upd_file f (\<lambda>x. x\<lparr>f_off := placeOnFile\<rparr>) s))"

end
