(* ===== verification/Vm.thy ===== *)
theory Vm
  imports SwapFile
begin

text \<open>
  User address spaces: the rest of \<^verbatim>\<open>kernel/vm.c\<close> with \<^verbatim>\<open>swapfile_to_ram\<close>, \<^verbatim>\<open>update_age\<close>, \<^verbatim>\<open>count_pages\<close> and
  \<^verbatim>\<open>proc_mapstacks\<close> of \<^verbatim>\<open>kernel/proc.c\<close>. A loop over the pages from \<open>a\<close> to below \<open>b\<close> runs over the list
  \<open>page_range a b\<close>; \<^verbatim>\<open>walk\<close> panics at \<^verbatim>\<open>MAXVA\<close>, long before an address could wrap around. Using a null
  page-table entry or page faults in the kernel, where \<^verbatim>\<open>kerneltrap\<close> panics.
\<close>

section \<open>Helpers\<close>

definition page_range :: "uint64 \<Rightarrow> uint64 \<Rightarrow> uint64 list" where
  "page_range a b = map (\<lambda>k. a + word_of_nat k * PGSIZE) [0..<if a < b then (unat b - unat a + 4095) div 4096 else 0]"

definition set_pte :: "addr \<Rightarrow> uint64 \<Rightarrow> 'z kmem_scheme \<Rightarrow> 'z kmem_scheme" where
  "set_pte pte v s = s\<lparr>ram := st64 (ram s) pte v\<rparr>"

text \<open>\<^verbatim>\<open>walk\<close> without allocation, in places where the code uses the result unchecked.\<close>

definition walk_pte :: "addr \<Rightarrow> uint64 \<Rightarrow> 'z kmem_scheme \<Rightarrow> addr res" where
  "walk_pte pagetable va s =
     and_then (walk pagetable va False s) (\<lambda>(pte, _). if pte = 0 then Panic ''kerneltrap'' else Ok pte)"

definition PTE_RWX :: uint64 where "PTE_RWX = PTE_R OR PTE_W OR PTE_X"
definition PTE_user :: uint64 where "PTE_user = PTE_W OR PTE_X OR PTE_R OR PTE_U"

section \<open>The kernel's page table\<close>

definition UART0 :: uint64 where "UART0 = 0x10000000"
definition VIRTIO0 :: uint64 where "VIRTIO0 = 0x10001000"
definition PLIC :: uint64 where "PLIC = 0x0c000000"

definition proc_mapstacks :: "selection \<Rightarrow> addr \<Rightarrow> 'z kmem_scheme \<Rightarrow> 'z kmem_scheme res" where
  "proc_mapstacks sel kpgtbl s =
     loop_res (\<lambda>i s. case kalloc s of (pa, s) \<Rightarrow>
       if pa = 0 then Panic ''kalloc'' else kvmmap sel kpgtbl (KSTACK (word_of_nat i)) pa PGSIZE (PTE_R OR PTE_W) s) [0..<NPROC] s"

definition kvmmake :: "selection \<Rightarrow> 'z kmem_scheme \<Rightarrow> (addr \<times> 'z kmem_scheme) res" where
  "kvmmake sel s =
     (case kalloc s of (t, s) \<Rightarrow>
        and_then (kvmmap sel t UART0 UART0 PGSIZE (PTE_R OR PTE_W) (s\<lparr>ram := memset (ram s) t 0 (ucast PGSIZE)\<rparr>)) (\<lambda>s.
        and_then (kvmmap sel t VIRTIO0 VIRTIO0 PGSIZE (PTE_R OR PTE_W) s) (\<lambda>s.
        and_then (kvmmap sel t PLIC PLIC 0x400000 (PTE_R OR PTE_W) s) (\<lambda>s.
        and_then (kvmmap sel t KERNBASE KERNBASE (ketext s - KERNBASE) (PTE_R OR PTE_X) s) (\<lambda>s.
        and_then (kvmmap sel t (ketext s) (ketext s) (PHYSTOP - ketext s) (PTE_R OR PTE_W) s) (\<lambda>s.
        and_then (kvmmap sel t TRAMPOLINE (ktrampoline s) PGSIZE (PTE_R OR PTE_X) s) (\<lambda>s.
        and_then (proc_mapstacks sel t s) (\<lambda>s. Ok (t, s)))))))))"

section \<open>Unmapping and freeing\<close>

fun uvmunmap_NONE_loop :: "addr \<Rightarrow> uint64 \<Rightarrow> bool \<Rightarrow> uint64 list \<Rightarrow> 'z kmem_scheme \<Rightarrow> 'z kmem_scheme res" where
  "uvmunmap_NONE_loop pagetable va do_free [] s = Ok s"
| "uvmunmap_NONE_loop pagetable va do_free (a # as) s =
     and_then (walk pagetable a False s) (\<lambda>(pte, s).
     if pte = 0 then Panic ''uvmunmap: walk''
     else let e = ld64 (ram s) pte
          in if e AND PTE_V = 0 then Panic ''uvmunmap: not mapped''
             else and_then (if PTE_FLAGS e = PTE_V then walkaddr pagetable va s else Ok 0) (\<lambda>w.
                  if w \<noteq> 0 then Panic ''uvmunmap: not a leaf''
                  else and_then (if do_free
                                 then and_then (walkaddr pagetable va s) (\<lambda>w. if w \<noteq> 0 then kfree (PTE2PA e) s else Ok s)
                                 else Ok s) (\<lambda>s.
                       uvmunmap_NONE_loop pagetable va do_free as (set_pte pte 0 s))))"

definition uvmunmap_NONE :: "addr \<Rightarrow> uint64 \<Rightarrow> uint64 \<Rightarrow> bool \<Rightarrow> 'z kmem_scheme \<Rightarrow> 'z kmem_scheme res" where
  "uvmunmap_NONE pagetable va npages do_free s =
     (if va mod PGSIZE \<noteq> 0 then Panic ''uvmunmap: not aligned''
      else uvmunmap_NONE_loop pagetable va do_free (page_range va (va + npages * PGSIZE)) s)"

text \<open>Dropping the records of the page at \<open>a\<close>; the C ints are compared with a 64-bit address.\<close>

definition forget_va :: "uint64 \<Rightarrow> kproc \<Rightarrow> kproc" where
  "forget_va a p =
     (let f = map (\<lambda>pd. if scast (pg_va pd) = a then remove_page pd else pd)
      in p\<lparr>p_ram := f (p_ram p), p_swap := f (p_swap p)\<rparr>)"

fun uvmunmap_not_NONE_loop :: "addr \<Rightarrow> bool \<Rightarrow> uint64 list \<Rightarrow> 'z kprocs_scheme \<Rightarrow> 'z kprocs_scheme res" where
  "uvmunmap_not_NONE_loop pagetable do_free [] s = Ok s"
| "uvmunmap_not_NONE_loop pagetable do_free (a # as) s =
     and_then (walk pagetable a False s) (\<lambda>(pte, s).
     if pte = 0 then Panic ''uvmunmap: walk''
     else let e = ld64 (ram s) pte
          in if e AND PTE_V = 0 \<and> e AND PTE_PG = 0 then Panic ''uvmunmap: not mapped''
             else if PTE_FLAGS e = PTE_V then Panic ''uvmunmap: not a leaf''
             else and_then (if do_free \<and> e AND PTE_PG = 0 then kfree (PTE2PA e) s else Ok s) (\<lambda>s.
                  let s = set_pte pte 0 s;
                      s = if p_pid (myproc s) > 2 then upd_proc (cur s) (forget_va a) s else s
                  in uvmunmap_not_NONE_loop pagetable do_free as s))"

definition uvmunmap_not_NONE :: "addr \<Rightarrow> uint64 \<Rightarrow> uint64 \<Rightarrow> bool \<Rightarrow> 'z kprocs_scheme \<Rightarrow> 'z kprocs_scheme res" where
  "uvmunmap_not_NONE pagetable va npages do_free s =
     (if va mod PGSIZE \<noteq> 0 then Panic ''uvmunmap: not aligned''
      else uvmunmap_not_NONE_loop pagetable do_free (page_range va (va + npages * PGSIZE)) s)"

definition uvmunmap :: "selection \<Rightarrow> addr \<Rightarrow> uint64 \<Rightarrow> uint64 \<Rightarrow> bool \<Rightarrow> 'z kprocs_scheme \<Rightarrow> 'z kprocs_scheme res" where
  "uvmunmap sel pagetable va npages do_free s =
     (if sel = NONE then uvmunmap_NONE pagetable va npages do_free s else uvmunmap_not_NONE pagetable va npages do_free s)"

text \<open>The number of pages passes through a C int.\<close>

definition uvmdealloc :: "selection \<Rightarrow> addr \<Rightarrow> uint64 \<Rightarrow> uint64 \<Rightarrow> 'z kprocs_scheme \<Rightarrow> (uint64 \<times> 'z kprocs_scheme) res" where
  "uvmdealloc sel pagetable oldsz newsz s =
     (if newsz \<ge> oldsz then Ok (oldsz, s)
      else if PGROUNDUP newsz < PGROUNDUP oldsz
      then let npages = (ucast ((PGROUNDUP oldsz - PGROUNDUP newsz) div PGSIZE) :: uint32)
           in and_then (uvmunmap sel pagetable (PGROUNDUP newsz) (scast npages) True s) (\<lambda>s. Ok (newsz, s))
      else Ok (newsz, s))"

text \<open>
  \<^verbatim>\<open>freewalk\<close> with the number of levels it may descend; a page table has three, and a deeper
  descent, which only a malformed table can cause, counts as not returning.
\<close>

primrec freewalk_level :: "nat \<Rightarrow> addr \<Rightarrow> 'z kmem_scheme \<Rightarrow> 'z kmem_scheme res" where
  "freewalk_level 0 pagetable s = Spin"
| "freewalk_level (Suc k) pagetable s =
     and_then (loop_res (\<lambda>i s.
       let pte = ld64 (ram s) (pagetable + 8 * word_of_nat i)
       in if pte AND PTE_V \<noteq> 0 \<and> pte AND PTE_RWX = 0
          then and_then (freewalk_level k (PTE2PA pte) s) (\<lambda>s. Ok (set_pte (pagetable + 8 * word_of_nat i) 0 s))
          else if pte AND PTE_V \<noteq> 0 then Panic ''freewalk: leaf''
          else Ok s) [0..<512] s) (\<lambda>s.
     kfree pagetable s)"

definition freewalk :: "addr \<Rightarrow> 'z kmem_scheme \<Rightarrow> 'z kmem_scheme res" where
  "freewalk pagetable s = freewalk_level 3 pagetable s"

definition uvmfree :: "selection \<Rightarrow> addr \<Rightarrow> uint64 \<Rightarrow> 'z kprocs_scheme \<Rightarrow> 'z kprocs_scheme res" where
  "uvmfree sel pagetable sz s =
     and_then (if sz > 0 then uvmunmap sel pagetable 0 (PGROUNDUP sz div PGSIZE) True s else Ok s) (\<lambda>s.
     freewalk pagetable s)"

section \<open>Swapping\<close>

text \<open>\<^verbatim>\<open>count_pages\<close> with its flag set prints a line for each page in use.\<close>

definition count_fmt :: "uchar list" where
  "count_fmt = map (\<lambda>c. word_of_nat (of_char c)) (''pid %d , %d in memory, aging %d'' @ [CHR 0x0A])"

text \<open>C's division, which rounds towards zero.\<close>

definition c_div :: "int \<Rightarrow> int \<Rightarrow> int" where
  "c_div a b = (if a < 0 then - (- a div b) else a div b)"

definition count_pages_print :: "page_data list \<Rightarrow> 'z kdev_scheme \<Rightarrow> (nat \<times> 'z kdev_scheme) res" where
  "count_pages_print pds s =
     and_then (loop_res (\<lambda>pd s.
       if pg_used pd
       then kprintf count_fmt [Arg_int (word_of_int (p_pid (myproc s))), Arg_int (word_of_int (c_div (sint (pg_va pd)) 4096)), Arg_int (pg_age pd)] s
       else Ok s) pds s) (\<lambda>s. Ok (count_pages pds, s))"

text \<open>The index of the first entry that satisfies \<open>P\<close>.\<close>

definition first_page :: "(page_data \<Rightarrow> bool) \<Rightarrow> page_data list \<Rightarrow> nat option" where
  "first_page P pds = find (\<lambda>i. P (pds ! i)) [0..<MAX_PSYC_PAGES]"

text \<open>The statements that enter the page at \<open>va\<close> into \<^verbatim>\<open>p->ram[i]\<close>.\<close>

definition enter_ram :: "selection \<Rightarrow> nat \<Rightarrow> uint64 \<Rightarrow> kproc \<Rightarrow> kproc" where
  "enter_ram sel i va p =
     (let pd = p_ram p ! i;
          pd = if sel = SCFIFO then pd\<lparr>pg_fifo_time := p_fifo_counter p\<rparr> else pd;
          p = if sel = SCFIFO then p\<lparr>p_fifo_counter := p_fifo_counter p + 1\<rparr> else p;
          pd = if sel = NFUA then pd\<lparr>pg_age := 0\<rparr> else pd;
          pd = if sel = LAPA then pd\<lparr>pg_age := 0xFFFFFFFF\<rparr> else pd;
          pd = pd\<lparr>pg_offset := -1, pg_va := ucast va, pg_used := True\<rparr>
      in p\<lparr>p_ram := (p_ram p)[i := pd]\<rparr>)"

definition swapfile_to_ram :: "selection \<Rightarrow> uint64 \<Rightarrow> addr \<Rightarrow> nat \<Rightarrow> 'z kfile_scheme \<Rightarrow> (nat \<times> 'z kfile_scheme) res" where
  "swapfile_to_ram sel va pte ram_arr_index s =
     (case first_page (\<lambda>pd. scast (pg_va pd) = va) (p_swap (myproc s)) of
        None \<Rightarrow> Panic ''error: can't find page in swapfile''
      | Some swap_arr_index \<Rightarrow>
          (case kalloc s of (page, s) \<Rightarrow>
             if page = 0 then Panic ''kerneltrap''
             else and_then (readFromSwapFile (cur s) page (word_of_nat (swap_arr_index * 4096)) 4096 s) (\<lambda>(r, s).
                  if r = -1 then Panic ''error when reading from swap file''
                  else let s = upd_proc (cur s) (enter_ram sel ram_arr_index va) s
                       in and_then (mappage (p_pagetable (myproc s)) va page PTE_user s) (\<lambda>(r, s).
                          if r \<noteq> 0 then Panic ''mappage error''
                          else let s = set_pte pte (ld64 (ram s) pte AND NOT PTE_PG) s
                               in Ok (swap_arr_index,
                                      upd_proc (cur s) (\<lambda>p. p\<lparr>p_swap := (p_swap p)[swap_arr_index := remove_page (p_swap p ! swap_arr_index)]\<rparr>) s)))))"

definition swap_pages :: "selection \<Rightarrow> uint32 \<Rightarrow> uint32 \<Rightarrow> bool \<Rightarrow> 'z kfile_scheme \<Rightarrow> (nat \<times> 'z kfile_scheme) res" where
  "swap_pages sel va_on_swap va_on_ram in_swap s =
     and_then (walk_pte (p_pagetable (myproc s)) (scast va_on_ram) s) (\<lambda>pte.
     if ld64 (ram s) pte AND PTE_U = 0 then Panic ''trying to swap a page with a PGE_U bit turned-off''
     else case first_page (\<lambda>pd. pg_va pd = va_on_ram) (p_ram (myproc s)) of
         None \<Rightarrow> Panic ''error when trying to locate a page in RAM''
       | Some ram_arr_index \<Rightarrow>
           let s = set_pte pte (ld64 (ram s) pte AND NOT PTE_V) s;
               s = upd_proc (cur s) (\<lambda>p. p\<lparr>p_ram := (p_ram p)[ram_arr_index := remove_page (p_ram p ! ram_arr_index)]\<rparr>) s
           in and_then (if in_swap
                        then and_then (walk (p_pagetable (myproc s)) (scast va_on_swap) False s) (\<lambda>(pte, s).
                             swapfile_to_ram sel (scast va_on_swap) pte ram_arr_index s)
                        else Ok (case first_page (\<lambda>pd. \<not> pg_used pd) (p_swap (myproc s)) of Some i \<Rightarrow> i | None \<Rightarrow> 0, s))
                       (\<lambda>(swap_arr_index, s).
              let off = word_of_nat (swap_arr_index * 4096) :: uint32
              in case kalloc s of (page, s) \<Rightarrow>
                 if page = 0 then Panic ''kerneltrap''
                 else and_then (walk_pte (p_pagetable (myproc s)) (scast va_on_ram) s) (\<lambda>pte.
                      let s = s\<lparr>ram := memmove (ram s) page (PTE2PA (ld64 (ram s) pte)) (ucast PGSIZE)\<rparr>
                      in and_then (writeToSwapFile (cur s) page off 4096 s) (\<lambda>(r, s).
                         if r = -1 then Panic ''error when trying to write to swapfile''
                         else and_then (kfree page s) (\<lambda>s.
                              let s = upd_proc (cur s) (\<lambda>p. p\<lparr>p_swap := (p_swap p)[swap_arr_index :=
                                        (p_swap p ! swap_arr_index)\<lparr>pg_va := va_on_ram, pg_offset := off, pg_used := True\<rparr>]\<rparr>) s;
                                  s = set_pte pte (ld64 (ram s) pte OR PTE_PG) s
                              in and_then (kfree (PTE2PA (ld64 (ram s) pte)) s) (\<lambda>s. Ok (ram_arr_index, s)))))))"

subsection \<open>Choosing the page to swap out\<close>

text \<open>Whether \<^verbatim>\<open>p->ram[i]\<close> is mapped for the user; pages that are not are passed over.\<close>

definition ram_user :: "nat \<Rightarrow> 'z kprocs_scheme \<Rightarrow> bool res" where
  "ram_user i s =
     and_then (walk_pte (p_pagetable (myproc s)) (scast (pg_va (p_ram (myproc s) ! i))) s) (\<lambda>pte.
     Ok (ld64 (ram s) pte AND PTE_U \<noteq> 0))"

text \<open>
  The three searches keep the best page so far. \<open>better\<close> compares a candidate's key with the
  best one; \<open>first\<close> is C's flag for having none yet.
\<close>

fun best_page :: "('k \<Rightarrow> 'k \<Rightarrow> bool) \<Rightarrow> (page_data \<Rightarrow> 'k) \<Rightarrow> nat list \<Rightarrow> 'k option \<Rightarrow> nat \<Rightarrow> 'z kprocs_scheme \<Rightarrow> nat res" where
  "best_page better key [] best num s = Ok num"
| "best_page better key (i # is) best num s =
     and_then (ram_user i s) (\<lambda>u.
     let k = key (p_ram (myproc s) ! i)
     in if u \<and> (case best of None \<Rightarrow> True | Some b \<Rightarrow> better k b) then best_page better key is (Some k) i s
        else best_page better key is best num s)"

definition get_NFUA_index :: "'z kprocs_scheme \<Rightarrow> nat res" where
  "get_NFUA_index s = best_page (<) pg_age [0..<MAX_PSYC_PAGES] None 0 s"

text \<open>The inner loop of \<^verbatim>\<open>get_LAPA_index\<close> counts the ones of the age.\<close>

definition ones :: "uint32 \<Rightarrow> nat" where
  "ones w = length (filter (\<lambda>k. w AND push_bit k 1 \<noteq> 0) [0..<32])"

definition get_LAPA_index :: "'z kprocs_scheme \<Rightarrow> nat res" where
  "get_LAPA_index s =
     best_page (\<lambda>(c, a) (c', a'). c < c' \<or> c' = c \<and> a < a') (\<lambda>pd. (ones (pg_age pd), pg_age pd)) [0..<MAX_PSYC_PAGES] None 0 s"

text \<open>
  \<^verbatim>\<open>get_SCFIFO_index\<close>: every round that does not find a page clears one accessed bit, so one
  round more than there are pages is enough.
\<close>

primrec scfifo_loop :: "nat \<Rightarrow> 'z kprocs_scheme \<Rightarrow> (nat \<times> 'z kprocs_scheme) res" where
  "scfifo_loop 0 s = Spin"
| "scfifo_loop (Suc fuel) s =
     and_then (best_page (<) pg_fifo_time [0..<MAX_PSYC_PAGES] None 0 s) (\<lambda>page_num.
     and_then (walk_pte (p_pagetable (myproc s)) (scast (pg_va (p_ram (myproc s) ! page_num))) s) (\<lambda>pte.
     if ld64 (ram s) pte AND PTE_A \<noteq> 0
     then scfifo_loop fuel (upd_proc (cur s) (\<lambda>p. p\<lparr>p_ram := (p_ram p)[page_num := (p_ram p ! page_num)\<lparr>pg_fifo_time := p_fifo_counter p\<rparr>],
                                                      p_fifo_counter := p_fifo_counter p + 1\<rparr>)
                             (set_pte pte (ld64 (ram s) pte AND NOT PTE_A) s))
     else Ok (page_num, s)))"

definition get_SCFIFO_index :: "'z kprocs_scheme \<Rightarrow> (nat \<times> 'z kprocs_scheme) res" where
  "get_SCFIFO_index s = scfifo_loop (Suc MAX_PSYC_PAGES) s"

definition exchange_pages :: "selection \<Rightarrow> uint64 \<Rightarrow> bool \<Rightarrow> 'z kfile_scheme \<Rightarrow> (nat \<times> 'z kfile_scheme) res" where
  "exchange_pages sel va_on_swap in_swap s =
     and_then (case sel of
         NONE \<Rightarrow> Ok (0, s)
       | NFUA \<Rightarrow> and_then (get_NFUA_index s) (\<lambda>i. Ok (i, s))
       | LAPA \<Rightarrow> and_then (get_LAPA_index s) (\<lambda>i. Ok (i, s))
       | SCFIFO \<Rightarrow> get_SCFIFO_index s) (\<lambda>(ram_arr_index, s).
     swap_pages sel (ucast va_on_swap) (pg_va (p_ram (myproc s) ! ram_arr_index)) in_swap s)"

definition swap :: "selection \<Rightarrow> uint64 \<Rightarrow> addr \<Rightarrow> 'z kfile_scheme \<Rightarrow> 'z kfile_scheme res" where
  "swap sel va pte s =
     and_then (count_pages_print (p_ram (myproc s)) s) (\<lambda>(n, s).
     if n < MAX_PSYC_PAGES
     then case first_page (\<lambda>pd. \<not> pg_used pd) (p_ram (myproc s)) of
         None \<Rightarrow> Panic ''error: too many pages in RAM''
       | Some i \<Rightarrow> and_then (swapfile_to_ram sel va pte i s) (\<lambda>(_, s). Ok s)
     else and_then (exchange_pages sel va True s) (\<lambda>(_, s). Ok s))"

definition update_age_page :: "nat \<Rightarrow> 'z kprocs_scheme \<Rightarrow> 'z kprocs_scheme res" where
  "update_age_page i s =
     (let pd = p_ram (myproc s) ! i
      in if \<not> pg_used pd then Ok s
         else and_then (walk_pte (p_pagetable (myproc s)) (scast (pg_va pd)) s) (\<lambda>pte.
              let e = ld64 (ram s) pte
              in if e AND PTE_U = 0 then Ok s
                 else let age = drop_bit 1 (pg_age pd);
                          age = if e AND PTE_A \<noteq> 0 then age OR push_bit 31 1 else age;
                          s = if e AND PTE_A \<noteq> 0 then set_pte pte (e AND NOT PTE_A) s else s
                      in Ok (upd_proc (cur s) (\<lambda>p. p\<lparr>p_ram := (p_ram p)[i := (p_ram p ! i)\<lparr>pg_age := age\<rparr>]\<rparr>) s)))"

definition update_age :: "'z kprocs_scheme \<Rightarrow> 'z kprocs_scheme res" where
  "update_age s = loop_res update_age_page [0..<MAX_PSYC_PAGES] s"

section \<open>Growing and copying\<close>

definition uvminit :: "selection \<Rightarrow> addr \<Rightarrow> uchar list \<Rightarrow> 'z kmem_scheme \<Rightarrow> 'z kmem_scheme res" where
  "uvminit sel pagetable src s =
     (if word_of_nat (length src) \<ge> PGSIZE then Panic ''inituvm: more than a page''
      else case kalloc s of (mem, s) \<Rightarrow>
        and_then (mappages sel pagetable 0 PGSIZE mem (PTE_W OR PTE_R OR PTE_X OR PTE_U)
                    (s\<lparr>ram := memset (ram s) mem 0 (ucast PGSIZE)\<rparr>)) (\<lambda>(_, s).
        Ok (s\<lparr>ram := store_bytes (ram s) mem src\<rparr>)))"

text \<open>Whether the process keeps records of its pages: init and the shell, the first two, do not.\<close>

definition tracks :: "selection \<Rightarrow> 'z kprocs_scheme \<Rightarrow> bool" where
  "tracks sel s \<longleftrightarrow> sel \<noteq> NONE \<and> p_pid (myproc s) > 2"

text \<open>The place in \<^verbatim>\<open>p->ram\<close> for a page that \<^verbatim>\<open>uvmalloc\<close> adds.\<close>

definition uvmalloc_slot :: "selection \<Rightarrow> addr \<Rightarrow> uint64 \<Rightarrow> 'z kfile_scheme \<Rightarrow> (nat \<times> 'z kfile_scheme) res" where
  "uvmalloc_slot sel pagetable a s =
     (if \<not> tracks sel s then Ok (0, s)
      else if \<not> a div PGSIZE < word_of_nat MAX_TOTAL_PAGES then Panic ''process cannot be larger than 32 pages''
      else if p_pagetable (myproc s) \<noteq> pagetable then Ok (0, s)
      else and_then (count_pages_print (p_ram (myproc s)) s) (\<lambda>(n, s).
           if n < MAX_PSYC_PAGES
           then Ok (case first_page (\<lambda>pd. \<not> pg_used pd) (p_ram (myproc s)) of Some i \<Rightarrow> i | None \<Rightarrow> 0, s)
           else exchange_pages sel a False s))"

definition uvmalloc_enter :: "selection \<Rightarrow> addr \<Rightarrow> uint64 \<Rightarrow> nat \<Rightarrow> 'z kfile_scheme \<Rightarrow> 'z kfile_scheme res" where
  "uvmalloc_enter sel pagetable a slt s =
     (if tracks sel s \<and> p_pagetable (myproc s) = pagetable
      then let s = upd_proc (cur s) (enter_ram sel slt a) s
           in and_then (walk_pte (p_pagetable (myproc s)) a s) (\<lambda>pte.
              let s = set_pte pte (ld64 (ram s) pte OR PTE_V) s
              in if sel = SCFIFO \<and> first_page (\<lambda>pd. scast (pg_va pd) = a) (p_ram (myproc s)) = None
                 then Panic ''couldn't find page in RAM'' else Ok s)
      else Ok s)"

fun uvmalloc_loop :: "selection \<Rightarrow> addr \<Rightarrow> uint64 \<Rightarrow> uint64 list \<Rightarrow> 'z kfile_scheme \<Rightarrow> (bool \<times> 'z kfile_scheme) res" where
  "uvmalloc_loop sel pagetable oldsz [] s = Ok (True, s)"
| "uvmalloc_loop sel pagetable oldsz (a # as) s =
     and_then (uvmalloc_slot sel pagetable a s) (\<lambda>(slt, s).
     case kalloc s of (mem, s) \<Rightarrow>
       if mem = 0 then and_then (uvmdealloc sel pagetable a oldsz s) (\<lambda>(_, s). Ok (False, s))
       else and_then (mappages sel pagetable a PGSIZE mem PTE_user (s\<lparr>ram := memset (ram s) mem 0 (ucast PGSIZE)\<rparr>)) (\<lambda>(r, s).
            if r \<noteq> 0
            then and_then (kfree mem s) (\<lambda>s. and_then (uvmdealloc sel pagetable a oldsz s) (\<lambda>(_, s). Ok (False, s)))
            else and_then (uvmalloc_enter sel pagetable a slt s) (\<lambda>s.
                 uvmalloc_loop sel pagetable oldsz as s)))"

definition uvmalloc :: "selection \<Rightarrow> addr \<Rightarrow> uint64 \<Rightarrow> uint64 \<Rightarrow> 'z kfile_scheme \<Rightarrow> (uint64 \<times> 'z kfile_scheme) res" where
  "uvmalloc sel pagetable oldsz newsz s =
     (if newsz < oldsz then Ok (oldsz, s)
      else let oldsz = PGROUNDUP oldsz
           in and_then (uvmalloc_loop sel pagetable oldsz (page_range oldsz newsz) s) (\<lambda>(ok, s).
              Ok (if ok then newsz else 0, s)))"

text \<open>\<^verbatim>\<open>lazy_alloc\<close> returns a C int, so its result is cut to 32 bits.\<close>

fun lazy_alloc_loop :: "addr \<Rightarrow> uint64 list \<Rightarrow> 'z kmem_scheme \<Rightarrow> (bool \<times> 'z kmem_scheme) res" where
  "lazy_alloc_loop pagetable [] s = Ok (True, s)"
| "lazy_alloc_loop pagetable (a # as) s =
     and_then (walk pagetable a True s) (\<lambda>(pte, s).
     if pte = 0 then Ok (False, s)
     else lazy_alloc_loop pagetable as (set_pte pte (ld64 (ram s) pte OR PTE_V) s))"

definition lazy_alloc :: "addr \<Rightarrow> uint64 \<Rightarrow> uint64 \<Rightarrow> 'z kmem_scheme \<Rightarrow> (uint32 \<times> 'z kmem_scheme) res" where
  "lazy_alloc pagetable oldsz newsz s =
     (if newsz < oldsz then Ok (ucast oldsz, s)
      else and_then (lazy_alloc_loop pagetable (page_range (PGROUNDUP oldsz) newsz) s) (\<lambda>(ok, s).
           Ok (if ok then ucast newsz else 0, s)))"

fun uvmcopy_loop :: "selection \<Rightarrow> addr \<Rightarrow> addr \<Rightarrow> uint64 list \<Rightarrow> 'z kprocs_scheme \<Rightarrow> (int \<times> 'z kprocs_scheme) res" where
  "uvmcopy_loop sel old new [] s = Ok (0, s)"
| "uvmcopy_loop sel old new (i # is) s =
     and_then (walk old i False s) (\<lambda>(pte, s).
     if pte = 0 then Panic ''uvmcopy: pte should exist''
     else let e = ld64 (ram s) pte
          in if tracks sel s \<and> e AND PTE_PG \<noteq> 0
             then and_then (walk new i False s) (\<lambda>(new_pte, s).
                  if new_pte = 0 then Ok (-1, s)
                  else uvmcopy_loop sel old new is (set_pte new_pte (PTE_FLAGS e) s))
             else if e AND PTE_V = 0 then Panic ''uvmcopy: page not present''
             else and_then (if sel = NONE then walkaddr (p_pagetable (myproc s)) i s else Ok 1) (\<lambda>w.
                  if w = 0
                  then and_then (walk new i True s) (\<lambda>(new_pte, s).
                       if new_pte = 0 then Ok (-1, s)
                       else uvmcopy_loop sel old new is (set_pte new_pte (PTE_FLAGS e) s))
                  else case kalloc s of (mem, s) \<Rightarrow>
                    if mem = 0 then and_then (uvmunmap sel new 0 (i div PGSIZE) True s) (\<lambda>s. Ok (-1, s))
                    else let s = s\<lparr>ram := memmove (ram s) mem (PTE2PA e) (ucast PGSIZE)\<rparr>
                         in and_then (mappages sel new i PGSIZE mem (PTE_FLAGS e) s) (\<lambda>(r, s).
                            if r \<noteq> 0
                            then and_then (kfree mem s) (\<lambda>s.
                                 and_then (uvmunmap sel new 0 (i div PGSIZE) True s) (\<lambda>s. Ok (-1, s)))
                            else uvmcopy_loop sel old new is s)))"

definition uvmcopy :: "selection \<Rightarrow> addr \<Rightarrow> addr \<Rightarrow> uint64 \<Rightarrow> 'z kprocs_scheme \<Rightarrow> (int \<times> 'z kprocs_scheme) res" where
  "uvmcopy sel old new sz s = uvmcopy_loop sel old new (page_range 0 sz) s"

end
