(* ===== verification/Proc.thy ===== *)
theory Proc
  imports Vm
begin

text \<open>
  Processes, \<^verbatim>\<open>kernel/proc.c\<close>: allocating and freeing table entries, page tables of processes,
  \<^verbatim>\<open>fork\<close>, \<^verbatim>\<open>exit\<close>, \<^verbatim>\<open>wait\<close>, growing, and the scheduler. The trapframe is the page at
  \<^verbatim>\<open>p->trapframe\<close>, read and written at the offsets of \<^verbatim>\<open>struct trapframe\<close>. Where the code
  switches to another process the model returns the state at the switch.
\<close>

section \<open>The trapframe\<close>

definition tf_kernel_satp :: uint64 where "tf_kernel_satp = 0"
definition tf_kernel_sp :: uint64 where "tf_kernel_sp = 8"
definition tf_kernel_trap :: uint64 where "tf_kernel_trap = 16"
definition tf_epc :: uint64 where "tf_epc = 24"
definition tf_kernel_hartid :: uint64 where "tf_kernel_hartid = 32"
definition tf_sp :: uint64 where "tf_sp = 48"
definition tf_a :: "nat \<Rightarrow> uint64" where "tf_a n = 112 + 8 * word_of_nat n"

definition trapframe_size :: nat where "trapframe_size = 288"

definition tf_get :: "nat \<Rightarrow> uint64 \<Rightarrow> 'z kprocs_scheme \<Rightarrow> uint64" where
  "tf_get p k s = ld64 (ram s) (p_trapframe (procs s ! p) + k)"

definition tf_set :: "nat \<Rightarrow> uint64 \<Rightarrow> uint64 \<Rightarrow> 'z kprocs_scheme \<Rightarrow> 'z kprocs_scheme" where
  "tf_set p k v s = s\<lparr>ram := st64 (ram s) (p_trapframe (procs s ! p) + k) v\<rparr>"

text \<open>\<^verbatim>\<open>safestrcpy\<close> into an array of \<open>n\<close> bytes given by its contents.\<close>

definition copy_name :: "nat \<Rightarrow> uchar list \<Rightarrow> uchar list \<Rightarrow> uchar list" where
  "copy_name n old src = (let t = take (n - 1) (takeWhile (\<lambda>c. c \<noteq> 0) src) in t @ [0] @ drop (length t + 1) old)"

section \<open>Table entries and page tables\<close>

definition procinit :: "'z kprocs_scheme \<Rightarrow> 'z kprocs_scheme" where
  "procinit s = fold (\<lambda>i. upd_proc i (\<lambda>p. p\<lparr>p_kstack := KSTACK (word_of_nat i)\<rparr>)) [0..<NPROC] s"

definition allocpid :: "'z kprocs_scheme \<Rightarrow> int \<times> 'z kprocs_scheme" where
  "allocpid s = (nextpid s, s\<lparr>nextpid := nextpid s + 1\<rparr>)"

definition proc_pagetable :: "selection \<Rightarrow> nat \<Rightarrow> 'z kprocs_scheme \<Rightarrow> (addr \<times> 'z kprocs_scheme) res" where
  "proc_pagetable sel p s =
     (case uvmcreate s of (pt, s) \<Rightarrow>
        if pt = 0 then Ok (0, s)
        else and_then (mappages sel pt TRAMPOLINE PGSIZE (ktrampoline s) (PTE_R OR PTE_X) s) (\<lambda>(r, s).
             if r < 0 then and_then (uvmfree sel pt 0 s) (\<lambda>s. Ok (0, s))
             else and_then (mappages sel pt TRAPFRAME PGSIZE (p_trapframe (procs s ! p)) (PTE_R OR PTE_W) s) (\<lambda>(r, s).
                  if r < 0
                  then and_then (uvmunmap sel pt TRAMPOLINE 1 False s) (\<lambda>s.
                       and_then (uvmfree sel pt 0 s) (\<lambda>s. Ok (0, s)))
                  else Ok (pt, s))))"

definition proc_freepagetable :: "selection \<Rightarrow> addr \<Rightarrow> uint64 \<Rightarrow> 'z kprocs_scheme \<Rightarrow> 'z kprocs_scheme res" where
  "proc_freepagetable sel pt sz s =
     and_then (uvmunmap sel pt TRAMPOLINE 1 False s) (\<lambda>s.
     and_then (uvmunmap sel pt TRAPFRAME 1 False s) (\<lambda>s.
     uvmfree sel pt sz s))"

definition remove_all_pages :: "kproc \<Rightarrow> kproc" where
  "remove_all_pages p = p\<lparr>p_ram := map remove_page (p_ram p), p_swap := map remove_page (p_swap p)\<rparr>"

definition freeproc :: "selection \<Rightarrow> nat \<Rightarrow> 'z kprocs_scheme \<Rightarrow> 'z kprocs_scheme res" where
  "freeproc sel p s =
     and_then (if p_trapframe (procs s ! p) \<noteq> 0 then kfree (p_trapframe (procs s ! p)) s else Ok s) (\<lambda>s.
     let s = upd_proc p (\<lambda>x. x\<lparr>p_trapframe := 0\<rparr>) s
     in and_then (if p_pagetable (procs s ! p) \<noteq> 0
                  then proc_freepagetable sel (p_pagetable (procs s ! p)) (p_sz (procs s ! p)) s else Ok s) (\<lambda>s.
        let s = if sel \<noteq> NONE \<and> p_pid (procs s ! p) > 2 then upd_proc p remove_all_pages s else s;
            s = if sel \<noteq> NONE then upd_proc p (\<lambda>x. x\<lparr>p_fifo_counter := 0\<rparr>) s else s
        in Ok (upd_proc p (\<lambda>x. x\<lparr>p_pagetable := 0, p_sz := 0, p_pid := 0, p_parent := None, p_name := (p_name x)[0 := 0],
                                 p_chan := None, p_killed := False, p_xstate := 0, p_state := UNUSED\<rparr>) s)))"

definition allocproc :: "selection \<Rightarrow> 'z kfile_scheme \<Rightarrow> (nat option \<times> 'z kfile_scheme) res" where
  "allocproc sel s =
     (case find (\<lambda>i. p_state (procs s ! i) = UNUSED) [0..<NPROC] of
        None \<Rightarrow> Ok (None, s)
      | Some p \<Rightarrow>
          (case allocpid s of (pid, s) \<Rightarrow>
             let s = upd_proc p (\<lambda>x. x\<lparr>p_pid := pid, p_state := USED\<rparr>) s
             in and_then (if sel \<noteq> NONE \<and> pid > 2 then and_then (createSwapFile p s) (\<lambda>(_, s). Ok s) else Ok s) (\<lambda>s.
                case kalloc s of (tf, s) \<Rightarrow>
                  let s = upd_proc p (\<lambda>x. x\<lparr>p_trapframe := tf\<rparr>) s
                  in if tf = 0 then and_then (freeproc sel p s) (\<lambda>s. Ok (None, s))
                     else and_then (proc_pagetable sel p s) (\<lambda>(pt, s).
                          let s = upd_proc p (\<lambda>x. x\<lparr>p_pagetable := pt\<rparr>) s
                          in if pt = 0 then and_then (freeproc sel p s) (\<lambda>s. Ok (None, s))
                             else Ok (Some p, upd_proc p (\<lambda>x. x\<lparr>p_context :=
                                    \<lparr>ctx_ra = kforkret s, ctx_sp = p_kstack x + PGSIZE, ctx_s = replicate 12 0\<rparr>\<rparr>) s)))))"

definition initcode :: "uchar list" where
  "initcode =
    [0x17, 0x05, 0x00, 0x00, 0x13, 0x05, 0x45, 0x02,
     0x97, 0x05, 0x00, 0x00, 0x93, 0x85, 0x35, 0x02,
     0x93, 0x08, 0x70, 0x00, 0x73, 0x00, 0x00, 0x00,
     0x93, 0x08, 0x20, 0x00, 0x73, 0x00, 0x00, 0x00,
     0xef, 0xf0, 0x9f, 0xff, 0x2f, 0x69, 0x6e, 0x69,
     0x74, 0x00, 0x00, 0x24, 0x00, 0x00, 0x00, 0x00,
     0x00, 0x00, 0x00, 0x00]"

text \<open>\<^verbatim>\<open>userinit\<close> does not expect \<^verbatim>\<open>allocproc\<close> to fail: a null process faults in the kernel.\<close>

definition userinit :: "selection \<Rightarrow> 'z kfile_scheme \<Rightarrow> 'z kfile_scheme res" where
  "userinit sel s =
     and_then (allocproc sel s) (\<lambda>(r, s).
     case r of
       None \<Rightarrow> Panic ''kerneltrap''
     | Some p \<Rightarrow>
         let s = s\<lparr>initproc := Some p\<rparr>
         in and_then (uvminit sel (p_pagetable (procs s ! p)) initcode s) (\<lambda>s.
            let s = upd_proc p (\<lambda>x. x\<lparr>p_sz := PGSIZE\<rparr>) s;
                s = tf_set p tf_epc 0 s;
                s = tf_set p tf_sp PGSIZE s;
                s = upd_proc p (\<lambda>x. x\<lparr>p_name := copy_name 16 (p_name x) (map (\<lambda>c. word_of_nat (of_char c)) ''initcode'')\<rparr>) s
            in and_then (namei [slash] s) (\<lambda>(cwd, s).
               Ok (upd_proc p (\<lambda>x. x\<lparr>p_cwd := cwd, p_state := RUNNABLE\<rparr>) s))))"

section \<open>Growing\<close>

text \<open>Sizes pass through an unsigned int, and \<^verbatim>\<open>sz + n\<close> is computed in it.\<close>

definition lazy_growproc :: "selection \<Rightarrow> uint32 \<Rightarrow> 'z kfile_scheme \<Rightarrow> (int \<times> 'z kfile_scheme) res" where
  "lazy_growproc sel n s =
     (let p = myproc s; sz = (ucast (p_sz p) :: uint32)
      in if sint n > 0
         then and_then (lazy_alloc (p_pagetable p) (ucast sz) (ucast (sz + n)) s) (\<lambda>(r, s).
              if r = 0 then Ok (-1, s) else Ok (0, upd_proc (cur s) (\<lambda>x. x\<lparr>p_sz := ucast r\<rparr>) s))
         else if sint n < 0
         then and_then (uvmdealloc sel (p_pagetable p) (ucast sz) (ucast (sz + n)) s) (\<lambda>(r, s).
              Ok (0, upd_proc (cur s) (\<lambda>x. x\<lparr>p_sz := ucast (ucast r :: uint32)\<rparr>) s))
         else Ok (0, upd_proc (cur s) (\<lambda>x. x\<lparr>p_sz := ucast sz\<rparr>) s))"

definition growproc :: "selection \<Rightarrow> uint32 \<Rightarrow> 'z kfile_scheme \<Rightarrow> (int \<times> 'z kfile_scheme) res" where
  "growproc sel n s =
     (if sel = NONE then lazy_growproc sel n s
      else let p = myproc s; sz = (ucast (p_sz p) :: uint32)
           in if sint n > 0
              then and_then (uvmalloc sel (p_pagetable p) (ucast sz) (ucast (sz + n)) s) (\<lambda>(r, s).
                   let r = (ucast r :: uint32)
                   in if r = 0 then Ok (-1, s) else Ok (0, upd_proc (cur s) (\<lambda>x. x\<lparr>p_sz := ucast r\<rparr>) s))
              else if sint n < 0
              then and_then (uvmdealloc sel (p_pagetable p) (ucast sz) (ucast (sz + n)) s) (\<lambda>(r, s).
                   Ok (0, upd_proc (cur s) (\<lambda>x. x\<lparr>p_sz := ucast (ucast r :: uint32)\<rparr>) s))
              else Ok (0, upd_proc (cur s) (\<lambda>x. x\<lparr>p_sz := ucast sz\<rparr>) s))"

section \<open>fork\<close>

definition dup_ofile :: "nat \<Rightarrow> nat \<Rightarrow> nat \<Rightarrow> 'z kfile_scheme \<Rightarrow> 'z kfile_scheme res" where
  "dup_ofile p np i s =
     (case p_ofile (procs s ! p) ! i of
        None \<Rightarrow> Ok s
      | Some f \<Rightarrow> and_then (filedup f s) (\<lambda>s. Ok (upd_proc np (\<lambda>x. x\<lparr>p_ofile := (p_ofile x)[i := Some f]\<rparr>) s)))"

definition copy_swap_page :: "nat \<Rightarrow> nat \<Rightarrow> nat \<Rightarrow> 'z kfile_scheme \<Rightarrow> 'z kfile_scheme res" where
  "copy_swap_page p np i s =
     (case kalloc s of (page, s) \<Rightarrow>
        if page = 0 then Panic ''kerneltrap''
        else and_then (readFromSwapFile p page (word_of_nat (i * 4096)) 4096 s) (\<lambda>(r, s).
             if r = -1 then Panic ''failed to read from swapfile''
             else and_then (writeToSwapFile np page (word_of_nat (i * 4096)) 4096 s) (\<lambda>(r, s).
                  if r = -1 then Panic ''failed to write to swapfile'' else kfree page s)))"

definition fork :: "selection \<Rightarrow> 'z kfile_scheme \<Rightarrow> (int \<times> 'z kfile_scheme) res" where
  "fork sel s =
     and_then (allocproc sel s) (\<lambda>(r, s).
     case r of
       None \<Rightarrow> Ok (-1, s)
     | Some np \<Rightarrow>
         let p = cur s
         in and_then (uvmcopy sel (p_pagetable (procs s ! p)) (p_pagetable (procs s ! np)) (p_sz (procs s ! p)) s) (\<lambda>(r, s).
            if r < 0 then and_then (freeproc sel np s) (\<lambda>s. Ok (-1, s))
            else let s = upd_proc np (\<lambda>x. x\<lparr>p_sz := p_sz (procs s ! p)\<rparr>) s;
                     s = s\<lparr>ram := store_bytes (ram s) (p_trapframe (procs s ! np))
                                   (load_bytes (ram s) (p_trapframe (procs s ! p)) trapframe_size)\<rparr>;
                     s = tf_set np (tf_a 0) 0 s
                 in and_then (loop_res (dup_ofile p np) [0..<NOFILE] s) (\<lambda>s.
                    case p_cwd (procs s ! p) of
                      None \<Rightarrow> Panic ''kerneltrap''
                    | Some cwd \<Rightarrow>
                        let s = idup cwd s;
                            s = upd_proc np (\<lambda>x. x\<lparr>p_cwd := Some cwd, p_name := copy_name 16 (p_name x) (p_name (procs s ! p))\<rparr>) s;
                            pid = p_pid (procs s ! np)
                        in and_then (if sel \<noteq> NONE \<and> p_pid (procs s ! p) > 2
                                     then and_then (loop_res (copy_swap_page p np) [0..<count_pages (p_swap (procs s ! p))] s) (\<lambda>s.
                                          Ok (upd_proc np (\<lambda>x. x\<lparr>p_ram := p_ram (procs s ! p), p_swap := p_swap (procs s ! p),
                                                                p_fifo_counter := p_fifo_counter (procs s ! p)\<rparr>) s))
                                     else Ok s) (\<lambda>s.
                           Ok (pid, upd_proc np (\<lambda>x. x\<lparr>p_parent := Some p, p_state := RUNNABLE\<rparr>) s)))))"

section \<open>exit and wait\<close>

definition reparent_one :: "nat \<Rightarrow> nat \<Rightarrow> 'z kprocs_scheme \<Rightarrow> 'z kprocs_scheme" where
  "reparent_one p pp s =
     (if p_parent (procs s ! pp) = Some p
      then let s = upd_proc pp (\<lambda>x. x\<lparr>p_parent := initproc s\<rparr>) s
           in (case initproc s of Some i \<Rightarrow> wakeup (Chan_proc i) s | None \<Rightarrow> s)
      else s)"

definition reparent :: "nat \<Rightarrow> 'z kprocs_scheme \<Rightarrow> 'z kprocs_scheme" where
  "reparent p s = fold (reparent_one p) [0..<NPROC] s"

definition close_ofile :: "nat \<Rightarrow> nat \<Rightarrow> 'z kfile_scheme \<Rightarrow> 'z kfile_scheme res" where
  "close_ofile p fd s =
     (case p_ofile (procs s ! p) ! fd of
        None \<Rightarrow> Ok s
      | Some f \<Rightarrow> and_then (fileclose f s) (\<lambda>s. Ok (upd_proc p (\<lambda>x. x\<lparr>p_ofile := (p_ofile x)[fd := None]\<rparr>) s)))"

text \<open>\<^verbatim>\<open>exit\<close> up to its call of \<^verbatim>\<open>sched\<close>, from which it does not come back.\<close>

definition exit :: "selection \<Rightarrow> uint32 \<Rightarrow> 'z kfile_scheme \<Rightarrow> 'z kfile_scheme res" where
  "exit sel status s =
     (let p = cur s
      in if initproc s = Some p then Panic ''init exiting''
         else and_then (if sel \<noteq> NONE \<and> p_pid (procs s ! p) > 2
                        then and_then (removeSwapFile p s) (\<lambda>(r, s). if r \<noteq> 0 then Panic ''failed to remove swapfile'' else Ok s)
                        else Ok s) (\<lambda>s.
              and_then (loop_res (close_ofile p) [0..<NOFILE] s) (\<lambda>s.
              and_then (begin_op s) (\<lambda>s.
              and_then (case p_cwd (procs s ! p) of Some ip \<Rightarrow> iput ip s | None \<Rightarrow> Panic ''kerneltrap'') (\<lambda>s.
              and_then (end_op s) (\<lambda>s.
              let s = upd_proc p (\<lambda>x. x\<lparr>p_cwd := None\<rparr>) s;
                  s = reparent p s;
                  s = (case p_parent (procs s ! p) of Some q \<Rightarrow> wakeup (Chan_proc q) s | None \<Rightarrow> s)
              in Ok (upd_proc p (\<lambda>x. x\<lparr>p_xstate := status, p_state := ZOMBIE\<rparr>) s)))))))"

text \<open>One scan of \<^verbatim>\<open>wait\<close> over the table, from the entries left to look at.\<close>

fun wait_scan :: "selection \<Rightarrow> uint64 \<Rightarrow> nat list \<Rightarrow> bool \<Rightarrow> 'z kfile_scheme \<Rightarrow> (int \<times> 'z kfile_scheme) res" where
  "wait_scan sel addr [] havekids s =
     (if \<not> havekids \<or> p_killed (myproc s) then Ok (-1, s) else Sleep (Chan_proc (cur s)))"
| "wait_scan sel addr (np # nps) havekids s =
     (if p_parent (procs s ! np) = Some (cur s)
      then if p_state (procs s ! np) = ZOMBIE
           then let pid = p_pid (procs s ! np)
                in and_then (if addr \<noteq> 0 then copyout (p_pagetable (myproc s)) addr (le_bytes 4 (p_xstate (procs s ! np))) s
                             else Ok (0, s)) (\<lambda>(r, s).
                   if r < 0 then Ok (-1, s)
                   else and_then (freeproc sel np s) (\<lambda>s. Ok (pid, s)))
           else wait_scan sel addr nps True s
      else wait_scan sel addr nps havekids s)"

definition wait :: "selection \<Rightarrow> uint64 \<Rightarrow> 'z kfile_scheme \<Rightarrow> (int \<times> 'z kfile_scheme) res" where
  "wait sel addr s = wait_scan sel addr [0..<NPROC] False s"

section \<open>Scheduling\<close>

text \<open>
  One turn of the scheduler's inner loop. \<open>run\<close> stands for what happens between \<^verbatim>\<open>swtch\<close> and the
  switch back. \<^verbatim>\<open>update_age\<close> is called on the scheduler's CPU, whose current process is still the
  one that ran.
\<close>

definition sched_turn ::
  "selection \<Rightarrow> (nat \<Rightarrow> 'z kfile_scheme \<Rightarrow> 'z kfile_scheme res) \<Rightarrow> nat \<Rightarrow> 'z kfile_scheme \<Rightarrow> 'z kfile_scheme res"
where
  "sched_turn sel run p s =
     (if p_state (procs s ! p) = RUNNABLE
      then and_then (run p (upd_proc p (\<lambda>x. x\<lparr>p_state := RUNNING\<rparr>) (s\<lparr>cur := p\<rparr>))) (\<lambda>s.
           if (sel = NFUA \<or> sel = LAPA) \<and> p_pid (procs s ! p) > 2 then update_age s else Ok s)
      else Ok s)"

definition scheduler_pass ::
  "selection \<Rightarrow> (nat \<Rightarrow> 'z kfile_scheme \<Rightarrow> 'z kfile_scheme res) \<Rightarrow> 'z kfile_scheme \<Rightarrow> 'z kfile_scheme res"
where
  "scheduler_pass sel run s = loop_res (sched_turn sel run) [0..<NPROC] s"

text \<open>\<^verbatim>\<open>yield\<close> up to its call of \<^verbatim>\<open>sched\<close>.\<close>

definition yield :: "'z kprocs_scheme \<Rightarrow> 'z kprocs_scheme" where
  "yield s = upd_proc (cur s) (\<lambda>x. x\<lparr>p_state := RUNNABLE\<rparr>) s"

text \<open>\<^verbatim>\<open>forkret\<close> before it returns to user space; \<open>first\<close> is its static flag.\<close>

definition forkret :: "bool \<Rightarrow> 'z kfs_scheme \<Rightarrow> (bool \<times> 'z kfs_scheme) res" where
  "forkret first s = (if first then and_then (fsinit ROOTDEV s) (\<lambda>s. Ok (False, s)) else Ok (first, s))"

end
