(* ===== verification/Exec.thy ===== *)
theory Exec
  imports Proc
begin

text \<open>
  \<^verbatim>\<open>exec\<close> and \<^verbatim>\<open>loadseg\<close> of \<^verbatim>\<open>kernel/exec.c\<close>, with the ELF headers of \<^verbatim>\<open>kernel/elf.h\<close> as fields of the
  bytes read from the file. The argument strings are given by their bytes before the
  terminator.
\<close>

section \<open>ELF headers\<close>

definition le_word :: "nat \<Rightarrow> uchar list \<Rightarrow> nat \<Rightarrow> 'a :: len word" where
  "le_word n bs k = foldr (\<lambda>b w. ucast b OR push_bit 8 w) (take n (drop k bs)) 0"

definition ELF_MAGIC :: uint32 where "ELF_MAGIC = 0x464C457F"
definition ELF_PROG_LOAD :: uint32 where "ELF_PROG_LOAD = 1"
definition MAXARG :: nat where "MAXARG = 32"

record elfhdr =
  elf_magic :: uint32
  elf_entry :: uint64
  elf_phoff :: uint64
  elf_phnum :: ushort

definition get_elfhdr :: "uchar list \<Rightarrow> elfhdr" where
  "get_elfhdr bs = \<lparr>elf_magic = le_word 4 bs 0, elf_entry = le_word 8 bs 24, elf_phoff = le_word 8 bs 32, elf_phnum = le_word 2 bs 56\<rparr>"

record proghdr =
  ph_type :: uint32
  ph_off :: uint64
  ph_vaddr :: uint64
  ph_filesz :: uint64
  ph_memsz :: uint64

definition get_proghdr :: "uchar list \<Rightarrow> proghdr" where
  "get_proghdr bs = \<lparr>ph_type = le_word 4 bs 0, ph_off = le_word 8 bs 8, ph_vaddr = le_word 8 bs 16,
     ph_filesz = le_word 8 bs 32, ph_memsz = le_word 8 bs 40\<rparr>"

section \<open>Loading\<close>

fun loadseg_loop :: "addr \<Rightarrow> uint64 \<Rightarrow> nat \<Rightarrow> uint32 \<Rightarrow> uint32 \<Rightarrow> nat list \<Rightarrow> 'z kfile_scheme \<Rightarrow> (int \<times> 'z kfile_scheme) res" where
  "loadseg_loop pt va ip offset sz [] s = Ok (0, s)"
| "loadseg_loop pt va ip offset sz (i # is) s =
     and_then (walkaddr pt (va + word_of_nat i) s) (\<lambda>pa.
     if pa = 0 then Panic ''loadseg: address should exist''
     else let n = if sz - word_of_nat i < 4096 then sz - word_of_nat i else 4096
          in and_then (readi ip (Kernel pa) (offset + word_of_nat i) n s) (\<lambda>(r, _, s).
             if r \<noteq> int (unat n) then Ok (-1, s) else loadseg_loop pt va ip offset sz is s))"

definition loadseg :: "addr \<Rightarrow> uint64 \<Rightarrow> nat \<Rightarrow> uint32 \<Rightarrow> uint32 \<Rightarrow> 'z kfile_scheme \<Rightarrow> (int \<times> 'z kfile_scheme) res" where
  "loadseg pt va ip offset sz s =
     (if va mod PGSIZE \<noteq> 0 then Panic ''loadseg: va must be page aligned''
      else loadseg_loop pt va ip offset sz (map (\<lambda>k. 4096 * k) [0..<(unat sz + 4095) div 4096]) s)"

text \<open>
  The loop of \<^verbatim>\<open>exec\<close> over the program headers, with \<open>n\<close> headers to go: whether it got through,
  and the size of the image so far, which the error path needs as well.
\<close>

primrec exec_load ::
  "nat \<Rightarrow> selection \<Rightarrow> addr \<Rightarrow> nat \<Rightarrow> uint32 \<Rightarrow> uint64 \<Rightarrow> 'z kfile_scheme \<Rightarrow> (bool \<times> uint64 \<times> 'z kfile_scheme) res"
where
  "exec_load 0 sel pt ip off sz s = Ok (True, sz, s)"
| "exec_load (Suc n) sel pt ip off sz s =
     and_then (readi ip (Local []) off 56 s) (\<lambda>(r, bs, s).
     if r \<noteq> 56 then Ok (False, sz, s)
     else let ph = get_proghdr bs
          in if ph_type ph \<noteq> ELF_PROG_LOAD then exec_load n sel pt ip (off + 56) sz s
             else if ph_memsz ph < ph_filesz ph \<or> ph_vaddr ph + ph_memsz ph < ph_vaddr ph then Ok (False, sz, s)
             else and_then (uvmalloc sel pt sz (ph_vaddr ph + ph_memsz ph) s) (\<lambda>(sz1, s).
                  if sz1 = 0 then Ok (False, sz, s)
                  else if ph_vaddr ph mod PGSIZE \<noteq> 0 then Ok (False, sz1, s)
                  else and_then (loadseg pt (ph_vaddr ph) ip (ucast (ph_off ph)) (ucast (ph_filesz ph)) s) (\<lambda>(r, s).
                       if r < 0 then Ok (False, sz1, s) else exec_load n sel pt ip (off + 56) sz1 s)))"

text \<open>
  Pushing the argument strings: whether it got through, the stack pointer, and the pointers.
\<close>

fun exec_args :: "addr \<Rightarrow> uint64 \<Rightarrow> uchar list list \<Rightarrow> uint64 \<Rightarrow> uint64 list \<Rightarrow> 'z kfile_scheme \<Rightarrow> (bool \<times> uint64 \<times> uint64 list \<times> 'z kfile_scheme) res" where
  "exec_args pt stackbase [] sp ustack s = Ok (True, sp, ustack @ [0], s)"
| "exec_args pt stackbase (arg # args) sp ustack s =
     (if length ustack \<ge> MAXARG then Ok (False, sp, ustack, s)
      else let sp = sp - (word_of_nat (length arg) + 1);
               sp = sp - sp mod 16
           in if sp < stackbase then Ok (False, sp, ustack, s)
              else and_then (copyout pt sp (arg @ [0]) s) (\<lambda>(r, s).
                   if r < 0 then Ok (False, sp, ustack, s)
                   else exec_args pt stackbase args sp (ustack @ [sp]) s))"

text \<open>
  The page record that \<^verbatim>\<open>&p->ram[i]\<close> designates: in \<^verbatim>\<open>struct proc\<close> the array \<^verbatim>\<open>swap\<close> follows \<^verbatim>\<open>ram\<close>, so
  an index past the end of \<^verbatim>\<open>ram\<close> reaches \<^verbatim>\<open>swap\<close>.
\<close>

definition upd_ram_or_swap :: "nat \<Rightarrow> (page_data \<Rightarrow> page_data) \<Rightarrow> kproc \<Rightarrow> kproc" where
  "upd_ram_or_swap i f p =
     (if i < MAX_PSYC_PAGES then p\<lparr>p_ram := (p_ram p)[i := f (p_ram p ! i)]\<rparr>
      else p\<lparr>p_swap := (p_swap p)[i - MAX_PSYC_PAGES := f (p_swap p ! (i - MAX_PSYC_PAGES))]\<rparr>)"

definition exec_page :: "selection \<Rightarrow> nat \<Rightarrow> 'z kfile_scheme \<Rightarrow> 'z kfile_scheme res" where
  "exec_page sel i s =
     (let s = upd_proc (cur s) (\<lambda>p.
            let p' = upd_ram_or_swap i (\<lambda>pd. pd\<lparr>pg_va := word_of_nat (i * 4096), pg_used := True, pg_offset := -1,
                       pg_age := (if sel = NFUA then 0 else if sel = LAPA then 0xFFFFFFFF else pg_age pd),
                       pg_fifo_time := (if sel = SCFIFO then p_fifo_counter p else pg_fifo_time pd)\<rparr>) p
            in if sel = SCFIFO then p'\<lparr>p_fifo_counter := p_fifo_counter p + 1\<rparr> else p') s
      in and_then (removeSwapFile (cur s) s) (\<lambda>(r, s).
         if r = -1 then Panic ''failure when trying to remove swapfile''
         else and_then (createSwapFile (cur s) s) (\<lambda>(r, s).
              if r = -1 then Panic ''failure when trying to create swapfile'' else Ok s)))"

text \<open>The last element of a path.\<close>

definition last_elem :: "uchar list \<Rightarrow> uchar list" where
  "last_elem pn = rev (takeWhile (\<lambda>c. c \<noteq> slash) (rev pn))"

definition exec_bad :: "selection \<Rightarrow> addr \<Rightarrow> uint64 \<Rightarrow> nat option \<Rightarrow> 'z kfile_scheme \<Rightarrow> (int \<times> 'z kfile_scheme) res" where
  "exec_bad sel pt sz ip s =
     and_then (if pt \<noteq> 0 then proc_freepagetable sel pt sz s else Ok s) (\<lambda>s.
     case ip of
       Some i \<Rightarrow> and_then (iunlockput i s) (\<lambda>s. and_then (end_op s) (\<lambda>s. Ok (-1, s)))
     | None \<Rightarrow> Ok (-1, s))"

text \<open>The second half of \<^verbatim>\<open>exec\<close>: the stack, the page records, and the switch to the new image.\<close>

definition exec_commit ::
  "selection \<Rightarrow> addr \<Rightarrow> uint64 \<Rightarrow> uint64 \<Rightarrow> uint64 \<Rightarrow> uchar list \<Rightarrow> uint64 \<Rightarrow> nat \<Rightarrow> 'z kfile_scheme \<Rightarrow> (int \<times> 'z kfile_scheme) res"
where
  "exec_commit sel pt sz oldsz entry pn sp argc s =
     and_then (if tracks sel s
               then loop_res (exec_page sel) [0..<(unat sz + 4095) div 4096] (upd_proc (cur s) remove_all_pages s)
               else Ok s) (\<lambda>s.
     let s = tf_set (cur s) (tf_a 1) sp s;
         s = upd_proc (cur s) (\<lambda>p. p\<lparr>p_name := copy_name 16 (p_name p) (last_elem pn)\<rparr>) s;
         oldpt = p_pagetable (myproc s);
         s = upd_proc (cur s) (\<lambda>p. p\<lparr>p_pagetable := pt, p_sz := sz\<rparr>) s;
         s = tf_set (cur s) tf_epc entry s;
         s = tf_set (cur s) tf_sp sp s
     in and_then (proc_freepagetable sel oldpt oldsz s) (\<lambda>s. Ok (int argc, s)))"

definition exec_stack ::
  "selection \<Rightarrow> addr \<Rightarrow> uint64 \<Rightarrow> uint64 \<Rightarrow> uchar list \<Rightarrow> uchar list list \<Rightarrow> 'z kfile_scheme \<Rightarrow> (int \<times> 'z kfile_scheme) res"
where
  "exec_stack sel pt sz0 entry pn argv s =
     (let oldsz = p_sz (myproc s); sz = PGROUNDUP sz0
      in and_then (uvmalloc sel pt sz (sz + 2 * PGSIZE) s) (\<lambda>(sz1, s).
         if sz1 = 0 then exec_bad sel pt sz None s
         else let sz = sz1
              in and_then (uvmclear pt (sz - 2 * PGSIZE) s) (\<lambda>s.
                 let stackbase = sz - PGSIZE
                 in and_then (exec_args pt stackbase argv sz [] s) (\<lambda>(ok, sp, ustack, s).
                    if \<not> ok then exec_bad sel pt sz None s
                    else let sp = sp - 8 * word_of_nat (length ustack);
                             sp = sp - sp mod 16
                         in if sp < stackbase then exec_bad sel pt sz None s
                            else and_then (copyout pt sp (concat (map (le_bytes 8) ustack)) s) (\<lambda>(r, s).
                                 if r < 0 then exec_bad sel pt sz None s
                                 else exec_commit sel pt sz oldsz entry pn sp (length ustack - 1) s)))))"

definition exec :: "selection \<Rightarrow> uchar list \<Rightarrow> uchar list list \<Rightarrow> 'z kfile_scheme \<Rightarrow> (int \<times> 'z kfile_scheme) res" where
  "exec sel pn argv s =
     and_then (begin_op s) (\<lambda>s.
     and_then (namei pn s) (\<lambda>(r, s).
     case r of
       None \<Rightarrow> and_then (end_op s) (\<lambda>s. Ok (-1, s))
     | Some ip \<Rightarrow>
         and_then (ilock ip s) (\<lambda>s.
         and_then (readi ip (Local []) 0 64 s) (\<lambda>(r, bs, s).
         let elf = get_elfhdr bs
         in if r \<noteq> 64 \<or> elf_magic elf \<noteq> ELF_MAGIC then exec_bad sel 0 0 (Some ip) s
            else and_then (proc_pagetable sel (cur s) s) (\<lambda>(pt, s).
                 if pt = 0 then exec_bad sel 0 0 (Some ip) s
                 else and_then (exec_load (unat (elf_phnum elf)) sel pt ip (ucast (elf_phoff elf)) 0 s) (\<lambda>(ok, sz, s).
                      if \<not> ok then exec_bad sel pt sz (Some ip) s
                      else and_then (iunlockput ip s) (\<lambda>s.
                           and_then (end_op s) (\<lambda>s.
                           exec_stack sel pt sz (elf_entry elf) pn argv s))))))))"

end
