(* ===== verification/Syscall.thy ===== *)
theory Syscall
  imports Exec
begin

text \<open>
  System calls: fetching arguments and dispatch (\<^verbatim>\<open>kernel/syscall.c\<close>) and the calls themselves
  (\<^verbatim>\<open>kernel/sysproc.c\<close>, \<^verbatim>\<open>kernel/sysfile.c\<close>). A call gives the value for register \<^verbatim>\<open>a0\<close>, or \<open>None\<close> when the
  process has exited and does not return. \<^verbatim>\<open>argint\<close> and \<^verbatim>\<open>argaddr\<close> never fail, so the checks of
  their results are dropped.
\<close>

section \<open>State\<close>

text \<open>
  The control registers of the CPU that runs the kernel, the tick counter, the answers of the
  interrupt controller to claims, in order, and the addresses of code that the registers hold.
\<close>

record kcpu = kfile +
  ticks :: uint32
  c_sepc :: uint64
  c_scause :: uint64
  c_stval :: uint64
  c_sstatus :: uint64
  c_stvec :: uint64
  c_sip :: uint64
  c_satp :: uint64
  c_tp :: uint64
  plic_irq :: "nat \<Rightarrow> uint32"
  plic_claims :: nat
  plic_completed :: "uint32 list"
  k_kernelvec :: addr
  k_usertrap :: addr
  k_uservec :: addr
  k_userret :: addr

section \<open>Arguments\<close>

definition fetchaddr :: "uint64 \<Rightarrow> 'z kprocs_scheme \<Rightarrow> uint64 option res" where
  "fetchaddr addr s =
     (if addr \<ge> p_sz (myproc s) \<or> addr + 8 > p_sz (myproc s) then Ok None
      else and_then (copyin (p_pagetable (myproc s)) addr 8 s) (\<lambda>(r, bs).
           Ok (if r \<noteq> 0 then None else Some (le_word 8 bs 0))))"

text \<open>\<^verbatim>\<open>fetchstr\<close> returns the string; its C result is the length of that string.\<close>

definition fetchstr :: "uint64 \<Rightarrow> nat \<Rightarrow> 'z kprocs_scheme \<Rightarrow> uchar list option res" where
  "fetchstr addr mx s =
     and_then (copyinstr (p_pagetable (myproc s)) addr mx s) (\<lambda>(r, bs).
     Ok (if r < 0 then None else Some (takeWhile (\<lambda>c. c \<noteq> 0) bs)))"

definition argraw :: "nat \<Rightarrow> 'z kprocs_scheme \<Rightarrow> uint64 res" where
  "argraw n s = (if n \<le> 5 then Ok (tf_get (cur s) (tf_a n) s) else Panic ''argraw'')"

definition argint :: "nat \<Rightarrow> 'z kprocs_scheme \<Rightarrow> uint32 res" where
  "argint n s = and_then (argraw n s) (\<lambda>v. Ok (ucast v))"

definition argaddr :: "nat \<Rightarrow> 'z kprocs_scheme \<Rightarrow> uint64 res" where
  "argaddr n s = argraw n s"

definition MAXPATH :: nat where "MAXPATH = 128"

definition argstr :: "nat \<Rightarrow> nat \<Rightarrow> 'z kprocs_scheme \<Rightarrow> uchar list option res" where
  "argstr n mx s = and_then (argaddr n s) (\<lambda>addr. fetchstr addr mx s)"

definition argfd :: "nat \<Rightarrow> 'z kprocs_scheme \<Rightarrow> (nat \<times> nat) option res" where
  "argfd n s =
     and_then (argint n s) (\<lambda>fd.
     Ok (if sint fd < 0 \<or> sint fd \<ge> int NOFILE then None
         else map_option (\<lambda>f. (nat (sint fd), f)) (p_ofile (myproc s) ! nat (sint fd))))"

definition fdalloc :: "nat \<Rightarrow> 'z kprocs_scheme \<Rightarrow> nat option \<times> 'z kprocs_scheme" where
  "fdalloc f s =
     (case find (\<lambda>fd. p_ofile (myproc s) ! fd = None) [0..<NOFILE] of
        None \<Rightarrow> (None, s)
      | Some fd \<Rightarrow> (Some fd, upd_proc (cur s) (\<lambda>p. p\<lparr>p_ofile := (p_ofile p)[fd := Some f]\<rparr>) s))"

definition ret :: "int \<Rightarrow> 'z \<Rightarrow> (uint64 option \<times> 'z) res" where
  "ret v s = Ok (Some (word_of_int v), s)"

definition returns :: "(int \<times> 'z) res \<Rightarrow> (uint64 option \<times> 'z) res" where
  "returns r = and_then r (\<lambda>(v, s). ret v s)"

section \<open>Process calls\<close>

definition sys_exit :: "selection \<Rightarrow> 'z kcpu_scheme \<Rightarrow> (uint64 option \<times> 'z kcpu_scheme) res" where
  "sys_exit sel s = and_then (argint 0 s) (\<lambda>n. and_then (exit sel n s) (\<lambda>s. Ok (None, s)))"

definition sys_getpid :: "'z kcpu_scheme \<Rightarrow> (uint64 option \<times> 'z kcpu_scheme) res" where
  "sys_getpid s = ret (p_pid (myproc s)) s"

definition sys_fork :: "selection \<Rightarrow> 'z kcpu_scheme \<Rightarrow> (uint64 option \<times> 'z kcpu_scheme) res" where
  "sys_fork sel s = returns (fork sel s)"

definition sys_wait :: "selection \<Rightarrow> 'z kcpu_scheme \<Rightarrow> (uint64 option \<times> 'z kcpu_scheme) res" where
  "sys_wait sel s = and_then (argaddr 0 s) (\<lambda>p. returns (wait sel p s))"

definition sys_sbrk :: "selection \<Rightarrow> 'z kcpu_scheme \<Rightarrow> (uint64 option \<times> 'z kcpu_scheme) res" where
  "sys_sbrk sel s =
     and_then (argint 0 s) (\<lambda>n.
     let addr = (ucast (p_sz (myproc s)) :: uint32)
     in and_then (growproc sel n s) (\<lambda>(r, s). if r < 0 then ret (-1) s else ret (sint addr) s))"

text \<open>\<^verbatim>\<open>sys_sleep\<close> from the test of its loop on; \<open>ticks0\<close> is the time it was called.\<close>

definition sleep_from :: "uint32 \<Rightarrow> uint32 \<Rightarrow> 'z kcpu_scheme \<Rightarrow> (uint64 option \<times> 'z kcpu_scheme) res" where
  "sleep_from ticks0 n s =
     (if ticks s - ticks0 < n then if p_killed (myproc s) then ret (-1) s else Sleep Chan_ticks else ret 0 s)"

definition sys_sleep :: "'z kcpu_scheme \<Rightarrow> (uint64 option \<times> 'z kcpu_scheme) res" where
  "sys_sleep s = and_then (argint 0 s) (\<lambda>n. sleep_from (ticks s) n s)"

definition sys_kill :: "'z kcpu_scheme \<Rightarrow> (uint64 option \<times> 'z kcpu_scheme) res" where
  "sys_kill s = and_then (argint 0 s) (\<lambda>pid. case kill (sint pid) s of (r, s) \<Rightarrow> ret r s)"

definition sys_uptime :: "'z kcpu_scheme \<Rightarrow> (uint64 option \<times> 'z kcpu_scheme) res" where
  "sys_uptime s = ret (int (unat (ticks s))) s"

section \<open>File calls\<close>

definition sys_dup :: "'z kcpu_scheme \<Rightarrow> (uint64 option \<times> 'z kcpu_scheme) res" where
  "sys_dup s =
     and_then (argfd 0 s) (\<lambda>r.
     case r of
       None \<Rightarrow> ret (-1) s
     | Some (_, f) \<Rightarrow>
         (case fdalloc f s of
            (None, s) \<Rightarrow> ret (-1) s
          | (Some fd, s) \<Rightarrow> and_then (filedup f s) (ret (int fd))))"

definition sys_read :: "'z kcpu_scheme \<Rightarrow> (uint64 option \<times> 'z kcpu_scheme) res" where
  "sys_read s =
     and_then (argfd 0 s) (\<lambda>r.
     case r of
       None \<Rightarrow> ret (-1) s
     | Some (_, f) \<Rightarrow> and_then (argint 2 s) (\<lambda>n. and_then (argaddr 1 s) (\<lambda>p. returns (fileread f p n s))))"

definition sys_write :: "'z kcpu_scheme \<Rightarrow> (uint64 option \<times> 'z kcpu_scheme) res" where
  "sys_write s =
     and_then (argfd 0 s) (\<lambda>r.
     case r of
       None \<Rightarrow> ret (-1) s
     | Some (_, f) \<Rightarrow> and_then (argint 2 s) (\<lambda>n. and_then (argaddr 1 s) (\<lambda>p. returns (filewrite f p n s))))"

definition clear_ofile :: "nat \<Rightarrow> 'z kprocs_scheme \<Rightarrow> 'z kprocs_scheme" where
  "clear_ofile fd s = upd_proc (cur s) (\<lambda>p. p\<lparr>p_ofile := (p_ofile p)[fd := None]\<rparr>) s"

definition sys_close :: "'z kcpu_scheme \<Rightarrow> (uint64 option \<times> 'z kcpu_scheme) res" where
  "sys_close s =
     and_then (argfd 0 s) (\<lambda>r.
     case r of
       None \<Rightarrow> ret (-1) s
     | Some (fd, f) \<Rightarrow> and_then (fileclose f (clear_ofile fd s)) (ret 0))"

definition sys_fstat :: "uchar list \<Rightarrow> 'z kcpu_scheme \<Rightarrow> (uint64 option \<times> 'z kcpu_scheme) res" where
  "sys_fstat pad s =
     and_then (argfd 0 s) (\<lambda>r.
     case r of
       None \<Rightarrow> ret (-1) s
     | Some (_, f) \<Rightarrow> and_then (argaddr 1 s) (\<lambda>a. returns (filestat pad f a s)))"

definition fail_op :: "'z kcpu_scheme \<Rightarrow> (uint64 option \<times> 'z kcpu_scheme) res" where
  "fail_op s = and_then (end_op s) (ret (-1))"

definition link_bad :: "nat \<Rightarrow> 'z kcpu_scheme \<Rightarrow> (uint64 option \<times> 'z kcpu_scheme) res" where
  "link_bad ip s =
     and_then (ilock ip s) (\<lambda>s.
     and_then (iupdate ip (upd_inode ip (\<lambda>x. x\<lparr>i_nlink := i_nlink x - 1\<rparr>) s)) (\<lambda>s.
     and_then (iunlockput ip s) fail_op))"

definition sys_link :: "'z kcpu_scheme \<Rightarrow> (uint64 option \<times> 'z kcpu_scheme) res" where
  "sys_link s =
     and_then (argstr 0 MAXPATH s) (\<lambda>ro. and_then (argstr 1 MAXPATH s) (\<lambda>rn.
     case (ro, rn) of
       (Some old, Some new) \<Rightarrow>
         and_then (begin_op s) (\<lambda>s.
         and_then (namei old s) (\<lambda>(r, s).
         case r of
           None \<Rightarrow> fail_op s
         | Some ip \<Rightarrow>
             and_then (ilock ip s) (\<lambda>s.
             if i_type (itable s ! ip) = T_DIR then and_then (iunlockput ip s) fail_op
             else and_then (iupdate ip (upd_inode ip (\<lambda>x. x\<lparr>i_nlink := i_nlink x + 1\<rparr>) s)) (\<lambda>s.
                  and_then (iunlock ip s) (\<lambda>s.
                  and_then (nameiparent new s) (\<lambda>(r, s).
                  case r of
                    None \<Rightarrow> link_bad ip s
                  | Some (dp, name) \<Rightarrow>
                      and_then (ilock dp s) (\<lambda>s.
                      and_then (if i_dev (itable s ! dp) \<noteq> i_dev (itable s ! ip) then Ok (-1, s)
                                else dirlink dp name (i_inum (itable s ! ip)) s) (\<lambda>(r, s).
                      if r < 0 then and_then (iunlockput dp s) (link_bad ip)
                      else and_then (iunlockput dp s) (\<lambda>s.
                           and_then (iput ip s) (\<lambda>s.
                           and_then (end_op s) (ret 0))))))))))) 
     | _ \<Rightarrow> ret (-1) s))"

definition sys_unlink :: "'z kcpu_scheme \<Rightarrow> (uint64 option \<times> 'z kcpu_scheme) res" where
  "sys_unlink s =
     and_then (argstr 0 MAXPATH s) (\<lambda>r.
     case r of None \<Rightarrow> ret (-1) s | Some pn \<Rightarrow> returns (unlink_path pn s))"

definition O_WRONLY :: uint32 where "O_WRONLY = 1"
definition O_RDWR :: uint32 where "O_RDWR = 2"
definition O_CREATE :: uint32 where "O_CREATE = 0x200"
definition O_TRUNC :: uint32 where "O_TRUNC = 0x400"

text \<open>\<^verbatim>\<open>sys_open\<close> once it has the inode, locked.\<close>

definition open_inode :: "nat \<Rightarrow> uint32 \<Rightarrow> 'z kcpu_scheme \<Rightarrow> (uint64 option \<times> 'z kcpu_scheme) res" where
  "open_inode ip omode s =
     (let i = itable s ! ip
      in if i_type i = T_DEVICE \<and> (sint (i_major i) < 0 \<or> sint (i_major i) \<ge> NDEV) then and_then (iunlockput ip s) fail_op
         else case filealloc s of
             (None, s) \<Rightarrow> and_then (iunlockput ip s) fail_op
           | (Some f, s) \<Rightarrow>
               (case fdalloc f s of
                  (None, s) \<Rightarrow> and_then (fileclose f s) (\<lambda>s. and_then (iunlockput ip s) fail_op)
                | (Some fd, s) \<Rightarrow>
                    let s = upd_file f (\<lambda>x. if i_type i = T_DEVICE then x\<lparr>f_type := FD_DEVICE, f_major := i_major i\<rparr>
                                            else x\<lparr>f_type := FD_INODE, f_off := 0\<rparr>) s;
                        s = upd_file f (\<lambda>x. x\<lparr>f_ip := ip, f_readable := (omode AND O_WRONLY = 0),
                                              f_writable := (omode AND O_WRONLY \<noteq> 0 \<or> omode AND O_RDWR \<noteq> 0)\<rparr>) s
                    in and_then (if omode AND O_TRUNC \<noteq> 0 \<and> i_type i = T_FILE then itrunc ip s else Ok s) (\<lambda>s.
                       and_then (iunlock ip s) (\<lambda>s.
                       and_then (end_op s) (ret (int fd))))))"

definition sys_open :: "'z kcpu_scheme \<Rightarrow> (uint64 option \<times> 'z kcpu_scheme) res" where
  "sys_open s =
     and_then (argstr 0 MAXPATH s) (\<lambda>r.
     case r of
       None \<Rightarrow> ret (-1) s
     | Some pn \<Rightarrow>
         and_then (argint 1 s) (\<lambda>omode.
         and_then (begin_op s) (\<lambda>s.
         if omode AND O_CREATE \<noteq> 0
         then and_then (create pn T_FILE 0 0 s) (\<lambda>(r, s).
              case r of None \<Rightarrow> fail_op s | Some ip \<Rightarrow> open_inode ip omode s)
         else and_then (namei pn s) (\<lambda>(r, s).
              case r of
                None \<Rightarrow> fail_op s
              | Some ip \<Rightarrow>
                  and_then (ilock ip s) (\<lambda>s.
                  if i_type (itable s ! ip) = T_DIR \<and> omode \<noteq> 0 then and_then (iunlockput ip s) fail_op
                  else open_inode ip omode s)))))"

text \<open>The end of \<^verbatim>\<open>sys_mkdir\<close> and \<^verbatim>\<open>sys_mknod\<close>.\<close>

definition put_created :: "nat option \<times> 'z kcpu_scheme \<Rightarrow> (uint64 option \<times> 'z kcpu_scheme) res" where
  "put_created rs = (case rs of (r, s) \<Rightarrow>
     (case r of None \<Rightarrow> fail_op s | Some ip \<Rightarrow> and_then (iunlockput ip s) (\<lambda>s. and_then (end_op s) (ret 0))))"

definition sys_mkdir :: "'z kcpu_scheme \<Rightarrow> (uint64 option \<times> 'z kcpu_scheme) res" where
  "sys_mkdir s =
     and_then (begin_op s) (\<lambda>s.
     and_then (argstr 0 MAXPATH s) (\<lambda>r.
     case r of None \<Rightarrow> fail_op s | Some pn \<Rightarrow> and_then (create pn T_DIR 0 0 s) put_created))"

definition sys_mknod :: "'z kcpu_scheme \<Rightarrow> (uint64 option \<times> 'z kcpu_scheme) res" where
  "sys_mknod s =
     and_then (begin_op s) (\<lambda>s.
     and_then (argstr 0 MAXPATH s) (\<lambda>r.
     case r of
       None \<Rightarrow> fail_op s
     | Some pn \<Rightarrow>
         and_then (argint 1 s) (\<lambda>mj. and_then (argint 2 s) (\<lambda>mn.
         and_then (create pn T_DEVICE (ucast mj) (ucast mn) s) put_created))))"

definition sys_chdir :: "'z kcpu_scheme \<Rightarrow> (uint64 option \<times> 'z kcpu_scheme) res" where
  "sys_chdir s =
     and_then (begin_op s) (\<lambda>s.
     and_then (argstr 0 MAXPATH s) (\<lambda>r.
     case r of
       None \<Rightarrow> fail_op s
     | Some pn \<Rightarrow>
         and_then (namei pn s) (\<lambda>(r, s).
         case r of
           None \<Rightarrow> fail_op s
         | Some ip \<Rightarrow>
             and_then (ilock ip s) (\<lambda>s.
             if i_type (itable s ! ip) \<noteq> T_DIR then and_then (iunlockput ip s) fail_op
             else and_then (iunlock ip s) (\<lambda>s.
                  and_then (case p_cwd (myproc s) of Some d \<Rightarrow> iput d s | None \<Rightarrow> Panic ''kerneltrap'') (\<lambda>s.
                  and_then (end_op s) (\<lambda>s.
                  ret 0 (upd_proc (cur s) (\<lambda>p. p\<lparr>p_cwd := Some ip\<rparr>) s))))))))"

text \<open>
  \<^verbatim>\<open>sys_exec\<close>'s loop over the argument vector, with \<open>n\<close> slots of the kernel's array left; it
  collects the pages it allocates and the strings it copies into them.
\<close>

primrec fetch_argv ::
  "nat \<Rightarrow> uint64 \<Rightarrow> addr list \<Rightarrow> uchar list list \<Rightarrow> 'z kcpu_scheme \<Rightarrow> (bool \<times> addr list \<times> uchar list list \<times> 'z kcpu_scheme) res"
where
  "fetch_argv 0 a pages strs s = Ok (False, pages, strs, s)"
| "fetch_argv (Suc n) a pages strs s =
     and_then (fetchaddr a s) (\<lambda>r.
     case r of
       None \<Rightarrow> Ok (False, pages, strs, s)
     | Some uarg \<Rightarrow>
         if uarg = 0 then Ok (True, pages, strs, s)
         else case kalloc s of (page, s) \<Rightarrow>
           if page = 0 then Ok (False, pages, strs, s)
           else and_then (fetchstr uarg 4096 s) (\<lambda>r.
                case r of
                  None \<Rightarrow> Ok (False, pages @ [page], strs, s)
                | Some str \<Rightarrow> fetch_argv n (a + 8) (pages @ [page]) (strs @ [str])
                                (s\<lparr>ram := store_bytes (ram s) page (str @ [0])\<rparr>)))"

definition sys_exec :: "selection \<Rightarrow> 'z kcpu_scheme \<Rightarrow> (uint64 option \<times> 'z kcpu_scheme) res" where
  "sys_exec sel s =
     and_then (argstr 0 MAXPATH s) (\<lambda>r.
     case r of
       None \<Rightarrow> ret (-1) s
     | Some pn \<Rightarrow>
         and_then (argaddr 1 s) (\<lambda>uargv.
         and_then (fetch_argv MAXARG uargv [] [] s) (\<lambda>(ok, pages, strs, s).
         if ok
         then and_then (exec sel pn strs s) (\<lambda>(v, s). and_then (loop_res kfree pages s) (ret v))
         else and_then (loop_res kfree pages s) (ret (-1)))))"

definition sys_pipe :: "'z kcpu_scheme \<Rightarrow> (uint64 option \<times> 'z kcpu_scheme) res" where
  "sys_pipe s =
     and_then (argaddr 0 s) (\<lambda>fdarray.
     and_then (pipealloc s) (\<lambda>(r, s).
     case r of
       None \<Rightarrow> ret (-1) s
     | Some (fr, fw) \<Rightarrow>
         let close = (\<lambda>s. and_then (fileclose fr s) (\<lambda>s. and_then (fileclose fw s) (ret (-1))))
         in (case fdalloc fr s of
               (None, s) \<Rightarrow> close s
             | (Some fd0, s) \<Rightarrow>
                 (case fdalloc fw s of
                    (None, s) \<Rightarrow> close (clear_ofile fd0 s)
                  | (Some fd1, s) \<Rightarrow>
                      let undo = (\<lambda>s. close (clear_ofile fd1 (clear_ofile fd0 s)))
                      in and_then (copyout (p_pagetable (myproc s)) fdarray (le_bytes 4 (word_of_nat fd0 :: uint32)) s) (\<lambda>(r, s).
                         if r < 0 then undo s
                         else and_then (copyout (p_pagetable (myproc s)) (fdarray + 4) (le_bytes 4 (word_of_nat fd1 :: uint32)) s) (\<lambda>(r, s).
                              if r < 0 then undo s else ret 0 s))))))"

section \<open>Dispatch\<close>

definition unknown_fmt :: "uchar list" where
  "unknown_fmt = map (\<lambda>c. word_of_nat (of_char c)) (''%d %s: unknown sys call %d'' @ [CHR 0x0A])"

text \<open>The table of system calls by number; \<open>pad\<close> is the padding that \<^verbatim>\<open>fstat\<close> copies out.\<close>

definition syscalls :: "selection \<Rightarrow> uchar list \<Rightarrow> int \<Rightarrow> ('z kcpu_scheme \<Rightarrow> (uint64 option \<times> 'z kcpu_scheme) res) option" where
  "syscalls sel pad num =
     (if num = 1 then Some (sys_fork sel) else if num = 2 then Some (sys_exit sel) else if num = 3 then Some (sys_wait sel)
      else if num = 4 then Some sys_pipe else if num = 5 then Some sys_read else if num = 6 then Some sys_kill
      else if num = 7 then Some (sys_exec sel) else if num = 8 then Some (sys_fstat pad) else if num = 9 then Some sys_chdir
      else if num = 10 then Some sys_dup else if num = 11 then Some sys_getpid else if num = 12 then Some (sys_sbrk sel)
      else if num = 13 then Some sys_sleep else if num = 14 then Some sys_uptime else if num = 15 then Some sys_open
      else if num = 16 then Some sys_write else if num = 17 then Some sys_mknod else if num = 18 then Some sys_unlink
      else if num = 19 then Some sys_link else if num = 20 then Some sys_mkdir else if num = 21 then Some sys_close
      else None)"

text \<open>\<^verbatim>\<open>syscall\<close>; the result says whether the process goes on.\<close>

definition syscall :: "selection \<Rightarrow> uchar list \<Rightarrow> 'z kcpu_scheme \<Rightarrow> (bool \<times> 'z kcpu_scheme) res" where
  "syscall sel pad s =
     (let num = sint (ucast (tf_get (cur s) (tf_a 7) s) :: uint32)
      in case syscalls sel pad num of
           Some f \<Rightarrow> and_then (f s) (\<lambda>(r, s).
             case r of None \<Rightarrow> Ok (False, s) | Some v \<Rightarrow> Ok (True, tf_set (cur s) (tf_a 0) v s))
         | None \<Rightarrow>
             and_then (kprintf unknown_fmt [Arg_int (word_of_int (p_pid (myproc s))),
                Arg_str (Some (takeWhile (\<lambda>c. c \<noteq> 0) (p_name (myproc s)))), Arg_int (word_of_int num)] s) (\<lambda>s.
             Ok (True, tf_set (cur s) (tf_a 0) (-1) s)))"

end
