(* ===== verification/Trap.thy ===== *)
theory Trap
  imports Syscall
begin

text \<open>
  Traps: \<^verbatim>\<open>kernel/trap.c\<close>, the page-fault handlers at the end of \<^verbatim>\<open>kernel/vm.c\<close>, and the interrupt
  controller \<^verbatim>\<open>kernel/plic.c\<close>. The control registers are fields of the state. The disk of the model
  completes a request at once, so a disk interrupt has nothing left to do.
\<close>

section \<open>Registers\<close>

definition SSTATUS_SPP :: uint64 where "SSTATUS_SPP = push_bit 8 1"
definition SSTATUS_SPIE :: uint64 where "SSTATUS_SPIE = push_bit 5 1"
definition SSTATUS_SIE :: uint64 where "SSTATUS_SIE = push_bit 1 1"
definition SATP_SV39 :: uint64 where "SATP_SV39 = push_bit 60 8"

definition MAKE_SATP :: "addr \<Rightarrow> uint64" where
  "MAKE_SATP pagetable = SATP_SV39 OR drop_bit 12 pagetable"

definition UART0_IRQ :: uint32 where "UART0_IRQ = 10"
definition VIRTIO0_IRQ :: uint32 where "VIRTIO0_IRQ = 1"

definition intr_on :: "'z kcpu_scheme \<Rightarrow> 'z kcpu_scheme" where
  "intr_on s = s\<lparr>c_sstatus := c_sstatus s OR SSTATUS_SIE\<rparr>"

definition intr_off :: "'z kcpu_scheme \<Rightarrow> 'z kcpu_scheme" where
  "intr_off s = s\<lparr>c_sstatus := c_sstatus s AND NOT SSTATUS_SIE\<rparr>"

definition intr_get :: "'z kcpu_scheme \<Rightarrow> bool" where
  "intr_get s \<longleftrightarrow> c_sstatus s AND SSTATUS_SIE \<noteq> 0"

definition plic_claim :: "'z kcpu_scheme \<Rightarrow> uint32 \<times> 'z kcpu_scheme" where
  "plic_claim s = (plic_irq s (plic_claims s), s\<lparr>plic_claims := Suc (plic_claims s)\<rparr>)"

definition plic_complete :: "uint32 \<Rightarrow> 'z kcpu_scheme \<Rightarrow> 'z kcpu_scheme" where
  "plic_complete irq s = s\<lparr>plic_completed := plic_completed s @ [irq]\<rparr>"

definition trapinithart :: "'z kcpu_scheme \<Rightarrow> 'z kcpu_scheme" where
  "trapinithart s = s\<lparr>c_stvec := k_kernelvec s\<rparr>"

section \<open>Page faults\<close>

definition set_killed :: "'z kprocs_scheme \<Rightarrow> 'z kprocs_scheme" where
  "set_killed s = upd_proc (cur s) (\<lambda>p. p\<lparr>p_killed := True\<rparr>) s"

text \<open>The result says whether the process has exited.\<close>

definition handle_NONE :: "'z kcpu_scheme \<Rightarrow> (bool \<times> 'z kcpu_scheme) res" where
  "handle_NONE s =
     (let va = PGROUNDDOWN (c_stval s); pt = p_pagetable (myproc s)
      in if va > MAXVA then and_then (exit NONE (-1) s) (\<lambda>s. Ok (True, s))
         else and_then (walk pt va False s) (\<lambda>(pte, s).
              if pte = 0 then Ok (False, set_killed s)
              else and_then (if ld64 (ram s) pte AND PTE_V \<noteq> 0 then and_then (walkaddr pt va s) (\<lambda>w. Ok (w = 0)) else Ok False) (\<lambda>lazy.
                   if lazy
                   then and_then (uvmalloc NONE pt va (va + PGSIZE) s) (\<lambda>(r, s).
                        if r = 0 then Panic ''uvmalloc failure'' else Ok (False, s))
                   else Ok (False, set_killed s))))"

definition handle_not_NONE :: "selection \<Rightarrow> 'z kcpu_scheme \<Rightarrow> 'z kcpu_scheme res" where
  "handle_not_NONE sel s =
     (let va = PGROUNDDOWN (c_stval s)
      in and_then (walk (p_pagetable (myproc s)) va False s) (\<lambda>(pte, s).
         if pte \<noteq> 0 \<and> ld64 (ram s) pte AND PTE_PG \<noteq> 0 then swap sel va pte s else Ok (set_killed s)))"

definition handle_page_fault :: "selection \<Rightarrow> 'z kcpu_scheme \<Rightarrow> (bool \<times> 'z kcpu_scheme) res" where
  "handle_page_fault sel s =
     (if sel = NONE then handle_NONE s else and_then (handle_not_NONE sel s) (\<lambda>s. Ok (False, s)))"

section \<open>Interrupts\<close>

definition clockintr :: "'z kcpu_scheme \<Rightarrow> 'z kcpu_scheme" where
  "clockintr s = wakeup Chan_ticks (s\<lparr>ticks := ticks s + 1\<rparr>)"

definition irq_fmt :: "uchar list" where
  "irq_fmt = map (\<lambda>c. word_of_nat (of_char c)) (''unexpected interrupt irq=%d'' @ [CHR 0x0A])"

definition devintr :: "'z kcpu_scheme \<Rightarrow> (int \<times> 'z kcpu_scheme) res" where
  "devintr s =
     (if c_scause s AND 0x8000000000000000 \<noteq> 0 \<and> c_scause s AND 0xff = 9
      then case plic_claim s of (irq, s) \<Rightarrow>
           and_then (if irq = UART0_IRQ then uartintr s
                     else if irq = VIRTIO0_IRQ then Ok s
                     else if irq \<noteq> 0 then kprintf irq_fmt [Arg_int irq] s else Ok s) (\<lambda>s.
           Ok (1, if irq \<noteq> 0 then plic_complete irq s else s))
      else if c_scause s = 0x8000000000000001
      then let s = if c_tp s = 0 then clockintr s else s
           in Ok (2, s\<lparr>c_sip := c_sip s AND NOT 2\<rparr>)
      else Ok (0, s))"

section \<open>Traps from user space\<close>

text \<open>
  How \<^verbatim>\<open>usertrap\<close> leaves the kernel: to user space, into the scheduler by \<^verbatim>\<open>yield\<close> (and to user
  space when the process runs again), or for good.
\<close>

datatype trap_out = To_user | Yields | Exits

definition usertrapret :: "'z kcpu_scheme \<Rightarrow> 'z kcpu_scheme" where
  "usertrapret s =
     (let p = cur s;
          s = intr_off s;
          s = s\<lparr>c_stvec := TRAMPOLINE + (k_uservec s - ktrampoline s)\<rparr>;
          s = tf_set p tf_kernel_satp (c_satp s) s;
          s = tf_set p tf_kernel_sp (p_kstack (procs s ! p) + PGSIZE) s;
          s = tf_set p tf_kernel_trap (k_usertrap s) s;
          s = tf_set p tf_kernel_hartid (c_tp s) s;
          s = s\<lparr>c_sstatus := (c_sstatus s AND NOT SSTATUS_SPP) OR SSTATUS_SPIE\<rparr>
      in s\<lparr>c_sepc := tf_get p tf_epc s\<rparr>)"

text \<open>The arguments with which \<^verbatim>\<open>usertrapret\<close> jumps to \<^verbatim>\<open>userret\<close> in the trampoline.\<close>

definition userret_args :: "'z kcpu_scheme \<Rightarrow> addr \<times> uint64 \<times> uint64" where
  "userret_args s = (TRAMPOLINE + (k_userret s - ktrampoline s), TRAPFRAME, MAKE_SATP (p_pagetable (myproc s)))"

definition scause_fmt :: "uchar list" where
  "scause_fmt = map (\<lambda>c. word_of_nat (of_char c)) (''usertrap(): unexpected scause %p pid=%d'' @ [CHR 0x0A])"

definition sepc_fmt :: "uchar list" where
  "sepc_fmt = map (\<lambda>c. word_of_nat (of_char c)) (''            sepc=%p stval=%p'' @ [CHR 0x0A])"

text \<open>The middle of \<^verbatim>\<open>usertrap\<close>: what the trap asks for. The result is \<^verbatim>\<open>which_dev\<close>, or none if the process has exited.\<close>

definition trap_cause :: "selection \<Rightarrow> uchar list \<Rightarrow> 'z kcpu_scheme \<Rightarrow> (int option \<times> 'z kcpu_scheme) res" where
  "trap_cause sel pad s =
     (if c_scause s = 8
      then if p_killed (myproc s) then and_then (exit sel (-1) s) (\<lambda>s. Ok (None, s))
           else let s = tf_set (cur s) tf_epc (tf_get (cur s) tf_epc s + 4) s
                in and_then (syscall sel pad (intr_on s)) (\<lambda>(goes_on, s). Ok (if goes_on then Some 0 else None, s))
      else if p_pid (myproc s) > 2 \<and> (c_scause s = 13 \<or> c_scause s = 15 \<or> c_scause s = 12)
      then and_then (handle_page_fault sel s) (\<lambda>(exited, s). Ok (if exited then None else Some 0, s))
      else and_then (devintr s) (\<lambda>(which_dev, s).
           if which_dev \<noteq> 0 then Ok (Some which_dev, s)
           else and_then (kprintf scause_fmt [Arg_ptr (c_scause s), Arg_int (word_of_int (p_pid (myproc s)))] s) (\<lambda>s.
                and_then (kprintf sepc_fmt [Arg_ptr (c_sepc s), Arg_ptr (c_stval s)] s) (\<lambda>s.
                Ok (Some 0, set_killed s)))))"

definition usertrap :: "selection \<Rightarrow> uchar list \<Rightarrow> 'z kcpu_scheme \<Rightarrow> (trap_out \<times> 'z kcpu_scheme) res" where
  "usertrap sel pad s =
     (if c_sstatus s AND SSTATUS_SPP \<noteq> 0 then Panic ''usertrap: not from user mode''
      else let s = trapinithart s;
               s = tf_set (cur s) tf_epc (c_sepc s) s
           in and_then (trap_cause sel pad s) (\<lambda>(r, s).
              case r of
                None \<Rightarrow> Ok (Exits, s)
              | Some which_dev \<Rightarrow>
                  if p_killed (myproc s) then and_then (exit sel (-1) s) (\<lambda>s. Ok (Exits, s))
                  else if which_dev = 2 then Ok (Yields, yield s)
                  else Ok (To_user, usertrapret s)))"

section \<open>Traps from the kernel\<close>

definition kscause_fmt :: "uchar list" where
  "kscause_fmt = map (\<lambda>c. word_of_nat (of_char c)) (''scause %p'' @ [CHR 0x0A])"

definition ksepc_fmt :: "uchar list" where
  "ksepc_fmt = map (\<lambda>c. word_of_nat (of_char c)) (''sepc=%p stval=%p'' @ [CHR 0x0A])"

text \<open>
  \<^verbatim>\<open>kerneltrap\<close>; \<open>resume\<close> is what other processes do between its \<^verbatim>\<open>yield\<close> and the return from it,
  which may change the trap registers.
\<close>

definition kerneltrap :: "('z kcpu_scheme \<Rightarrow> 'z kcpu_scheme) \<Rightarrow> 'z kcpu_scheme \<Rightarrow> 'z kcpu_scheme res" where
  "kerneltrap resume s =
     (let sepc = c_sepc s; sstatus = c_sstatus s; scause = c_scause s
      in if sstatus AND SSTATUS_SPP = 0 then Panic ''kerneltrap: not from supervisor mode''
         else if intr_get s then Panic ''kerneltrap: interrupts enabled''
         else and_then (devintr s) (\<lambda>(which_dev, s).
              if which_dev = 0
              then and_then (kprintf kscause_fmt [Arg_ptr scause] s) (\<lambda>s.
                   and_then (kprintf ksepc_fmt [Arg_ptr (c_sepc s), Arg_ptr (c_stval s)] s) (\<lambda>s.
                   Panic ''kerneltrap''))
              else let s = if which_dev = 2 \<and> p_state (myproc s) = RUNNING then resume (yield s) else s
                   in Ok (s\<lparr>c_sepc := sepc, c_sstatus := sstatus\<rparr>)))"

end
