(* ===== verification/Spinlock.thy ===== *)
theory Spinlock
  imports Prelude
begin

text \<open>
  Spin locks, \<^verbatim>\<open>kernel/spinlock.c\<close>, and the checks of \<^verbatim>\<open>sched\<close> in \<^verbatim>\<open>kernel/proc.c\<close>. The routines are
  split at the points where another CPU can interfere, and the steps of any number of CPUs
  on one lock interleave freely: mutual exclusion, the absence of the panics and the
  disabling of interrupts are invariants of every reachable state.
\<close>

section \<open>CPUs and locks\<close>

text \<open>\<open>intr\<close> is the interrupt-enable bit of \<^verbatim>\<open>sstatus\<close>.\<close>

record cpu =
  noff :: int
  intena :: bool
  intr :: bool

record spinlock =
  lk_locked :: bool
  lk_cpu :: "nat option"

definition initlock :: spinlock where
  "initlock = \<lparr>lk_locked = False, lk_cpu = None\<rparr>"

definition push_off :: "cpu \<Rightarrow> cpu" where
  "push_off c =
     (let old = intr c;
          c = c\<lparr>intr := False\<rparr>;
          c = if noff c = 0 then c\<lparr>intena := old\<rparr> else c
      in c\<lparr>noff := noff c + 1\<rparr>)"

definition pop_off :: "cpu \<Rightarrow> cpu res" where
  "pop_off c =
     (if intr c then Panic ''pop_off - interruptible''
      else if noff c < 1 then Panic ''pop_off''
      else let c = c\<lparr>noff := noff c - 1\<rparr>
           in Ok (if noff c = 0 \<and> intena c then c\<lparr>intr := True\<rparr> else c))"

definition holding :: "nat \<Rightarrow> spinlock \<Rightarrow> bool" where
  "holding me lk \<longleftrightarrow> lk_locked lk \<and> lk_cpu lk = Some me"

text \<open>\<^verbatim>\<open>acquire\<close> up to its loop, one round of the loop, and the rest.\<close>

definition acquire_enter :: "nat \<Rightarrow> cpu \<Rightarrow> spinlock \<Rightarrow> cpu res" where
  "acquire_enter me c lk = (let c = push_off c in if holding me lk then Panic ''acquire'' else Ok c)"

definition test_and_set :: "spinlock \<Rightarrow> bool \<times> spinlock" where
  "test_and_set lk = (lk_locked lk, lk\<lparr>lk_locked := True\<rparr>)"

definition acquire_record :: "nat \<Rightarrow> spinlock \<Rightarrow> spinlock" where
  "acquire_record me lk = lk\<lparr>lk_cpu := Some me\<rparr>"

text \<open>\<^verbatim>\<open>release\<close>: the owner is erased before the lock is free.\<close>

definition release_enter :: "nat \<Rightarrow> spinlock \<Rightarrow> spinlock res" where
  "release_enter me lk = (if \<not> holding me lk then Panic ''release'' else Ok (lk\<lparr>lk_cpu := None\<rparr>))"

definition release_free :: "spinlock \<Rightarrow> spinlock" where
  "release_free lk = lk\<lparr>lk_locked := False\<rparr>"

text \<open>\<^verbatim>\<open>acquire\<close> and \<^verbatim>\<open>release\<close> without interference; a lock that stays taken makes \<^verbatim>\<open>acquire\<close> spin.\<close>

definition acquire :: "nat \<Rightarrow> cpu \<Rightarrow> spinlock \<Rightarrow> (cpu \<times> spinlock) res" where
  "acquire me c lk =
     and_then (acquire_enter me c lk) (\<lambda>c.
     case test_and_set lk of (old, lk) \<Rightarrow> if old then Spin else Ok (c, acquire_record me lk))"

definition release :: "nat \<Rightarrow> cpu \<Rightarrow> spinlock \<Rightarrow> (cpu \<times> spinlock) res" where
  "release me c lk =
     and_then (release_enter me lk) (\<lambda>lk.
     and_then (pop_off c) (\<lambda>c. Ok (c, release_free lk)))"

text \<open>The checks of \<^verbatim>\<open>sched\<close> before it switches; \<open>running\<close> says that the process still has state \<open>RUNNING\<close>.\<close>

definition sched_checks :: "nat \<Rightarrow> cpu \<Rightarrow> spinlock \<Rightarrow> bool \<Rightarrow> unit res" where
  "sched_checks me c plock running =
     (if \<not> holding me plock then Panic ''sched p->lock''
      else if noff c \<noteq> 1 then Panic ''sched locks''
      else if running then Panic ''sched running''
      else if intr c then Panic ''sched interruptible''
      else Ok ())"

section \<open>Interleaved steps\<close>

text \<open>Where a CPU is with respect to the lock.\<close>

datatype pc = Outside | Spinning | Taken | Inside | Dropped | Halted

record lkstate =
  cpus :: "nat \<Rightarrow> cpu"
  pcs :: "nat \<Rightarrow> pc"
  lock :: spinlock

definition goto :: "nat \<Rightarrow> pc \<Rightarrow> lkstate \<Rightarrow> lkstate" where
  "goto me l x = x\<lparr>pcs := (pcs x)(me := l)\<rparr>"

text \<open>
  A CPU outside the lock may enable and disable interrupts as long as it is not within
  \<^verbatim>\<open>push_off\<close>; a panic stops it.
\<close>

inductive step :: "lkstate \<Rightarrow> lkstate \<Rightarrow> bool" where
  toggle: "pcs x me = Outside \<Longrightarrow> noff (cpus x me) = 0 \<Longrightarrow>
    step x (x\<lparr>cpus := (cpus x)(me := (cpus x me)\<lparr>intr := b\<rparr>)\<rparr>)"
| enter: "pcs x me = Outside \<Longrightarrow> acquire_enter me (cpus x me) (lock x) = Ok c \<Longrightarrow>
    step x (goto me Spinning (x\<lparr>cpus := (cpus x)(me := c)\<rparr>))"
| enter_panic: "pcs x me = Outside \<Longrightarrow> acquire_enter me (cpus x me) (lock x) = Panic m \<Longrightarrow> step x (goto me Halted x)"
| spin: "pcs x me = Spinning \<Longrightarrow> test_and_set (lock x) = (True, lk) \<Longrightarrow> step x (x\<lparr>lock := lk\<rparr>)"
| take: "pcs x me = Spinning \<Longrightarrow> test_and_set (lock x) = (False, lk) \<Longrightarrow> step x (goto me Taken (x\<lparr>lock := lk\<rparr>))"
| got: "pcs x me = Taken \<Longrightarrow> step x (goto me Inside (x\<lparr>lock := acquire_record me (lock x)\<rparr>))"
| leave: "pcs x me = Inside \<Longrightarrow> release_enter me (lock x) = Ok lk \<Longrightarrow> step x (goto me Dropped (x\<lparr>lock := lk\<rparr>))"
| leave_panic: "pcs x me = Inside \<Longrightarrow> release_enter me (lock x) = Panic m \<Longrightarrow> step x (goto me Halted x)"
| free: "pcs x me = Dropped \<Longrightarrow> pop_off (cpus x me) = Ok c \<Longrightarrow>
    step x (goto me Outside (x\<lparr>lock := release_free (lock x), cpus := (cpus x)(me := c)\<rparr>))"
| free_panic: "pcs x me = Dropped \<Longrightarrow> pop_off (cpus x me) = Panic m \<Longrightarrow> step x (goto me Halted x)"

text \<open>Initially the lock is free and no CPU is in it; interrupts are off within \<^verbatim>\<open>push_off\<close>.\<close>

definition start :: "lkstate \<Rightarrow> bool" where
  "start x \<longleftrightarrow> lock x = initlock \<and> (\<forall>c. pcs x c = Outside \<and> noff (cpus x c) \<ge> 0 \<and> (noff (cpus x c) > 0 \<longrightarrow> \<not> intr (cpus x c)))"

inductive reach :: "lkstate \<Rightarrow> bool" where
  init: "start x \<Longrightarrow> reach x"
| more: "reach x \<Longrightarrow> step x y \<Longrightarrow> reach y"

section \<open>The invariant\<close>

definition owns :: "pc \<Rightarrow> bool" where
  "owns l \<longleftrightarrow> l = Taken \<or> l = Inside \<or> l = Dropped"

definition lock_inv :: "lkstate \<Rightarrow> bool" where
  "lock_inv x \<longleftrightarrow>
     (\<forall>c. pcs x c \<noteq> Halted \<and> noff (cpus x c) \<ge> 0 \<and> (noff (cpus x c) > 0 \<longrightarrow> \<not> intr (cpus x c)) \<and>
          (pcs x c \<noteq> Outside \<longrightarrow> noff (cpus x c) > 0) \<and> (owns (pcs x c) \<longrightarrow> lk_locked (lock x)) \<and>
          (lk_cpu (lock x) = Some c \<longleftrightarrow> pcs x c = Inside)) \<and>
     (\<forall>c d. owns (pcs x c) \<longrightarrow> owns (pcs x d) \<longrightarrow> c = d)"

lemma lock_invD:
  assumes "lock_inv x"
  shows "pcs x c \<noteq> Halted" "noff (cpus x c) \<ge> 0" "noff (cpus x c) > 0 \<Longrightarrow> \<not> intr (cpus x c)"
    "pcs x c \<noteq> Outside \<Longrightarrow> noff (cpus x c) > 0" "owns (pcs x c) \<Longrightarrow> lk_locked (lock x)"
    "lk_cpu (lock x) = Some c \<longleftrightarrow> pcs x c = Inside" "owns (pcs x c) \<Longrightarrow> owns (pcs x d) \<Longrightarrow> c = d"
  using assms unfolding lock_inv_def by blast+

lemmas lock_defs = goto_def acquire_enter_def test_and_set_def acquire_record_def release_enter_def release_free_def
  holding_def owns_def push_off_def pop_off_def Let_def

lemma lock_inv_start: "start x \<Longrightarrow> lock_inv x"
  by (auto simp: start_def lock_inv_def initlock_def owns_def)

lemma lock_inv_step:
  assumes inv: "lock_inv x" and st: "step x y"
  shows "lock_inv y"
  using st
proof (cases rule: step.cases)
  case (toggle me b)
  then show ?thesis using inv unfolding lock_inv_def by (auto simp: owns_def)
next
  case (enter me c)
  have "noff c > 0" "\<not> intr c"
    using enter(3) lock_invD(2) [OF inv, of me] by (auto simp: lock_defs split: if_splits)
  moreover have "lk_cpu (lock x) \<noteq> Some me" using lock_invD(6) [OF inv, of me] enter(2) by simp
  ultimately show ?thesis using inv enter unfolding lock_inv_def by (auto simp: goto_def owns_def)
next
  case (enter_panic me m)
  then show ?thesis using lock_invD(6) [OF inv, of me] by (auto simp: lock_defs split: if_splits)
next
  case (spin me lk)
  then have "lk = lock x" by (auto simp: test_and_set_def)
  then show ?thesis using spin inv by simp
next
  case (take me lk)
  then have lk: "\<not> lk_locked (lock x)" "lk = (lock x)\<lparr>lk_locked := True\<rparr>" by (auto simp: test_and_set_def)
  have none: "\<not> owns (pcs x c)" for c using lk(1) lock_invD(5) [OF inv] by blast
  then have "lk_cpu (lock x) \<noteq> Some c" for c using lock_invD(6) [OF inv, of c] by (auto simp: owns_def)
  then show ?thesis using inv none take lk unfolding lock_inv_def by (auto simp: goto_def owns_def)
next
  case (got me)
  have u: "c = me" if "owns (pcs x c)" for c using lock_invD(7) [OF inv that, of me] got(2) by (simp add: owns_def)
  then have "pcs x c \<noteq> Inside" for c using got(2) owns_def pc.distinct by metis
  then show ?thesis using inv u got unfolding lock_inv_def
    by (auto simp: goto_def acquire_record_def owns_def)
next
  case (leave me lk)
  have u: "c = me" if "owns (pcs x c)" for c using lock_invD(7) [OF inv that, of me] leave(2) by (simp add: owns_def)
  have lk: "lk = (lock x)\<lparr>lk_cpu := None\<rparr>" using leave(3) by (auto simp: release_enter_def split: if_splits)
  have "pcs x c = Inside \<Longrightarrow> c = me" for c using u by (simp add: owns_def)
  then show ?thesis using inv u leave lk unfolding lock_inv_def by (auto simp: goto_def owns_def)
next
  case (leave_panic me m)
  then show ?thesis using lock_invD(5,6) [OF inv, of me] by (auto simp: lock_defs split: if_splits)
next
  case (free me c)
  have u: "d = me" if "owns (pcs x d)" for d using lock_invD(7) [OF inv that, of me] free(2) by (simp add: owns_def)
  have no: "pcs x d \<noteq> Inside" for d using u [of d] free(2) owns_def pc.distinct by metis
  have c: "noff c \<ge> 0" "noff c > 0 \<longrightarrow> \<not> intr c"
    using free(3) by (auto simp: pop_off_def Let_def split: if_splits)
  show ?thesis using inv u no free c unfolding lock_inv_def
    by (auto simp: goto_def release_free_def owns_def)
next
  case (free_panic me m)
  then show ?thesis using lock_invD(3,4) [OF inv, of me] by (auto simp: pop_off_def Let_def split: if_splits)
qed

lemma lock_inv_reach: "reach x \<Longrightarrow> lock_inv x"
  by (induction rule: reach.induct) (auto intro: lock_inv_start lock_inv_step)

section \<open>Properties\<close>

text \<open>
  C6. Mutual exclusion. However the steps of any number of CPUs on a spin lock interleave, at
  most one CPU is between taking the lock and giving it back; \<^verbatim>\<open>lk->cpu\<close> names the one in the
  critical section; none of the panics of \<^verbatim>\<open>acquire\<close>, \<^verbatim>\<open>release\<close> and \<^verbatim>\<open>pop_off\<close> happens; and a CPU that
  waits for the lock or holds it has interrupts off.
\<close>

theorem spinlock_mutual_exclusion:
  assumes "reach x"
  shows "(owns (pcs x c) \<and> owns (pcs x d) \<longrightarrow> c = d) \<and> (holding c (lock x) \<longleftrightarrow> pcs x c = Inside) \<and>
    pcs x c \<noteq> Halted \<and> (pcs x c \<noteq> Outside \<longrightarrow> \<not> intr (cpus x c))"
proof -
  note i = lock_invD [OF lock_inv_reach [OF assms]]
  have "holding c (lock x) \<longleftrightarrow> pcs x c = Inside" using i(5,6) [of c] by (auto simp: holding_def owns_def)
  then show ?thesis using i(1,3,4) [of c] i(7) [of c d] by blast
qed

definition quiet :: lkstate where
  "quiet = \<lparr>cpus = (\<lambda>_. \<lparr>noff = 0, intena = False, intr = True\<rparr>), pcs = (\<lambda>_. Outside), lock = initlock\<rparr>"

theorem spinlock_mutual_exclusion_witness:
  "\<exists>x. reach x \<and> pcs x 1 = Inside \<and> pcs x 2 = Spinning \<and> holding 1 (lock x) \<and> \<not> holding 2 (lock x) \<and> \<not> intr (cpus x 2)"
proof -
  have r0: "reach quiet" by (rule reach.init) (simp add: start_def quiet_def)
  let ?c = "\<lparr>noff = 1, intena = True, intr = False\<rparr>"
  let ?x1 = "goto 1 Spinning (quiet\<lparr>cpus := (cpus quiet)(1 := ?c)\<rparr>)"
  have r1: "reach ?x1" by (rule reach.more [OF r0 step.enter]) (simp_all add: quiet_def lock_defs initlock_def)
  let ?x2 = "goto 1 Taken (?x1\<lparr>lock := initlock\<lparr>lk_locked := True\<rparr>\<rparr>)"
  have r2: "reach ?x2" by (rule reach.more [OF r1 step.take]) (simp_all add: quiet_def lock_defs initlock_def)
  let ?x3 = "goto 1 Inside (?x2\<lparr>lock := acquire_record 1 (lock ?x2)\<rparr>)"
  have r3: "reach ?x3" by (rule reach.more [OF r2 step.got]) (simp add: goto_def)
  let ?x4 = "goto 2 Spinning (?x3\<lparr>cpus := (cpus ?x3)(2 := ?c)\<rparr>)"
  have r4: "reach ?x4" by (rule reach.more [OF r3 step.enter]) (simp_all add: quiet_def lock_defs initlock_def)
  have "pcs ?x4 1 = Inside" "pcs ?x4 2 = Spinning" by (simp_all add: goto_def)
  moreover have "holding 1 (lock ?x4)" using spinlock_mutual_exclusion [OF r4, of 1 1] \<open>pcs ?x4 1 = Inside\<close> by blast
  moreover have "\<not> holding 2 (lock ?x4)" "\<not> intr (cpus ?x4 2)"
    using spinlock_mutual_exclusion [OF r4, of 2 2] \<open>pcs ?x4 2 = Spinning\<close> by (metis pc.distinct)+
  ultimately show ?thesis using r4 by blast
qed

text \<open>Properly nested pairs of \<^verbatim>\<open>push_off\<close> and \<^verbatim>\<open>pop_off\<close>.\<close>

datatype nest = Nest "nest list"

fun nest_run :: "nest list \<Rightarrow> cpu \<Rightarrow> cpu res" where
  "nest_run [] c = Ok c"
| "nest_run (Nest ns # ms) c = and_then (nest_run ns (push_off c)) (\<lambda>c. and_then (pop_off c) (nest_run ms))"

lemma nest_run_spec:
  "noff c \<ge> 0 \<Longrightarrow> (noff c > 0 \<longrightarrow> \<not> intr c) \<Longrightarrow>
   \<exists>c'. nest_run ns c = Ok c' \<and> noff c' = noff c \<and> intr c' = intr c \<and> (noff c > 0 \<longrightarrow> intena c' = intena c)"
proof (induction ns c rule: nest_run.induct)
  case (2 ns ms c)
  have p: "noff (push_off c) = noff c + 1" "\<not> intr (push_off c)"
    "intena (push_off c) = (if noff c = 0 then intr c else intena c)" by (simp_all add: push_off_def Let_def)
  obtain c1 where c1: "nest_run ns (push_off c) = Ok c1" "noff c1 = noff c + 1" "\<not> intr c1" "intena c1 = intena (push_off c)"
    using 2(1) p 2(3) by auto
  let ?c2 = "if noff c = 0 \<and> intena c1 then c1\<lparr>noff := noff c, intr := True\<rparr> else c1\<lparr>noff := noff c\<rparr>"
  have po: "pop_off c1 = Ok ?c2" using c1 2(3) by (simp add: pop_off_def Let_def)
  have "noff ?c2 = noff c" "intr ?c2 = intr c" "noff c > 0 \<longrightarrow> intena ?c2 = intena c"
    using c1 p(3) 2(3,4) by auto
  then show ?case using 2(2) [OF c1(1) po] 2(3,4) c1(1) po by auto
qed simp

text \<open>
  C21. Balanced interrupt disabling. Any properly nested sequence of \<^verbatim>\<open>push_off\<close> and \<^verbatim>\<open>pop_off\<close>, started
  with a consistent CPU, runs without panic and leaves the nesting depth and the interrupt
  enable bit as they were.
\<close>

theorem push_pop_balanced:
  assumes "noff c \<ge> 0" "noff c > 0 \<longrightarrow> \<not> intr c"
  shows "\<exists>c'. nest_run ns c = Ok c' \<and> noff c' = noff c \<and> intr c' = intr c"
  using nest_run_spec [OF assms] by blast

theorem push_pop_balanced_witness:
  "\<exists>c'. nest_run [Nest [Nest []], Nest []] \<lparr>noff = 0, intena = False, intr = True\<rparr> = Ok c' \<and> noff c' = 0 \<and> intr c'"
  using push_pop_balanced [of "\<lparr>noff = 0, intena = False, intr = True\<rparr>" "[Nest [Nest []], Nest []]"] by simp

end
