(* ===== verification/Boot.thy ===== *)
theory Boot
  imports Trap Spinlock
begin

text \<open>
  The boot sequence of CPU 0, \<^verbatim>\<open>main\<close> in \<^verbatim>\<open>kernel/main.c\<close>, up to its call of \<^verbatim>\<open>scheduler\<close>. Locks are not part
  of this state, and the interrupt controller and the disk controller have no state that
  their set-up could change in the model.
\<close>

definition boot_msg :: "uchar list" where
  "boot_msg = map (\<lambda>c. word_of_nat (of_char c)) (''xv6 kernel is booting'' @ [CHR 0x0A])"

definition kvminit :: "selection \<Rightarrow> 'z kcpu_scheme \<Rightarrow> (addr \<times> 'z kcpu_scheme) res" where
  "kvminit sel s = kvmmake sel s"

definition kvminithart :: "addr \<Rightarrow> 'z kcpu_scheme \<Rightarrow> 'z kcpu_scheme" where
  "kvminithart kernel_pagetable s = s\<lparr>c_satp := MAKE_SATP kernel_pagetable\<rparr>"

definition kmain :: "selection \<Rightarrow> 'z kcpu_scheme \<Rightarrow> 'z kcpu_scheme res" where
  "kmain sel s =
     and_then (kprintf [0x0A] [] (consoleinit s)) (\<lambda>s.
     and_then (kprintf boot_msg [] s) (\<lambda>s.
     and_then (kprintf [0x0A] [] s) (\<lambda>s.
     and_then (kinit s) (\<lambda>s.
     and_then (kvminit sel s) (\<lambda>(kernel_pagetable, s).
     let s = kvminithart kernel_pagetable s;
         s = procinit s;
         s = trapinithart s;
         s = binit s;
         s = iinit s
     in userinit sel s)))))"

end
