(* ===== verification/FsSpec.thy ===== *)
theory FsSpec
  imports Fs
begin

text \<open>
  The file system over the log's contract. Inside a transaction the current contents of the
  disk blocks are \<open>cont s\<close> (cache over disk); every routine of \<^verbatim>\<open>fs.c\<close> is described by what it does to
  these contents and to the inode table.
\<close>

declare readi_loop.simps [simp del] writei_loop.simps [simp del] namex_loop.simps [simp del]

section \<open>Operations inside a transaction\<close>

text \<open>
  The blocks logged so far. In \<open>fsop s k h\<close> the kernel is inside a transaction, can log \<open>k\<close> more
  blocks and lock \<open>h\<close> more buffers at a time.
\<close>

definition logged :: "'z klog_scheme \<Rightarrow> uint32 set" where
  "logged s = home s ` {..<nat (lh_n s)}"

definition fsop :: "'z klog_scheme \<Rightarrow> nat \<Rightarrow> nat \<Rightarrow> bool" where
  "fsop s k h \<longleftrightarrow> txn s (nat (lh_n s)) \<and> mine s = held s \<and> (\<forall>b\<in>held s. \<exists>i. slot s b = Some i \<and> b_valid (bufs s ! i)) \<and>
     1 \<le> lg_outstanding s \<and> nat (lh_n s) + k + card (held s) + h \<le> NBUF \<and> int (nat (lh_n s) + k) < lg_size s"

text \<open>What no routine of the file system changes: the disk (before the commit), the layout, and the buffers held by callers.\<close>

definition fs_ext0 :: "'z kfs_scheme \<Rightarrow> 'z kfs_scheme \<Rightarrow> bool" where
  "fs_ext0 s s' \<longleftrightarrow> disk s' = disk s \<and> logreg s' = logreg s \<and> sb s' = sb s \<and> same_procs s s'"

definition fs_ext :: "'z kfs_scheme \<Rightarrow> 'z kfs_scheme \<Rightarrow> bool" where
  "fs_ext s s' \<longleftrightarrow> fs_ext0 s s' \<and> held s' = held s \<and> (\<forall>b\<in>held s. slot s' b = slot s b)"

lemma fs_ext0_refl [simp, intro]: "fs_ext0 s s"
  by (simp add: fs_ext0_def same_procs_refl)

lemma fs_ext_refl [simp, intro]: "fs_ext s s"
  by (simp add: fs_ext_def)

lemma fs_ext0_trans [trans]: "fs_ext0 s s1 \<Longrightarrow> fs_ext0 s1 s2 \<Longrightarrow> fs_ext0 s s2"
  by (auto simp: fs_ext0_def elim: same_procs_trans)

lemma fs_ext_trans [trans]: "fs_ext s s1 \<Longrightarrow> fs_ext s1 s2 \<Longrightarrow> fs_ext s s2"
  by (auto simp: fs_ext_def elim: fs_ext0_trans)

lemma fs_extD: "fs_ext s s' \<Longrightarrow> sb s' = sb s" "fs_ext s s' \<Longrightarrow> disk s' = disk s" "fs_ext s s' \<Longrightarrow> logreg s' = logreg s"
  "fs_ext s s' \<Longrightarrow> held s' = held s" "fs_ext s s' \<Longrightarrow> b \<in> held s \<Longrightarrow> slot s' b = slot s b"
  by (simp_all add: fs_ext_def fs_ext0_def)

lemma fsop_mono: "fsop s k h \<Longrightarrow> j \<le> k \<Longrightarrow> g \<le> h \<Longrightarrow> fsop s j g"
  by (auto simp: fsop_def)

lemma fsopD:
  assumes "fsop s k h"
  shows "txn s (nat (lh_n s))" "mine s = held s" "b \<in> held s \<Longrightarrow> \<exists>i. slot s b = Some i \<and> b_valid (bufs s ! i)"
    "1 \<le> lg_outstanding s" "nat (lh_n s) + k + card (held s) + h \<le> NBUF" "int (nat (lh_n s) + k) < lg_size s" "binv s"
    "b \<notin> logged s \<Longrightarrow> b \<notin> held s \<Longrightarrow> cont s b = disk s b"
proof -
  show t: "txn s (nat (lh_n s))" and "mine s = held s" "1 \<le> lg_outstanding s" "nat (lh_n s) + k + card (held s) + h \<le> NBUF"
    "int (nat (lh_n s) + k) < lg_size s" "b \<in> held s \<Longrightarrow> \<exists>i. slot s b = Some i \<and> b_valid (bufs s ! i)"
    using assms unfolding fsop_def by blast+
  then show "binv s" by (simp add: txn_def)
  show "b \<notin> logged s \<Longrightarrow> b \<notin> held s \<Longrightarrow> cont s b = disk s b"
    using t clean_block [of s b] by (simp add: txn_def logged_def)
qed

text \<open>The cache and the log leave the superblock and the inode table alone.\<close>

lemma upd_buf_fs [simp]:
  "itable (upd_buf i f s) = itable (s :: 'z kfs_scheme)" "sb (upd_buf i f s) = sb s"
  by (simp_all add: upd_buf_def)

lemma lock_buf_fs: "lock_buf b s = Ok (i, s') \<Longrightarrow> itable s' = itable (s :: 'z kfs_scheme) \<and> sb s' = sb s"
  by (auto simp: lock_buf_def and_then_eq_Ok)

lemma bget_fs: "bget dev b s = Ok (i, s') \<Longrightarrow> itable s' = itable (s :: 'z kfs_scheme) \<and> sb s' = sb s"
  unfolding bget_def and_then_eq_Ok by (auto split: option.splits simp: and_then_eq_Ok dest!: lock_buf_fs)

lemma bread_fs:
  assumes "bread dev b s = Ok (i, s')"
  shows "itable s' = itable (s :: 'z kfs_scheme) \<and> sb s' = sb s"
proof -
  obtain j s1 where g: "bget dev b s = Ok (j, s1)" using assms by (auto simp: bread_def and_then_eq_Ok)
  then have "s' = s1 \<or> s' = upd_buf j (\<lambda>x. x\<lparr>b_valid := True\<rparr>) (virtio_disk_rw j False s1)"
    using assms by (auto simp: bread_def split: if_splits)
  then show ?thesis using bget_fs [OF g] by (auto simp: virtio_disk_rw_def)
qed

lemma log_write_fs:
  "log_write i s = Ok s' \<Longrightarrow> itable s' = itable (s :: 'z kfs_scheme) \<and> sb s' = sb s"
  by (auto simp: log_write_def bpin_def upd_buf_def Let_def split: if_splits)

lemma brelse_fs:
  "brelse i s = Ok s' \<Longrightarrow> itable s' = itable (s :: 'z kfs_scheme) \<and> sb s' = sb s"
  by (auto simp: brelse_def upd_buf_def wakeup_def Let_def split: if_splits)

lemma log_write_procs: "log_write i s = Ok s' \<Longrightarrow> procs s' = procs s \<and> cur s' = cur s"
  by (auto simp: log_write_def bpin_def upd_buf_def Let_def split: if_splits)

lemma upd_data_fs [simp]:
  "itable (upd_data i f s) = itable (s :: 'z kfs_scheme)" "sb (upd_data i f s) = sb s"
  "procs (upd_data i f s) = procs s" "cur (upd_data i f s) = cur s"
  by (simp_all add: upd_data_def upd_buf_def)

lemma logreg_cong: "lg_start s' = lg_start s \<Longrightarrow> logreg s' = logreg s"
  by (simp add: logreg_def logblk_def [abs_def])

lemma txn_n: "txn s n \<Longrightarrow> nat (lh_n s) = n"
  by (simp add: txn_def tran_def)

text \<open>Reading and locking a block.\<close>

lemma fs_bread:
  assumes s: "fsop (s :: 'z kfs_scheme) k (Suc h)" and b: "b \<notin> held s"
  obtains i s1 where "bread ROOTDEV b s = Ok (i, s1)" "b_data (bufs s1 ! i) = cont s b" "slot s1 b = Some i" "fsop s1 k h"
    "held s1 = insert b (held s)" "cont s1 = cont s" "logged s1 = logged s" "fs_ext0 s s1" "itable s1 = itable s"
    "\<forall>c\<in>held s. slot s1 c = slot s c"
proof -
  let ?n = "nat (lh_n s)"
  note d = fsopD [OF s]
  have "?n + card (held s) < NBUF" using d(5) by simp
  then obtain i s1 where r: "bread ROOTDEV b s = Ok (i, s1)" "bread_post s b i s1" "txn s1 ?n"
    using txn_bread [OF d(1) b] by auto
  note p = bread_postD [OF r(2)]
  note g = lgf_eq [OF p(11)]
  have rf: "refs s c \<noteq> 0" if "c \<in> held s" for c using that d(1) by (simp add: txn_def)
  have sl: "slot s1 c = slot s c \<and> (\<exists>j. slot s c = Some j \<and> b_valid (bufs s1 ! j))" if "c \<in> held s" for c
    using d(3) [OF that] p(14) [OF _ _ rf [OF that]] that b by fastforce
  then have "\<forall>c\<in>held s1. \<exists>j. slot s1 c = Some j \<and> b_valid (bufs s1 ! j)" using p(2,3,6) by auto
  moreover have "card (held s1) = Suc (card (held s))" using p(6) b by simp
  ultimately have "fsop s1 k h" using r(3) d(2,4-6) p(6,7) g by (simp add: fsop_def)
  moreover have "fs_ext0 s s1" using p(9,12) g(1) bread_fs [OF r(1)] logreg_cong [of s1 s] by (simp add: fs_ext0_def)
  moreover have "logged s1 = logged s" using g home_cong [OF p(11)] by (simp add: logged_def)
  ultimately show ?thesis using that [OF r(1) p(13,2)] p(4,6) bread_fs [OF r(1)] sl by blast
qed

text \<open>Storing into a locked buffer and logging it.\<close>

lemma fs_log:
  assumes s: "fsop (s :: 'z kfs_scheme) (Suc k) h" and b: "b \<in> held s" "slot s b = Some i" "b \<notin> logreg s"
  obtains s' where "log_write i (upd_data i f s) = Ok s'" "fsop s' k h" "cont s' = (cont s)(b := f (cont s b))"
    "logged s' = insert b (logged s)" "fs_ext s s'" "slot s' = slot s" "itable s' = itable s"
proof -
  let ?n = "nat (lh_n s)" and ?s = "upd_data i f s"
  note d = fsopD [OF s]
  have m: "b \<in> mine s" "b_valid (bufs s ! i)" using d(2) d(3) [of b] b by auto
  have e: "?s = upd_buf i (\<lambda>x. x\<lparr>b_data := f (b_data x)\<rparr>) s" by (simp add: upd_data_def)
  note w = write_data_spec [where f = f, OF d(7) m(1) b(2) m(2) e]
  note t = txn_write [where f = f, OF d(1) m(1) b(2) m(2) e]
  note g = lgf_eq [OF lgf_frame(1) [OF w(9)]]
  have lr: "logreg ?s = logreg s" by (rule logreg_cong) (rule g(1))
  have room: "?n < LOGSIZE" "int ?n < lg_size ?s - 1" "1 \<le> lg_outstanding ?s" using d(4-6) g by (auto simp: NBUF_def LOGSIZE_eq)
  obtain s' n' where u: "log_write i ?s = Ok s'" "txn s' n'" "n' = (if b \<in> home ?s ` {..<?n} then ?n else Suc ?n)"
    "home s' ` {..<n'} = insert b (home ?s ` {..<?n})" "slot s' = slot ?s" "cont s' = cont ?s" "held s' = held ?s"
    "mine s' = mine ?s" "disk s' = disk ?s" "lg_start s' = lg_start ?s" "lg_size s' = lg_size ?s"
    "lg_outstanding s' = lg_outstanding ?s" "same_procs ?s s'" "\<forall>j. b_valid (bufs s' ! j) = b_valid (bufs ?s ! j)"
    using txn_log_write [OF t, of b i] m w(2,6) b lr room by auto
  have n: "n' \<le> Suc ?n" "nat (lh_n s') = n'" using u(3) txn_n [OF u(2)] by auto
  have v: "b_valid (bufs s' ! j)" if "b_valid (bufs s ! j)" for j using u(14) w(8,10) that by (cases "j = i") auto
  have "\<forall>c\<in>held s'. \<exists>j. slot s' c = Some j \<and> b_valid (bufs s' ! j)" using d(3) v u(5,7) w(2,5) by (metis (no_types, lifting))
  moreover have "n' + k + card (held s') + h \<le> NBUF" "int (n' + k) < lg_size s'"
    using d(5,6) n(1) unfolding u(7,11) w(5) g(2) by linarith+
  ultimately have "fsop s' k h" using u(2,7,8,12) d(2,4) w(5,6) g(3) n(2) by (simp add: fsop_def)
  moreover have "fs_ext s s'"
    using u(5,7,9,13) w(2,5) disk_frame(1) [OF w(9)] logreg_cong [OF u(10)] lr log_write_fs [OF u(1)]
    by (auto simp: fs_ext_def fs_ext0_def intro: same_procs_trans)
  moreover have "logged s' = insert b (logged s)" using u(4) n(2) g(7) by (simp add: logged_def home_def)
  ultimately show ?thesis using that [OF u(1)] u(5,6) w(2,3) log_write_fs [OF u(1)] by simp
qed

text \<open>Letting go of a block that is logged or clean.\<close>

lemma fs_brelse:
  assumes s: "fsop (s :: 'z kfs_scheme) k h" and b: "b \<in> held s" "slot s b = Some i" "b \<in> logged s \<or> cont s b = disk s b"
  obtains s' where "brelse i s = Ok s'" "fsop s' k (Suc h)" "held s' = held s - {b}" "cont s' = cont s" "logged s' = logged s"
    "fs_ext0 s s'" "slot s' = slot s" "itable s' = itable s"
proof -
  note d = fsopD [OF s]
  obtain s' where q: "brelse i s = Ok s'" "brelse_post s b s'" "txn s' (nat (lh_n s))"
    using txn_brelse [OF d(1) _ b(2)] b d(2) by (auto simp: logged_def)
  note v = brelse_postD [OF q(2)]
  note g = lgf_eq [OF v(10)]
  have va: "\<forall>j<NBUF. b_valid (bufs s' ! j) = b_valid (bufs s ! j)" using q(2) unfolding brelse_post_def by blast
  have "\<exists>j. slot s' c = Some j \<and> b_valid (bufs s' ! j)" if "c \<in> held s'" for c
    using d(3) [of c] that v(2,5) va slot_Some [OF d(7)] by fastforce
  moreover have "card (held s) = Suc (card (held s'))" using v(5) b(1) card_Suc_Diff1 [of "held s" b] by simp
  ultimately have "fsop s' k (Suc h)" using q(3) d(2,4-6) v(5,6) g by (simp add: fsop_def)
  moreover have "fs_ext0 s s'" using v(8,11) logreg_cong [of s' s] g(1) brelse_fs [OF q(1)] by (simp add: fs_ext0_def)
  moreover have "logged s' = logged s" using g home_cong [OF v(10)] by (simp add: logged_def)
  ultimately show ?thesis using that [OF q(1)] v(2,3,5) brelse_fs [OF q(1)] by simp
qed

text \<open>The two common patterns: reading a block and letting it go, and changing a block.\<close>

lemma fs_read:
  assumes s: "fsop (s :: 'z kfs_scheme) k (Suc h)" and b: "b \<notin> held s"
  obtains i s1 s2 where "bread ROOTDEV b s = Ok (i, s1)" "b_data (bufs s1 ! i) = cont s b" "itable s1 = itable s" "sb s1 = sb s"
    "brelse i s1 = Ok s2" "fsop s2 k (Suc h)" "cont s2 = cont s" "logged s2 = logged s" "fs_ext s s2" "itable s2 = itable s"
proof (rule fs_bread [OF s b])
  fix i s1
  assume r: "bread ROOTDEV b s = Ok (i, s1)" "b_data (bufs s1 ! i) = cont s b" "slot s1 b = Some i" "fsop s1 k h"
    "held s1 = insert b (held s)" "cont s1 = cont s" "logged s1 = logged s" "fs_ext0 s s1" "itable s1 = itable s"
    "\<forall>c\<in>held s. slot s1 c = slot s c"
  have "b \<in> logged s1 \<or> cont s1 b = disk s1 b" using fsopD(8) [OF s _ b] r(6,7,8) by (auto simp: fs_ext0_def)
  then obtain s2 where q: "brelse i s1 = Ok s2" "fsop s2 k (Suc h)" "held s2 = held s1 - {b}" "cont s2 = cont s1" "logged s2 = logged s1"
    "fs_ext0 s1 s2" "slot s2 = slot s1" "itable s2 = itable s1"
    using fs_brelse [OF r(4) _ r(3)] r(5) by (metis insertI1)
  have "fs_ext s s2" using r(5,10) q(3,7) b fs_ext0_trans [OF r(8) q(6)] by (auto simp: fs_ext_def)
  then show thesis using that [OF r(1,2,9) _ q(1,2)] r(6-9) q(4,5,8) by (simp add: fs_ext0_def)
qed

lemma fs_update:
  assumes s: "fsop (s :: 'z kfs_scheme) (Suc k) (Suc h)" and b: "b \<notin> held s" "b \<notin> logreg s"
  obtains i s1 s2 s3 where "bread ROOTDEV b s = Ok (i, s1)" "b_data (bufs s1 ! i) = cont s b" "itable s1 = itable s" "sb s1 = sb s"
    "log_write i (upd_data i f s1) = Ok s2" "brelse i s2 = Ok s3" "fsop s3 k (Suc h)" "cont s3 = (cont s)(b := f (cont s b))"
    "logged s3 = insert b (logged s)" "fs_ext s s3" "itable s3 = itable s"
proof (rule fs_bread [OF s b(1)])
  fix i s1
  assume r: "bread ROOTDEV b s = Ok (i, s1)" "b_data (bufs s1 ! i) = cont s b" "slot s1 b = Some i" "fsop s1 (Suc k) h"
    "held s1 = insert b (held s)" "cont s1 = cont s" "logged s1 = logged s" "fs_ext0 s s1" "itable s1 = itable s"
    "\<forall>c\<in>held s. slot s1 c = slot s c"
  have h: "b \<in> held s1" "b \<notin> logreg s1" using r(5,8) b(2) by (auto simp: fs_ext0_def)
  obtain s2 where u: "log_write i (upd_data i f s1) = Ok s2" "fsop s2 k h" "cont s2 = (cont s1)(b := f (cont s1 b))"
    "logged s2 = insert b (logged s1)" "fs_ext s1 s2" "slot s2 = slot s1" "itable s2 = itable s1"
    by (rule fs_log [OF r(4) h(1) r(3) h(2)])
  have "b \<in> held s2" "slot s2 b = Some i" using u(6) r(3) h(1) fs_extD(4) [OF u(5)] by simp_all
  then obtain s3 where q: "brelse i s2 = Ok s3" "fsop s3 k (Suc h)" "held s3 = held s2 - {b}" "cont s3 = cont s2" "logged s3 = logged s2"
    "fs_ext0 s2 s3" "slot s3 = slot s2" "itable s3 = itable s2"
    using fs_brelse [OF u(2)] u(4) by (metis insertI1)
  have "fs_ext0 s1 s2" using u(5) by (simp add: fs_ext_def)
  then have "fs_ext s s3" using r(5,10) u(6) q(3,7) b(1) fs_ext0_trans [OF fs_ext0_trans [OF r(8)] q(6)] fs_extD(4) [OF u(5)]
    by (auto simp: fs_ext_def)
  then show thesis using that [OF r(1,2,9) _ u(1) q(1,2)] r(6-9) u(3,4,7) q(4,5,8) by (simp add: fs_ext0_def)
qed

section \<open>The block bitmap\<close>

definition in_use :: "'z kfs_scheme \<Rightarrow> uint32 \<Rightarrow> bool" where
  "in_use s b = bmap_bit (cont s (BBLOCK b (sb s))) (unat b mod BPB)"

lemma bmap_bit_bit: "bmap_bit d i \<longleftrightarrow> bit (d (i div 8)) (i mod 8)"
  by (simp add: bmap_bit_def bit_iff_and_push_bit_not_eq_0)

lemma div_mod_8: "(i :: nat) div 8 = j div 8 \<Longrightarrow> i mod 8 = j mod 8 \<Longrightarrow> i = j"
  by (metis div_mod_decomp)

lemma bmap_bit_set [simp]: "bmap_bit (set_bmap_bit i d) j \<longleftrightarrow> j = i \<or> bmap_bit d j"
proof (cases "j div 8 = i div 8")
  case True
  then have "j = i \<longleftrightarrow> j mod 8 = i mod 8" using div_mod_8 by blast
  then show ?thesis using True by (simp add: bmap_bit_bit set_bmap_bit_def bit_simps) blast
qed (auto simp: bmap_bit_bit set_bmap_bit_def)

lemma bmap_bit_clear [simp]: "bmap_bit (clear_bmap_bit i d) j \<longleftrightarrow> j \<noteq> i \<and> bmap_bit d j"
proof (cases "j div 8 = i div 8")
  case True
  then have "j = i \<longleftrightarrow> j mod 8 = i mod 8" using div_mod_8 by blast
  then show ?thesis using True by (simp add: bmap_bit_bit clear_bmap_bit_def bit_simps) blast
qed (auto simp: bmap_bit_bit clear_bmap_bit_def)

lemma BPB_eq: "BPB = 8192"
  by (simp add: BPB_def BSIZE_def)

lemma BBLOCK_eq: "BBLOCK b x = BBLOCK c x \<longleftrightarrow> unat b div BPB = unat c div BPB"
  by (simp add: BBLOCK_def BPB_eq) (simp add: word_unat_eq_iff unat_div)

lemma BBLOCK_mod: "BBLOCK b x = BBLOCK c x \<Longrightarrow> unat b mod BPB = unat c mod BPB \<Longrightarrow> b = c"
  unfolding BBLOCK_eq by (metis div_mod_decomp word_unat_eq_iff)

text \<open>
  What balloc and bfree need of the layout that mkfs makes: the bitmap is outside the log, and
  free blocks belong neither to the log nor to the bitmap. Nobody holds a bitmap block or a free block.
\<close>

definition bitmap_wf :: "'z kfs_scheme \<Rightarrow> bool" where
  "bitmap_wf s \<longleftrightarrow> (\<forall>b < sb_size (sb s). BBLOCK b (sb s) \<notin> logreg s \<and> BBLOCK b (sb s) \<notin> held s \<and>
     (\<not> in_use s b \<longrightarrow> b \<notin> logreg s \<and> b \<notin> held s \<and> (\<forall>c < sb_size (sb s). b \<noteq> BBLOCK c (sb s))))"

lemma in_use_cong: "cont s' = cont s \<Longrightarrow> sb s' = sb s \<Longrightarrow> in_use s' b = in_use s b"
  by (simp add: in_use_def)

lemma bitmap_wf_cong: "cont s' = cont s \<Longrightarrow> fs_ext s s' \<Longrightarrow> bitmap_wf s' = bitmap_wf s"
  using fs_extD [of s s'] by (simp add: bitmap_wf_def in_use_def)

text \<open>Zeroing a block.\<close>

lemma bzero_ok:
  assumes "fsop (s :: 'z kfs_scheme) (Suc k) (Suc h)" "b \<notin> held s" "b \<notin> logreg s"
  obtains s' where "bzero ROOTDEV b s = Ok s'" "fsop s' k (Suc h)" "cont s' = (cont s)(b := \<lambda>_. 0)" "fs_ext s s'" "itable s' = itable s"
    "logged s' = insert b (logged s)"
  by (rule fs_update [OF assms, of "\<lambda>_ _. 0"]) (rule that, auto simp: bzero_def)

lemma in_use_block:
  assumes "b = j * BPB" "i < BPB" "b + i < 2 ^ 32"
  shows "in_use s (word_of_nat (b + i)) \<longleftrightarrow> bmap_bit (cont s (BBLOCK (word_of_nat b) (sb s))) i"
    and "BBLOCK (word_of_nat (b + i)) x = BBLOCK (word_of_nat b) x"
    and "unat (word_of_nat (b + i) :: uint32) mod BPB = i"
proof -
  have u: "unat (word_of_nat (b + i) :: uint32) = b + i" "unat (word_of_nat b :: uint32) = b"
    using assms(3) by (auto intro!: unat_of_nat_small simp del: of_nat_add)
  show e: "BBLOCK (word_of_nat (b + i)) x = BBLOCK (word_of_nat b) x" for x
    unfolding BBLOCK_eq u using assms by simp
  show m: "unat (word_of_nat (b + i) :: uint32) mod BPB = i" unfolding u using assms by simp
  show "in_use s (word_of_nat (b + i)) \<longleftrightarrow> bmap_bit (cont s (BBLOCK (word_of_nat b) (sb s))) i"
    unfolding in_use_def e m ..
qed

text \<open>What balloc leaves when it takes block \<open>b\<close>.\<close>

definition balloc_post :: "'z kfs_scheme \<Rightarrow> uint32 \<Rightarrow> 'z kfs_scheme \<Rightarrow> bool" where
  "balloc_post s b s' \<longleftrightarrow> cont s' = (cont s)(BBLOCK b (sb s) := set_bmap_bit (unat b mod BPB) (cont s (BBLOCK b (sb s))), b := \<lambda>_. 0) \<and>
     fs_ext s s' \<and> itable s' = itable s \<and> logged s' = {b, BBLOCK b (sb s)} \<union> logged s"

lemma find_upt_shift: "find P [b..<b + n] = map_option ((+) b) (find (\<lambda>i. P (b + i)) [0..<n])"
proof -
  have "[b..<b + n] = map ((+) b) [0..<n]" by (induction n) auto
  moreover have "find P (map f xs) = map_option f (find (P \<circ> f) xs)" for f :: "nat \<Rightarrow> nat" and xs by (induction xs) auto
  ultimately show ?thesis by (simp add: comp_def)
qed

lemma find_append: "find P (xs @ ys) = (case find P xs of None \<Rightarrow> find P ys | Some x \<Rightarrow> Some x)"
  by (induction xs) auto

lemma balloc_loop_ok:
  assumes "fsop (s :: 'z kfs_scheme) (Suc (Suc k)) (Suc h)" "bitmap_wf s" "\<forall>b\<in>set bs. BPB dvd b \<and> b < unat (sb_size (sb s))"
  defines "blocks \<equiv> concat (map (\<lambda>b. [b..<b + min BPB (unat (sb_size (sb s)) - b)]) bs)"
  shows "case find (\<lambda>b. \<not> in_use s (word_of_nat b)) blocks of
      None \<Rightarrow> balloc_loop ROOTDEV bs s = Panic ''balloc: out of blocks''
    | Some b \<Rightarrow> \<exists>s'. balloc_loop ROOTDEV bs s = Ok (word_of_nat b, s') \<and> fsop s' k (Suc h) \<and> balloc_post s (word_of_nat b) s'"
  using assms(1-3) unfolding blocks_def
proof (induction bs arbitrary: s)
  case Nil
  then show ?case by simp
next
  case (Cons b bs)
  let ?sz = "unat (sb_size (sb s))" and ?w = "word_of_nat b :: uint32"
  let ?r = "[0..<min BPB (?sz - b)]" and ?B = "BBLOCK ?w (sb s)"
  obtain j where b: "b = j * BPB" "b < ?sz" using Cons.prems(3) by (auto simp: dvd_def mult.commute)
  have sz: "?sz < 2 ^ 32" using unsigned_less [of "sb_size (sb s)"] by simp
  have iu: "in_use s (word_of_nat (b + i)) \<longleftrightarrow> bmap_bit (cont s ?B) i" "BBLOCK (word_of_nat (b + i)) (sb s) = ?B"
    "unat (word_of_nat (b + i) :: uint32) mod BPB = i" "word_of_nat (b + i) < sb_size (sb s)" if "i \<in> set ?r" for i
  proof -
    have i: "i < BPB" "b + i < 2 ^ 32" "b + i < ?sz" using that sz by auto
    show "in_use s (word_of_nat (b + i)) \<longleftrightarrow> bmap_bit (cont s ?B) i" "BBLOCK (word_of_nat (b + i)) (sb s) = ?B"
      "unat (word_of_nat (b + i) :: uint32) mod BPB = i" using in_use_block [OF b(1) i(1,2)] by blast+
    show "word_of_nat (b + i) < sb_size (sb s)" unfolding word_less_nat_alt using i by (subst unat_of_nat_small) auto
  qed
  have f: "find (\<lambda>b. \<not> in_use s (word_of_nat b)) [b..<b + min BPB (?sz - b)] =
    map_option ((+) b) (find (\<lambda>i. \<not> bmap_bit (cont s ?B) i) ?r)"
    unfolding find_upt_shift by (rule arg_cong [where f = "map_option ((+) b)"], rule find_cong) (use iu(1) in auto)
  have w0: "?w < sb_size (sb s)" using b(2) sz by (simp add: word_less_nat_alt unat_of_nat_small)
  show ?case
  proof (cases "find (\<lambda>i. \<not> bmap_bit (cont s ?B) i) ?r")
    case None
    obtain i s1 s2 where r: "bread ROOTDEV ?B s = Ok (i, s1)" "b_data (bufs s1 ! i) = cont s ?B" "sb s1 = sb s"
      "brelse i s1 = Ok s2" "fsop s2 (Suc (Suc k)) (Suc h)" "cont s2 = cont s" "logged s2 = logged s" "fs_ext s s2" "itable s2 = itable s"
      by (rule fs_read [OF Cons.prems(1), of ?B]) (use Cons.prems(2) w0 in \<open>auto simp: bitmap_wf_def\<close>)
    have e: "balloc_loop ROOTDEV (b # bs) s = balloc_loop ROOTDEV bs s2" using r None by simp
    note x = fs_extD(1) [OF r(8)]
    have p: "balloc_post s2 a s' \<Longrightarrow> balloc_post s a s'" for a s'
      using r(6-9) x by (auto simp: balloc_post_def elim: fs_ext_trans)
    have "bitmap_wf s2" using Cons.prems(2) bitmap_wf_cong [OF r(6,8)] by simp
    note ih = Cons.IH [OF r(5) this, unfolded x in_use_cong [OF r(6) x], folded e]
    have "find (\<lambda>b. \<not> in_use s (word_of_nat b)) [b..<b + min BPB (?sz - b)] = None" using f None by simp
    then show ?thesis using ih Cons.prems(3) p by (fastforce simp: find_append split: option.splits)
  next
    case (Some i)
    then have i: "i \<in> set ?r" "\<not> bmap_bit (cont s ?B) i" by (auto simp: find_Some_iff)
    let ?a = "word_of_nat (b + i) :: uint32"
    have nl: "?B \<notin> held s" "?B \<notin> logreg s" "?a \<notin> held s" "?a \<notin> logreg s" "?a \<noteq> ?B"
      using Cons.prems(2) iu [OF i(1)] i(2) w0 unfolding bitmap_wf_def by blast+
    obtain g s1 s2 s3 where r: "bread ROOTDEV ?B s = Ok (g, s1)" "b_data (bufs s1 ! g) = cont s ?B" "sb s1 = sb s"
      "log_write g (upd_data g (set_bmap_bit i) s1) = Ok s2" "brelse g s2 = Ok s3" "fsop s3 (Suc k) (Suc h)"
      "cont s3 = (cont s)(?B := set_bmap_bit i (cont s ?B))" "logged s3 = insert ?B (logged s)" "fs_ext s s3" "itable s3 = itable s"
      by (rule fs_update [OF Cons.prems(1) nl(1,2), of "set_bmap_bit i"]) blast
    have "?a \<notin> held s3" "?a \<notin> logreg s3" using nl(3,4) fs_extD(3,4) [OF r(9)] by simp_all
    then obtain s4 where z: "bzero ROOTDEV ?a s3 = Ok s4" "fsop s4 k (Suc h)" "cont s4 = (cont s3)(?a := \<lambda>_. 0)" "fs_ext s3 s4"
      "itable s4 = itable s3" "logged s4 = insert ?a (logged s3)"
      using bzero_ok [OF r(6)] by metis
    have "balloc_loop ROOTDEV (b # bs) s = Ok (?a, s4)" using r z(1) Some by simp
    moreover have "balloc_post s ?a s4" using r(7-10) z(3-6) iu [OF i(1)] by (auto simp: balloc_post_def elim: fs_ext_trans)
    ultimately show ?thesis using f Some z(2) by (auto simp: find_append)
  qed
qed

lemma upto_blocks:
  "concat (map (\<lambda>b. [b..<b + min N (n - b)]) (map (\<lambda>k. k * N) [0..<m])) = [0..<min n (m * N)]"
proof (induction m)
  case (Suc m)
  show ?case
  proof (cases "m * N \<le> n")
    case True
    then have e: "min n (Suc m * N) = m * N + min N (n - m * N)" "min n (m * N) = m * N" by auto
    show ?thesis unfolding e(1) using Suc e(2) by (simp add: upt_add_eq_append [of 0 "m * N"])
  next
    case False
    then have "min n (m * N) = n" "min n (Suc m * N) = n" by auto
    then show ?thesis using Suc False by simp
  qed
qed simp

lemma balloc_post_use:
  assumes p: "balloc_post s b s'" and f: "\<not> in_use s b" "b < sb_size (sb s)" "bitmap_wf s"
  shows "c < sb_size (sb s) \<Longrightarrow> in_use s' c \<longleftrightarrow> c = b \<or> in_use s c" "bitmap_wf s'"
proof -
  have e: "sb s' = sb s" "logreg s' = logreg s" "held s' = held s" using p fs_extD [of s s'] by (simp_all add: balloc_post_def)
  have nb: "c < sb_size (sb s) \<Longrightarrow> b \<noteq> BBLOCK c (sb s)" for c using f by (simp add: bitmap_wf_def)
  show u: "in_use s' c \<longleftrightarrow> c = b \<or> in_use s c" if "c < sb_size (sb s)" for c
    using p nb [OF that] BBLOCK_mod [of c "sb s" b] e by (auto simp: in_use_def balloc_post_def)
  show "bitmap_wf s'" using f(3) u unfolding bitmap_wf_def e by blast
qed

lemma balloc_find:
  assumes "fsop (s :: 'z kfs_scheme) (Suc (Suc k)) (Suc h)" "bitmap_wf s"
  shows "case find (\<lambda>b. \<not> in_use s (word_of_nat b)) [0..<unat (sb_size (sb s))] of
      None \<Rightarrow> balloc ROOTDEV s = Panic ''balloc: out of blocks''
    | Some b \<Rightarrow> \<exists>s'. balloc ROOTDEV s = Ok (word_of_nat b, s') \<and> fsop s' k (Suc h) \<and> balloc_post s (word_of_nat b) s'"
proof -
  let ?sz = "unat (sb_size (sb s))"
  let ?bs = "map (\<lambda>k. k * BPB) [0..<(?sz + BPB - 1) div BPB]"
  have lt: "k * BPB < ?sz" if "k < (?sz + BPB - 1) div BPB" for k
    using that by (simp add: BPB_eq)
  have "min ?sz ((?sz + BPB - 1) div BPB * BPB) = ?sz" by (simp add: BPB_eq min_def)
  then have c: "concat (map (\<lambda>b. [b..<b + min BPB (?sz - b)]) ?bs) = [0..<?sz]" using upto_blocks [of BPB ?sz] by simp
  have bs: "\<forall>b\<in>set ?bs. BPB dvd b \<and> b < ?sz" using lt by auto
  show ?thesis by (rule balloc_loop_ok [OF assms bs, unfolded c, folded balloc_def])
qed

lemma find_free:
  assumes "find (\<lambda>b. \<not> in_use s (word_of_nat b)) [0..<unat (sb_size (sb s))] = Some n"
  shows "\<not> in_use s (word_of_nat n)" "word_of_nat n < sb_size (sb s)"
proof -
  have n: "n < unat (sb_size (sb s))" "\<not> in_use s (word_of_nat n)" using assms by (auto simp: find_Some_iff)
  show "\<not> in_use s (word_of_nat n)" by (rule n)
  show "word_of_nat n < sb_size (sb s)"
    using n(1) unsigned_less [of "sb_size (sb s)", where 'a = nat] by (simp add: word_less_nat_alt unat_of_nat_small)
qed

text \<open>With a free block left, balloc returns.\<close>

definition free_blocks :: "'z kfs_scheme \<Rightarrow> uint32 set" where
  "free_blocks s = {b. b < sb_size (sb s) \<and> \<not> in_use s b}"

lemma balloc_ok:
  assumes s: "fsop (s :: 'z kfs_scheme) (Suc (Suc k)) (Suc h)" "bitmap_wf s" and f: "free_blocks s \<noteq> {}"
  obtains b s' where "balloc ROOTDEV s = Ok (b, s')" "fsop s' k (Suc h)" "balloc_post s b s'" "b \<in> free_blocks s"
    "free_blocks s' = free_blocks s - {b}" "bitmap_wf s'"
proof -
  obtain c where c: "c < sb_size (sb s)" "\<not> in_use s c" using f by (auto simp: free_blocks_def)
  then have "find (\<lambda>b. \<not> in_use s (word_of_nat b)) [0..<unat (sb_size (sb s))] \<noteq> None"
    by (auto simp: find_None_iff word_less_nat_alt intro!: exI [of _ "unat c"])
  then obtain n where n: "find (\<lambda>b. \<not> in_use s (word_of_nat b)) [0..<unat (sb_size (sb s))] = Some n" by blast
  then obtain s' where r: "balloc ROOTDEV s = Ok (word_of_nat n, s')" "fsop s' k (Suc h)" "balloc_post s (word_of_nat n) s'"
    using balloc_find [OF s] by auto
  note u = balloc_post_use [OF r(3) find_free [OF n] s(2)]
  have "sb s' = sb s" using r(3) fs_extD(1) [of s s'] by (simp add: balloc_post_def)
  then show ?thesis using that [OF r] find_free [OF n] u by (auto simp: free_blocks_def)
qed

section \<open>Inodes on disk\<close>

definition disk_inode :: "'z kfs_scheme \<Rightarrow> uint32 \<Rightarrow> dinode" where
  "disk_inode s i = get_dinode (cont s (IBLOCK i (sb s))) (dinode_off i)"

lemma IPB_eq: "IPB = 16"
  by (simp add: IPB_def BSIZE_def)

lemma IBLOCK_eq: "IBLOCK i x = IBLOCK j x \<longleftrightarrow> unat i div IPB = unat j div IPB"
  by (simp add: IBLOCK_def IPB_eq) (simp add: word_unat_eq_iff unat_div)

lemma IBLOCK_mod: "IBLOCK i x = IBLOCK j x \<Longrightarrow> unat i mod IPB = unat j mod IPB \<Longrightarrow> i = j"
  unfolding IBLOCK_eq by (metis div_mod_decomp word_unat_eq_iff)

lemma put_addrs_rd:
  fixes k :: nat and d :: block
  assumes "n \<le> length as"
  defines "d' \<equiv> fold (\<lambda>i d. wr32 d (k + 4 * i) (as ! i)) [0..<n] d"
  shows "i < n \<Longrightarrow> rd32 d' (k + 4 * i) = as ! i" "j + 4 \<le> k \<or> k + 4 * n \<le> j \<Longrightarrow> rd32 d' j = rd32 d j"
    "j + 2 \<le> k \<or> k + 4 * n \<le> j \<Longrightarrow> rd16 d' j = rd16 d j"
  unfolding d'_def using assms(1)
proof (induction n)
  case (Suc n)
  { case 1 then show ?case using Suc.IH by (cases "i = n") (auto simp: rd32_wr32_other) }
  { case 2 then show ?case using Suc.IH by (auto simp: rd32_wr32_other) }
  { case 3 then show ?case using Suc.IH by (auto simp: rd16_wr32_other) }
qed simp_all

lemma get_put_dinode:
  assumes "length (di_addrs di) = Suc NDIRECT"
  shows "get_dinode (put_dinode di k d) k = di"
    and "j + 64 \<le> k \<or> k + 64 \<le> j \<Longrightarrow> get_dinode (put_dinode di k d) j = get_dinode d j"
proof -
  have a: "length (di_addrs di) = 13" using assms by (simp add: NDIRECT_def)
  note p = put_addrs_rd [where as = "di_addrs di" and n = "length (di_addrs di)", OF order_refl, folded put_addrs_def]
  have "map (\<lambda>i. rd32 (put_dinode di k d) (k + 12 + 4 * i)) [0..<Suc NDIRECT] = map (\<lambda>i. di_addrs di ! i) [0..<Suc NDIRECT]"
    using p(1) assms by (intro map_cong refl) (auto simp: put_dinode_def)
  also have "\<dots> = di_addrs di" unfolding assms [symmetric] by (rule map_nth)
  finally have "map (\<lambda>i. rd32 (put_dinode di k d) (k + 12 + 4 * i)) [0..<Suc NDIRECT] = di_addrs di" .
  then show "get_dinode (put_dinode di k d) k = di"
    by (simp add: get_dinode_def) (simp add: put_dinode_def p(2,3) a rd32_wr16_other rd16_wr32_other rd16_wr16_other)
  assume "j + 64 \<le> k \<or> k + 64 \<le> j"
  then show "get_dinode (put_dinode di k d) j = get_dinode d j"
    by (auto simp: get_dinode_def put_dinode_def p(2,3) a NDIRECT_def rd32_wr16_other rd16_wr32_other rd16_wr16_other rd32_wr32_other)
qed

lemma dinode_off_apart:
  "unat i mod IPB \<noteq> unat j mod IPB \<Longrightarrow> dinode_off j + 64 \<le> dinode_off i \<or> dinode_off i + 64 \<le> dinode_off j"
  by (auto simp: dinode_off_def)

lemma disk_inode_put:
  assumes "cont s' = (cont s)(IBLOCK i (sb s) := put_dinode di (dinode_off i) (cont s (IBLOCK i (sb s))))" "sb s' = sb s"
    "length (di_addrs di) = Suc NDIRECT"
  shows "disk_inode s' j = (if j = i then di else disk_inode s j)"
proof (cases "IBLOCK j (sb s) = IBLOCK i (sb s) \<and> j \<noteq> i")
  case True
  then have "dinode_off j + 64 \<le> dinode_off i \<or> dinode_off i + 64 \<le> dinode_off j"
    by (intro dinode_off_apart) (metis IBLOCK_mod)
  then show ?thesis using True assms(1,2) get_put_dinode(2) [OF assms(3)] by (simp add: disk_inode_def)
qed (use assms(1,2) get_put_dinode(1) [OF assms(3)] in \<open>auto simp: disk_inode_def\<close>)

text \<open>Locking an inode only affects its entry.\<close>

lemma lock_inode_ok:
  assumes "\<not> sl_locked (i_lock (itable s ! ip))" "ip < length (itable s)"
  shows "\<exists>lk. lock_inode ip s = Ok (upd_inode ip (\<lambda>x. x\<lparr>i_lock := lk\<rparr>) s) \<and> holdingsleep lk (me s)"
  using assms by (auto simp: lock_inode_def acquiresleep_def holdingsleep_def)

lemma upd_inode_log [simp]:
  "binv (upd_inode ip f s) = binv s" "cont (upd_inode ip f s) = cont s" "held (upd_inode ip f s) = held s"
  "refs (upd_inode ip f s) = refs s" "logged (upd_inode ip f s) = logged s" "logreg (upd_inode ip f s) = logreg s"
  "fsop (upd_inode ip f s) k h = fsop s k h" "mine (upd_inode ip f s) = mine s" "sb (upd_inode ip f s) = sb s" "me (upd_inode ip f s) = me s"
  "itable (upd_inode ip f s) = (itable s)[ip := f (itable s ! ip)]" "disk (upd_inode ip f s) = disk s"
  "procs (upd_inode ip f s) = procs s" "cur (upd_inode ip f s) = cur s"
proof -
  let ?s = "upd_inode ip f s"
  have sl: "slot ?s = slot s" by (simp add: slot_def fun_eq_iff upd_inode_def)
  show v: "binv ?s = binv s" "cont ?s = cont s" "held ?s = held s" "refs ?s = refs s" "mine ?s = mine s"
    by (simp_all add: binv_def cont_def held_def mine_def me_def myproc_def refs_def sl fun_eq_iff) (simp_all add: upd_inode_def split: option.split)
  have hm: "home ?s = home s" by (simp add: home_def fun_eq_iff upd_inode_def)
  show l: "logreg ?s = logreg s" by (rule logreg_cong) (simp add: upd_inode_def)
  show "logged ?s = logged s" using hm by (simp add: logged_def) (simp add: upd_inode_def)
  have g: "lh_n ?s = lh_n s" "lg_dev ?s = lg_dev s" "lh_block ?s = lh_block s" "disk ?s = disk s" "lg_start ?s = lg_start s"
    "lg_committing ?s = lg_committing s" "lg_outstanding ?s = lg_outstanding s" "lg_size ?s = lg_size s" "bufs ?s = bufs s"
    by (simp_all add: upd_inode_def)
  show "fsop ?s k h = fsop s k h" unfolding fsop_def txn_def tran_def v hm l g sl ..
  show "sb ?s = sb s" "me ?s = me s" "itable ?s = (itable s)[ip := f (itable s ! ip)]" "disk ?s = disk s"
    "procs ?s = procs s" "cur ?s = cur s"
    by (simp_all add: upd_inode_def me_def myproc_def)
qed

end
