(* ===== verification/FileSpec.thy ===== *)
theory FileSpec
  imports FsSpec
begin

text \<open>
  The contents of files. The blocks of an inode sit at positions: the data blocks at 0 to
  \<^verbatim>\<open>MAXFILE - 1\<close> and the indirect block at \<^verbatim>\<open>MAXFILE\<close>. A byte of a block that is not allocated reads as
  zero, so that allocating blocks does not change the contents.
\<close>

section \<open>Positions and contents\<close>

definition fb :: "'z kfs_scheme \<Rightarrow> nat \<Rightarrow> nat \<Rightarrow> uint32" where
  "fb s ip p =
     (let as = i_addrs (itable s ! ip)
      in if p < NDIRECT then as ! p
         else if p = MAXFILE then as ! NDIRECT
         else if as ! NDIRECT = 0 then 0 else rd32 (cont s (as ! NDIRECT)) (4 * (p - NDIRECT)))"

definition file_byte :: "'z kfs_scheme \<Rightarrow> nat \<Rightarrow> nat \<Rightarrow> uchar" where
  "file_byte s ip j = (let b = fb s ip (j div BSIZE) in if b = 0 then 0 else cont s b (j mod BSIZE))"

text \<open>The block of an inode with its number, and the blocks of the bitmap.\<close>

definition iblock :: "'z kfs_scheme \<Rightarrow> nat \<Rightarrow> uint32" where
  "iblock s ip = IBLOCK (i_inum (itable s ! ip)) (sb s)"

definition bitmap_blocks :: "'z kfs_scheme \<Rightarrow> uint32 set" where
  "bitmap_blocks s = {BBLOCK c (sb s) |c. c < sb_size (sb s)}"

text \<open>A data block: in use, outside the log, the bitmap, and the inode's own block.\<close>

definition good :: "'z kfs_scheme \<Rightarrow> nat \<Rightarrow> uint32 \<Rightarrow> bool" where
  "good s ip b \<longleftrightarrow> b < sb_size (sb s) \<and> in_use s b \<and> b \<notin> logreg s \<and> b \<notin> bitmap_blocks s \<and> b \<noteq> iblock s ip"

definition file_wf :: "'z kfs_scheme \<Rightarrow> nat \<Rightarrow> bool" where
  "file_wf s ip \<longleftrightarrow> ip < length (itable s) \<and> i_dev (itable s ! ip) = ROOTDEV \<and> length (i_addrs (itable s ! ip)) = Suc NDIRECT \<and>
     (\<forall>p\<le>MAXFILE. fb s ip p \<noteq> 0 \<longrightarrow> good s ip (fb s ip p)) \<and>
     (\<forall>p\<le>MAXFILE. \<forall>q\<le>MAXFILE. fb s ip p = fb s ip q \<longrightarrow> fb s ip p \<noteq> 0 \<longrightarrow> p = q) \<and>
     0 < sb_size (sb s) \<and> in_use s 0 \<and> iblock s ip < sb_size (sb s) \<and> in_use s (iblock s ip) \<and> iblock s ip \<notin> logreg s \<and>
     iblock s ip \<notin> bitmap_blocks s"

lemma sizes: "NDIRECT = 12" "NINDIRECT = 256" "MAXFILE = 268" "BSIZE = 1024"
  by (simp_all add: NDIRECT_def NINDIRECT_def MAXFILE_def BSIZE_def)

text \<open>The blocks of a file.\<close>

definition fblocks :: "'z kfs_scheme \<Rightarrow> nat \<Rightarrow> uint32 set" where
  "fblocks s ip = {fb s ip p |p. p \<le> MAXFILE \<and> fb s ip p \<noteq> 0}"

text \<open>
  \<open>fframe\<close>: a step that may give the file blocks which were free, and changes no block that
  someone else uses; \<open>fgrow\<close>: moreover, it does not change the contents of the file.
\<close>

definition fframe :: "'z kfs_scheme \<Rightarrow> nat \<Rightarrow> 'z kfs_scheme \<Rightarrow> bool" where
  "fframe s ip s' \<longleftrightarrow> file_wf s' ip \<and> bitmap_wf s' \<and> fs_ext s s' \<and>
     (\<exists>as. itable s' = (itable s)[ip := (itable s ! ip)\<lparr>i_addrs := as\<rparr>]) \<and>
     (\<forall>p\<le>MAXFILE. fb s ip p \<noteq> 0 \<longrightarrow> fb s' ip p = fb s ip p) \<and>
     fblocks s' ip \<subseteq> fblocks s ip \<union> free_blocks s \<and> free_blocks s' \<subseteq> free_blocks s \<and>
     (\<forall>b. b \<notin> fblocks s ip \<union> free_blocks s \<union> bitmap_blocks s \<longrightarrow> cont s' b = cont s b)"

definition fgrow :: "'z kfs_scheme \<Rightarrow> nat \<Rightarrow> 'z kfs_scheme \<Rightarrow> bool" where
  "fgrow s ip s' \<longleftrightarrow> fframe s ip s' \<and> (\<forall>j<MAXFILE * BSIZE. file_byte s' ip j = file_byte s ip j)"

lemma fframe_refl: "file_wf s ip \<Longrightarrow> bitmap_wf s \<Longrightarrow> fframe s ip s"
  by (auto simp: fframe_def intro!: exI [of _ "i_addrs (itable s ! ip)"])

lemma fframe_trans:
  assumes a: "fframe s ip s1" and b: "fframe s1 ip s2"
  shows "fframe s ip s2"
proof -
  obtain as where as: "itable s1 = (itable s)[ip := (itable s ! ip)\<lparr>i_addrs := as\<rparr>]" using a by (auto simp: fframe_def)
  obtain bs where bs: "itable s2 = (itable s1)[ip := (itable s1 ! ip)\<lparr>i_addrs := bs\<rparr>]" using b by (auto simp: fframe_def)
  have "ip < length (itable s2)" using b by (simp add: fframe_def file_wf_def)
  then have "itable s2 = (itable s)[ip := (itable s ! ip)\<lparr>i_addrs := bs\<rparr>]" using as bs by simp
  moreover have "bitmap_blocks s1 = bitmap_blocks s" using a fs_extD(1) [of s s1] by (simp add: fframe_def bitmap_blocks_def)
  moreover have "fs_ext s s2" using a b fs_ext_trans unfolding fframe_def by blast
  moreover have "fblocks s1 ip \<subseteq> fblocks s ip \<union> free_blocks s" "free_blocks s1 \<subseteq> free_blocks s"
    "fblocks s2 ip \<subseteq> fblocks s1 ip \<union> free_blocks s1" "free_blocks s2 \<subseteq> free_blocks s1" using a b unfolding fframe_def by blast+
  ultimately show ?thesis using a b unfolding fframe_def by (auto; blast)
qed

lemma fgrow_refl: "file_wf s ip \<Longrightarrow> bitmap_wf s \<Longrightarrow> fgrow s ip s"
  by (simp add: fgrow_def fframe_refl)

lemma fgrow_trans: "fgrow s ip s1 \<Longrightarrow> fgrow s1 ip s2 \<Longrightarrow> fgrow s ip s2"
  using fframe_trans by (auto simp: fgrow_def)

section \<open>Adding a block\<close>

text \<open>The file gets the free block \<open>a\<close>, zeroed, at a position that had none.\<close>

lemma fgrow_add:
  assumes wf: "file_wf s ip" "bitmap_wf s'" and e: "fs_ext s s'"
    and it: "itable s' = (itable s)[ip := (itable s ! ip)\<lparr>i_addrs := as\<rparr>]" "length as = Suc NDIRECT"
    and p: "p \<le> MAXFILE" "fb s ip p = 0" and fb: "\<And>q. q \<le> MAXFILE \<Longrightarrow> fb s' ip q = (if q = p then a else fb s ip q)"
    and a: "a \<in> free_blocks s" "a \<notin> logreg s" "a \<notin> bitmap_blocks s" "cont s' a = (\<lambda>_. 0)"
    and use: "\<And>c. c < sb_size (sb s) \<Longrightarrow> in_use s' c \<longleftrightarrow> c = a \<or> in_use s c"
    and c: "\<And>b. b \<noteq> a \<Longrightarrow> b \<notin> bitmap_blocks s \<Longrightarrow> b \<noteq> fb s ip MAXFILE \<or> b = 0 \<Longrightarrow> cont s' b = cont s b"
  shows "fgrow s ip s'"
proof -
  note w = wf(1) [unfolded file_wf_def]
  note x = fs_extD [OF e]
  have bb: "bitmap_blocks s' = bitmap_blocks s" using x by (simp add: bitmap_blocks_def)
  have i: "itable s' ! ip = (itable s ! ip)\<lparr>i_addrs := as\<rparr>" "ip < length (itable s')" using it w by auto
  then have ib: "iblock s' ip = iblock s ip" using x by (simp add: iblock_def)
  have af: "a < sb_size (sb s)" "\<not> in_use s a" using a(1) by (auto simp: free_blocks_def)
  then have an: "a \<noteq> 0" "a \<noteq> iblock s ip" using w by auto
  have g: "good s' ip b" if "good s ip b" for b using that use x bb ib by (auto simp: good_def)
  have ga: "good s' ip a" using af an a use x bb ib by (auto simp: good_def)
  have nf: "fb s ip q \<noteq> a" if "q \<le> MAXFILE" for q using w that af an by (metis good_def)
  have wf': "file_wf s' ip" unfolding file_wf_def
  proof (intro conjI allI impI)
    show "good s' ip (fb s' ip q)" if "q \<le> MAXFILE" "fb s' ip q \<noteq> 0" for q
      using that fb [OF that(1)] g ga w by (auto split: if_splits)
    show "q = r" if "q \<le> MAXFILE" "r \<le> MAXFILE" "fb s' ip q = fb s' ip r" "fb s' ip q \<noteq> 0" for q r
    proof (cases "q = p \<or> r = p")
      case True
      then show ?thesis using that fb nf by (metis (full_types))
    next
      case False
      then show ?thesis using that fb w by (metis (full_types))
    qed
  qed (use w i it x use bb ib in auto)
  have bt: "file_byte s' ip j = file_byte s ip j" if "j < MAXFILE * BSIZE" for j
  proof -
    let ?q = "j div BSIZE"
    have q: "?q < MAXFILE" using that by (simp add: less_mult_imp_div_less)
    show ?thesis
    proof (cases "?q = p \<or> fb s ip ?q = 0")
      case True
      then show ?thesis using fb [of ?q] q a(4) p(2) by (auto simp: file_byte_def Let_def)
    next
      case False
      then have "good s ip (fb s ip ?q)" "fb s ip ?q \<noteq> fb s ip MAXFILE" using w q
        by (auto simp: less_imp_le) (metis less_imp_le nat_neq_iff order_refl)
      then have "cont s' (fb s ip ?q) = cont s (fb s ip ?q)" using nf [of ?q] q by (intro c) (auto simp: good_def)
      then show ?thesis using False fb [of ?q] q by (simp add: file_byte_def)
    qed
  qed
  have "fblocks s' ip \<subseteq> fblocks s ip \<union> free_blocks s" using fb a(1) by (auto simp: fblocks_def split: if_splits)
  moreover have "fb s' ip q = fb s ip q" if "q \<le> MAXFILE" "fb s ip q \<noteq> 0" for q using that fb p(2) by auto
  moreover have "free_blocks s' \<subseteq> free_blocks s" using use x by (auto simp: free_blocks_def)
  moreover have "cont s' b = cont s b" if "b \<notin> fblocks s ip \<union> free_blocks s \<union> bitmap_blocks s" for b
    using that a(1) by (intro c) (auto simp: fblocks_def)
  ultimately show ?thesis using wf' wf(2) e it(1) bt by (auto simp: fgrow_def fframe_def)
qed

section \<open>bmap\<close>

lemma finite_free [simp]: "finite (free_blocks s)"
  by (rule finite_subset [OF subset_UNIV]) simp

lemma balloc_post_cont:
  assumes "balloc_post s a s'" "a \<in> free_blocks s" "bitmap_wf s"
  shows "cont s' a = (\<lambda>_. 0)" "b \<noteq> a \<Longrightarrow> b \<notin> bitmap_blocks s \<Longrightarrow> cont s' b = cont s b" "a \<notin> logreg s" "a \<notin> bitmap_blocks s"
  using assms by (auto simp: balloc_post_def bitmap_blocks_def free_blocks_def bitmap_wf_def)

text \<open>A new block for an empty entry of the inode: a direct block or the indirect block.\<close>

lemma addr_alloc:
  assumes s: "fsop (s :: 'z kfs_scheme) (Suc (Suc k)) (Suc h)" "bitmap_wf s" "file_wf s ip" "free_blocks s \<noteq> {}"
    and n: "n \<le> NDIRECT" "i_addrs (itable s ! ip) ! n = 0"
  obtains a s1 s2 where "balloc ROOTDEV s = Ok (a, s1)" "s2 = upd_inode ip (\<lambda>x. x\<lparr>i_addrs := (i_addrs x)[n := a]\<rparr>) s1"
    "fsop s2 k (Suc h)" "fgrow s ip s2" "fb s2 ip (if n < NDIRECT then n else MAXFILE) = a" "a \<noteq> 0"
    "card (free_blocks s) \<le> Suc (card (free_blocks s2))" "a \<in> free_blocks s"
    "\<forall>q\<le>MAXFILE. q \<noteq> (if n < NDIRECT then n else MAXFILE) \<longrightarrow> fb s2 ip q = fb s ip q"
proof -
  obtain a s1 where r: "balloc ROOTDEV s = Ok (a, s1)" "fsop s1 k (Suc h)" "balloc_post s a s1" "a \<in> free_blocks s"
    "free_blocks s1 = free_blocks s - {a}" "bitmap_wf s1"
    by (rule balloc_ok [OF s(1,2,4)])
  note c = balloc_post_cont [OF r(3,4) s(2)]
  have it: "itable s1 = itable s" "fs_ext s s1" using r(3) by (simp_all add: balloc_post_def)
  note w = s(3) [unfolded file_wf_def]
  define s2 where "s2 = upd_inode ip (\<lambda>x. x\<lparr>i_addrs := (i_addrs x)[n := a]\<rparr>) s1"
  let ?as = "(i_addrs (itable s ! ip))[n := a]" and ?p = "if n < NDIRECT then n else MAXFILE"
  have sl: "slot s2 = slot s1" by (simp add: slot_def fun_eq_iff s2_def upd_inode_def)
  have same: "cont s2 = cont s1" "sb s2 = sb s1" "bitmap_wf s2 = bitmap_wf s1" "free_blocks s2 = free_blocks s1"
    "in_use s2 = in_use s1" "fsop s2 k (Suc h)" "fs_ext s1 s2"
    using r(2) sl by (auto simp: s2_def bitmap_wf_def free_blocks_def in_use_def fun_eq_iff fs_ext_def fs_ext0_def same_procs_def)
  have i2: "itable s2 = (itable s)[ip := (itable s ! ip)\<lparr>i_addrs := ?as\<rparr>]" using it(1) by (simp add: s2_def)
  have af: "\<not> in_use s a" "a < sb_size (sb s)" using r(4) by (auto simp: free_blocks_def)
  have p: "?p \<le> MAXFILE" "fb s ip ?p = 0" using n by (auto simp: fb_def sizes Let_def)
  let ?ind = "i_addrs (itable s ! ip) ! NDIRECT"
  have ind: "cont s2 ?ind = cont s ?ind" if "?ind \<noteq> 0"
  proof -
    have "fb s ip MAXFILE = ?ind" by (simp add: fb_def sizes)
    then have "good s ip ?ind" using w that by auto
    then show ?thesis using same(1) c(2) af by (metis good_def)
  qed
  have i: "i_addrs (itable s2 ! ip) = ?as" using i2 w by simp
  have len: "length (i_addrs (itable s ! ip)) = Suc NDIRECT" using w by blast
  have f: "fb s2 ip q = (if q = ?p then a else fb s ip q)" if "q \<le> MAXFILE" for q
  proof (cases "n < NDIRECT")
    case True
    then have "?as ! NDIRECT = ?ind" by simp
    then show ?thesis using True len ind by (auto simp: fb_def Let_def i sizes nth_list_update)
  next
    case False
    then have "n = NDIRECT" "?ind = 0" using n by auto
    moreover from this have "?as ! NDIRECT = a" "rd32 (cont s2 a) m = 0" for m
      using len c(1) same(1) by (simp_all add: rd32_def)
    ultimately show ?thesis using len by (auto simp: fb_def Let_def i sizes)
  qed
  have "in_use s2 c \<longleftrightarrow> c = a \<or> in_use s c" if "c < sb_size (sb s)" for c
    using balloc_post_use(1) [OF r(3) af s(2) that] same(5) by simp
  moreover have "length ?as = Suc NDIRECT" using w by simp
  moreover have "fs_ext s s2" by (rule fs_ext_trans [OF it(2) same(7)])
  ultimately have "fgrow s ip s2"
    using s(3) same(1,3) r(4,6) p f c i2 by (intro fgrow_add [where as = ?as and p = ?p and a = a]) auto
  moreover have "a \<noteq> 0" using af w by auto
  moreover have "card (free_blocks s) \<le> Suc (card (free_blocks s2))" using r(4,5) same(4) by simp
  moreover have "\<forall>q\<le>MAXFILE. q \<noteq> ?p \<longrightarrow> fb s2 ip q = fb s ip q" "fb s2 ip ?p = a" using f p(1) by simp_all
  ultimately show ?thesis using that [OF r(1) s2_def same(6)] r(4) by blast
qed

text \<open>A new data block for an empty entry of the indirect block, whose buffer is held meanwhile.\<close>

lemma entry_alloc:
  assumes s: "fsop (s :: 'z kfs_scheme) (Suc (Suc (Suc k))) (Suc (Suc h))" "bitmap_wf s" "file_wf s ip" "free_blocks s \<noteq> {}" "held s = {}"
    and p: "NDIRECT \<le> p" "p < MAXFILE" "fb s ip p = 0" and ind: "ind = fb s ip MAXFILE" "ind \<noteq> 0"
  obtains bp s1 a s2 s3 s4 where "bread ROOTDEV ind s = Ok (bp, s1)" "rd32 (b_data (bufs s1 ! bp)) (4 * (p - NDIRECT)) = 0"
    "balloc ROOTDEV s1 = Ok (a, s2)" "log_write bp (upd_data bp (\<lambda>d. wr32 d (4 * (p - NDIRECT)) a) s2) = Ok s3" "brelse bp s3 = Ok s4"
    "fsop s4 k (Suc (Suc h))" "fgrow s ip s4" "fb s4 ip p = a" "a \<noteq> 0"
    "card (free_blocks s) \<le> Suc (card (free_blocks s4))" "itable s1 = itable s" "a \<in> free_blocks s"
proof -
  let ?k = "4 * (p - NDIRECT)"
  note w = s(3) [unfolded file_wf_def]
  have g: "good s ip ind" using w ind by auto
  then have gd: "ind < sb_size (sb s)" "in_use s ind" "ind \<notin> logreg s" "ind \<notin> bitmap_blocks s" by (simp_all add: good_def)
  have ia: "i_addrs (itable s ! ip) ! NDIRECT = ind" using ind by (simp add: fb_def sizes)
  obtain bp s1 where r: "bread ROOTDEV ind s = Ok (bp, s1)" "b_data (bufs s1 ! bp) = cont s ind" "slot s1 ind = Some bp"
    "fsop s1 (Suc (Suc (Suc k))) (Suc h)" "held s1 = insert ind (held s)" "cont s1 = cont s" "logged s1 = logged s" "fs_ext0 s s1" "itable s1 = itable s"
    by (rule fs_bread [OF s(1), of ind]) (use s(5) in auto)
  have sb1: "sb s1 = sb s" "logreg s1 = logreg s" using r(8) by (simp_all add: fs_ext0_def)
  have same1: "in_use s1 = in_use s" "free_blocks s1 = free_blocks s" "bitmap_blocks s1 = bitmap_blocks s"
    using r(6) sb1 by (simp_all add: in_use_def [abs_def] free_blocks_def bitmap_blocks_def)
  have "bitmap_wf s1"
    using s(2,5) gd r(5) sb1 same1(1) unfolding bitmap_wf_def bitmap_blocks_def by auto
  then obtain a s2 where b: "balloc ROOTDEV s1 = Ok (a, s2)" "fsop s2 (Suc k) (Suc h)" "balloc_post s1 a s2" "a \<in> free_blocks s1"
    "free_blocks s2 = free_blocks s1 - {a}" "bitmap_wf s2"
    using balloc_ok [OF r(4)] s(4) same1(2) by metis
  note c = balloc_post_cont [OF b(3,4) \<open>bitmap_wf s1\<close>]
  have x2: "fs_ext s1 s2" "itable s2 = itable s1" using b(3) by (simp_all add: balloc_post_def)
  have h2: "ind \<in> held s2" "slot s2 ind = Some bp" "ind \<notin> logreg s2"
    using fs_extD [OF x2(1)] r(3,5) sb1 gd by auto
  obtain s3 where l: "log_write bp (upd_data bp (\<lambda>d. wr32 d ?k a) s2) = Ok s3" "fsop s3 k (Suc h)"
    "cont s3 = (cont s2)(ind := wr32 (cont s2 ind) ?k a)" "logged s3 = insert ind (logged s2)" "fs_ext s2 s3" "slot s3 = slot s2" "itable s3 = itable s2"
    by (rule fs_log [OF b(2) h2])
  have "ind \<in> held s3" "slot s3 ind = Some bp" "ind \<in> logged s3" using h2 l(4,6) fs_extD(4) [OF l(5)] by simp_all
  then obtain s4 where q: "brelse bp s3 = Ok s4" "fsop s4 k (Suc (Suc h))" "held s4 = held s3 - {ind}" "cont s4 = cont s3"
    "fs_ext0 s3 s4" "itable s4 = itable s3"
    using fs_brelse [OF l(2)] by metis
  have af: "\<not> in_use s a" "a < sb_size (sb s)" using b(4) same1(2) by (auto simp: free_blocks_def)
  have an: "a \<noteq> ind" "a \<noteq> 0" using af gd w by auto
  have "fs_ext0 s1 s2" "fs_ext0 s2 s3" using x2(1) l(5) by (simp_all add: fs_ext_def)
  then have e: "fs_ext0 s s4" using r(8) q(5) fs_ext0_trans by blast
  have ex: "fs_ext s s4" using e q(3) fs_extD(4) [OF x2(1)] fs_extD(4) [OF l(5)] r(5) s(5) by (auto simp: fs_ext_def)
  have it: "itable s4 = itable s" using q(6) l(7) x2(2) r(9) by simp
  have ci: "cont s2 ind = cont s ind" using c(2) an gd same1(3) r(6) by auto
  have c4: "cont s4 b = cont s b" if "b \<noteq> a" "b \<notin> bitmap_blocks s" "b \<noteq> ind" for b
    using that q(4) l(3) c(2) same1(3) r(6) by auto
  have ca: "cont s4 a = (\<lambda>_. 0)" using q(4) l(3) c(1) an by simp
  have ci4: "cont s4 ind = wr32 (cont s ind) ?k a" using q(4) l(3) ci by simp
  have f: "fb s4 ip y = (if y = p then a else fb s ip y)" if "y \<le> MAXFILE" for y
  proof -
    have "4 * (y - NDIRECT) + 4 \<le> ?k \<or> ?k + 4 \<le> 4 * (y - NDIRECT)" if "y \<noteq> p" "NDIRECT \<le> y" using that p(1) by arith
    from rd32_wr32_other [OF this, of "cont s ind" a] show ?thesis
      using that p ia ind(2) it ci4 by (auto simp: fb_def Let_def sizes)
  qed
  have bm: "b \<in> bitmap_blocks s \<Longrightarrow> cont s4 b = cont s2 b" for b using q(4) l(3) gd(4) by auto
  have sb4: "sb s4 = sb s" "sb s2 = sb s" "logreg s4 = logreg s" "held s4 = {}"
    using e fs_extD(1) [OF x2(1)] sb1 fs_extD(4) [OF ex] s(5) by (simp_all add: fs_ext0_def)
  have u4: "in_use s4 y = in_use s2 y" if "y < sb_size (sb s)" for y
  proof -
    have "BBLOCK y (sb s) \<in> bitmap_blocks s" using that by (auto simp: bitmap_blocks_def)
    from bm [OF this] show ?thesis using sb4 by (simp add: in_use_def)
  qed
  have u: "in_use s4 y \<longleftrightarrow> y = a \<or> in_use s y" if "y < sb_size (sb s)" for y
    using balloc_post_use(1) [OF b(3) _ _ \<open>bitmap_wf s1\<close>] af that u4 sb1 same1(1) by simp
  have bw: "bitmap_wf s4" using s(2) s(5) u unfolding bitmap_wf_def sb4 by blast
  have "fgrow s ip s4"
    by (rule fgrow_add [where as = "i_addrs (itable s ! ip)" and p = p and a = a])
      (use s(3) bw ex it w p f b(4) same1 c(3,4) sb1 ca u c4 ind gd in auto)
  moreover have "free_blocks s4 = free_blocks s - {a}" using u af sb4 by (auto simp: free_blocks_def)
  then have "card (free_blocks s) \<le> Suc (card (free_blocks s4))" using b(4) same1(2) by simp
  moreover have "rd32 (b_data (bufs s1 ! bp)) ?k = 0" using p ia ind(2) r(2) by (auto simp: fb_def Let_def sizes)
  ultimately show ?thesis using that [OF r(1) _ b(1) l(1) q(1,2)] f [of p] p an r(9) b(4) same1(2) by auto
qed

lemma fgrowD:
  assumes "fgrow s ip s'"
  shows "fframe s ip s'" "j < MAXFILE * BSIZE \<Longrightarrow> file_byte s' ip j = file_byte s ip j"
  using assms by (simp_all add: fgrow_def)

lemma fframeD:
  assumes "fframe s ip s'"
  shows "file_wf s' ip" "bitmap_wf s'" "fs_ext s s'" "free_blocks s' \<subseteq> free_blocks s"
    "held s' = held s" "sb s' = sb s" "i_dev (itable s' ! ip) = ROOTDEV" "bitmap_blocks s' = bitmap_blocks s"
    "i_size (itable s' ! ip) = i_size (itable s ! ip)" "i_inum (itable s' ! ip) = i_inum (itable s ! ip)"
    "length (itable s') = length (itable s)" "i \<noteq> ip \<Longrightarrow> itable s' ! i = itable s ! i"
proof -
  show w: "file_wf s' ip" and "bitmap_wf s'" and e: "fs_ext s s'"
    and "free_blocks s' \<subseteq> free_blocks s"
    using assms by (simp_all add: fframe_def)
  show "i_dev (itable s' ! ip) = ROOTDEV" using w by (simp add: file_wf_def)
  show "held s' = held s" "sb s' = sb s" using fs_extD [OF e] by simp_all
  then show "bitmap_blocks s' = bitmap_blocks s" by (simp add: bitmap_blocks_def)
  obtain as where "itable s' = (itable s)[ip := (itable s ! ip)\<lparr>i_addrs := as\<rparr>]" using assms by (auto simp: fgrow_def fframe_def)
  then show "i_size (itable s' ! ip) = i_size (itable s ! ip)" "i_inum (itable s' ! ip) = i_inum (itable s ! ip)"
    "length (itable s') = length (itable s)" "i \<noteq> ip \<Longrightarrow> itable s' ! i = itable s ! i"
    using w by (auto simp: file_wf_def)
qed

lemma view_same_fs:
  assumes "cont s' = cont s" "itable s' = itable s" "sb s' = sb s"
  shows "fb s' = fb s" "file_byte s' = file_byte s" "in_use s' = in_use s" "free_blocks s' = free_blocks s"
    "bitmap_blocks s' = bitmap_blocks s" "iblock s' = iblock s" "fblocks s' = fblocks s"
proof -
  show fb: "fb s' = fb s" unfolding fb_def [abs_def] assms ..
  show "file_byte s' = file_byte s" "fblocks s' = fblocks s"
    unfolding file_byte_def [abs_def] fblocks_def [abs_def] fb assms by (rule refl)+
  show "in_use s' = in_use s" "free_blocks s' = free_blocks s" "bitmap_blocks s' = bitmap_blocks s" "iblock s' = iblock s"
    using assms by (simp_all add: in_use_def [abs_def] free_blocks_def bitmap_blocks_def iblock_def [abs_def])
qed

lemma fgrow_same:
  assumes e: "fs_ext s s'" and c: "cont s' = cont s" "itable s' = itable s" and w: "file_wf s ip" "bitmap_wf s"
  shows "fgrow s ip s'"
proof -
  note v = view_same_fs [OF c fs_extD(1) [OF e]]
  have "file_wf s' ip" "bitmap_wf s'"
    using w c fs_extD [OF e] bitmap_wf_cong [OF c(1) e] by (simp_all add: file_wf_def good_def v)
  then show ?thesis using c e v by (auto simp: fgrow_def fframe_def intro!: exI [of _ "i_addrs (itable s ! ip)"])
qed

text \<open>The address of an allocated block.\<close>

lemma bmap_mapped:
  assumes s: "fsop (s :: 'z kfs_scheme) k (Suc h)" "file_wf s ip" "held s = {}" and p: "p < MAXFILE" "fb s ip p \<noteq> 0"
  obtains s' where "bmap ip p s = Ok (fb s ip p, s')" "fsop s' k (Suc h)" "cont s' = cont s" "itable s' = itable s" "fs_ext s s'"
proof (cases "p < NDIRECT")
  case True
  then have "bmap ip p s = Ok (fb s ip p, s)" using p(2) by (simp add: bmap_def fb_def Let_def)
  then show ?thesis using that s(1) by simp
next
  case False
  let ?ind = "i_addrs (itable s ! ip) ! NDIRECT"
  have i: "?ind \<noteq> 0" "rd32 (cont s ?ind) (4 * (p - NDIRECT)) = fb s ip p"
    using False p by (auto simp: fb_def Let_def split: if_splits)
  have d: "i_dev (itable s ! ip) = ROOTDEV" using s(2) by (simp add: file_wf_def)
  have "p - NDIRECT < NINDIRECT" using p(1) by (simp add: sizes)
  obtain bp s1 s2 where r: "bread ROOTDEV ?ind s = Ok (bp, s1)" "b_data (bufs s1 ! bp) = cont s ?ind"
    "brelse bp s1 = Ok s2" "fsop s2 k (Suc h)" "cont s2 = cont s" "fs_ext s s2" "itable s2 = itable s"
    by (rule fs_read [OF s(1), of ?ind]) (use s(3) in auto)
  then have "bmap ip p s = Ok (fb s ip p, s2)"
    using False i d p(2) \<open>p - NDIRECT < NINDIRECT\<close> by (simp add: bmap_def Let_def)
  then show ?thesis using that r by blast
qed

text \<open>The address of any block, allocated or not.\<close>

lemma bmap_ok:
  assumes s: "fsop (s :: 'z kfs_scheme) (Suc (Suc (Suc (Suc (Suc k))))) (Suc (Suc h))" "bitmap_wf s" "file_wf s ip" "held s = {}"
    and fr: "2 \<le> card (free_blocks s)" and p: "p < MAXFILE"
  obtains s' where "bmap ip p s = Ok (fb s' ip p, s')" "fsop s' k (Suc (Suc h))" "fgrow s ip s'" "fb s' ip p \<noteq> 0"
    "card (free_blocks s) \<le> card (free_blocks s') + 2"
proof -
  let ?ad = "i_addrs (itable s ! ip)"
  have d: "i_dev (itable s ! ip) = ROOTDEV" using s(3) by (simp add: file_wf_def)
  have ne: "free_blocks s \<noteq> {}" using fr by auto
  consider (map) "fb s ip p \<noteq> 0" | (dir) "fb s ip p = 0" "p < NDIRECT" | (ind) "fb s ip p = 0" "NDIRECT \<le> p" by linarith
  then show ?thesis
  proof cases
    case map
    obtain s' where m: "bmap ip p s = Ok (fb s ip p, s')" "fsop s' (Suc (Suc (Suc (Suc (Suc k))))) (Suc (Suc h))"
      "cont s' = cont s" "itable s' = itable s" "fs_ext s s'"
      by (rule bmap_mapped [OF s(1,3,4) p map])
    have "fgrow s ip s'" "fb s' = fb s" "free_blocks s' = free_blocks s"
      using fgrow_same [OF m(5,3,4) s(3,2)] view_same_fs [OF m(3,4)] fs_extD(1) [OF m(5)] by simp_all
    then show ?thesis using that [of s'] m(1) fsop_mono [OF m(2), of k "Suc (Suc h)"] map by simp
  next
    case dir
    then have z: "?ad ! p = 0" "p \<le> NDIRECT" by (auto simp: fb_def)
    have f: "fsop s (Suc (Suc k)) (Suc (Suc h))" by (rule fsop_mono [OF s(1)]) auto
    obtain a s1 s2 where r: "balloc ROOTDEV s = Ok (a, s1)" "s2 = upd_inode ip (\<lambda>x. x\<lparr>i_addrs := (i_addrs x)[p := a]\<rparr>) s1"
      "fsop s2 k (Suc (Suc h))" "fgrow s ip s2" "fb s2 ip p = a" "a \<noteq> 0" "card (free_blocks s) \<le> Suc (card (free_blocks s2))" "a \<in> free_blocks s"
      "\<forall>q\<le>MAXFILE. q \<noteq> p \<longrightarrow> fb s2 ip q = fb s ip q"
      by (rule addr_alloc [OF f s(2,3) ne z(2,1), unfolded if_P [OF dir(2)]])
    then have "bmap ip p s = Ok (fb s2 ip p, s2)" using dir z d by (simp add: bmap_def Let_def)
    then show ?thesis using that r by simp
  next
    case ind
    have pn: "p - NDIRECT < NINDIRECT" "\<not> p < NDIRECT" using ind p by (simp_all add: sizes)
    obtain s1 where r: "(if ?ad ! NDIRECT = 0
           then and_then (balloc ROOTDEV s) (\<lambda>(addr, s). Ok (addr, upd_inode ip (\<lambda>x. x\<lparr>i_addrs := (i_addrs x)[NDIRECT := addr]\<rparr>) s))
           else Ok (?ad ! NDIRECT, s)) = Ok (fb s1 ip MAXFILE, s1)"
      "fsop s1 (Suc (Suc (Suc k))) (Suc (Suc h))" "fgrow s ip s1" "fb s1 ip MAXFILE \<noteq> 0" "fb s1 ip p = 0"
      "card (free_blocks s) \<le> Suc (card (free_blocks s1))"
    proof (cases "?ad ! NDIRECT = 0")
      case True
      obtain a t1 t2 where a: "balloc ROOTDEV s = Ok (a, t1)" "t2 = upd_inode ip (\<lambda>x. x\<lparr>i_addrs := (i_addrs x)[NDIRECT := a]\<rparr>) t1"
        "fsop t2 (Suc (Suc (Suc k))) (Suc (Suc h))" "fgrow s ip t2" "fb t2 ip MAXFILE = a" "a \<noteq> 0"
        "card (free_blocks s) \<le> Suc (card (free_blocks t2))" "a \<in> free_blocks s" "\<forall>q\<le>MAXFILE. q \<noteq> MAXFILE \<longrightarrow> fb t2 ip q = fb s ip q"
        by (rule addr_alloc [OF s(1-3) ne order_refl True, unfolded if_not_P [OF less_irrefl]])
      then show ?thesis using that [of t2] True ind p by simp
    next
      case False
      have "fb s ip MAXFILE = ?ad ! NDIRECT" by (simp add: fb_def sizes)
      then show ?thesis using that [of s] False fgrow_refl [OF s(3,2)] ind fsop_mono [OF s(1)] by simp
    qed
    note g = fframeD [OF fgrowD(1) [OF r(3)]]
    have "free_blocks s1 \<noteq> {}" "held s1 = {}" using fr r(6) g(5) s(4) by auto
    then obtain bp s2 a s3 s4 s5 where q: "bread ROOTDEV (fb s1 ip MAXFILE) s1 = Ok (bp, s2)" "rd32 (b_data (bufs s2 ! bp)) (4 * (p - NDIRECT)) = 0"
      "balloc ROOTDEV s2 = Ok (a, s3)" "log_write bp (upd_data bp (\<lambda>d. wr32 d (4 * (p - NDIRECT)) a) s3) = Ok s4" "brelse bp s4 = Ok s5"
      "fsop s5 k (Suc (Suc h))" "fgrow s1 ip s5" "fb s5 ip p = a" "a \<noteq> 0" "card (free_blocks s1) \<le> Suc (card (free_blocks s5))"
      "itable s2 = itable s1" "a \<in> free_blocks s1"
      by (rule entry_alloc [OF r(2) g(2,1) _ _ ind(2) p r(5) refl r(4)])
    have "bmap ip p s = Ok (a, s5)" unfolding bmap_def Let_def d r(1) using pn g(7) q by simp
    then show ?thesis using that [of s5] q fgrow_trans [OF r(3) q(7)] r(6) by simp
  qed
qed

section \<open>Reading\<close>

text \<open>Every block with a byte below \<open>n\<close> is allocated.\<close>

definition no_holes :: "'z kfs_scheme \<Rightarrow> nat \<Rightarrow> nat \<Rightarrow> bool" where
  "no_holes s ip n \<longleftrightarrow> (\<forall>p. p * BSIZE < n \<longrightarrow> fb s ip p \<noteq> 0)"

lemma BSIZE_pos [simp]: "0 < BSIZE"
  by (simp add: BSIZE_def)

lemma in_block:
  assumes "i < BSIZE - off mod BSIZE"
  shows "(off + i) div BSIZE = off div BSIZE" "(off + i) mod BSIZE = off mod BSIZE + i"
proof -
  have lt: "off mod BSIZE + i < BSIZE" using assms by simp
  have e: "off + i = (off mod BSIZE + i) + off div BSIZE * BSIZE" by simp
  have x: "r < BSIZE \<Longrightarrow> (r + q * BSIZE) div BSIZE = q" "r < BSIZE \<Longrightarrow> (r + q * BSIZE) mod BSIZE = r" for r q by simp_all
  show "(off + i) div BSIZE = off div BSIZE" "(off + i) mod BSIZE = off mod BSIZE + i"
    using x [OF lt, of "off div BSIZE"] unfolding e [symmetric] by blast+
qed

lemma slice_file:
  assumes "fb s ip (off div BSIZE) \<noteq> 0" "m \<le> BSIZE - off mod BSIZE"
  shows "slice (cont s (fb s ip (off div BSIZE))) (off mod BSIZE) m = map (file_byte s ip) [off..<off + m]"
  using assms in_block [of _ off] by (intro nth_equalityI) (auto simp: file_byte_def)

lemma readi_loop_ok:
  assumes "fsop (s :: 'z kfs_scheme) k (Suc h)" "file_wf s ip" "held s = {}" "off + left \<le> MAXFILE * BSIZE" "no_holes s ip (off + left)"
  shows "\<exists>s'. readi_loop ip (Local l) off left acc s =
      Ok (int (length acc + left), acc @ map (file_byte s ip) [off..<off + left], s') \<and>
    fsop s' k (Suc h) \<and> cont s' = cont s \<and> itable s' = itable s \<and> fs_ext s s'"
  using assms
proof (induction left arbitrary: off l acc s rule: less_induct)
  case (less left)
  show ?case
  proof (cases "left = 0")
    case True
    then show ?thesis using less.prems(1) by (simp add: readi_loop.simps)
  next
    case False
    let ?m = "min left (BSIZE - off mod BSIZE)" and ?p = "off div BSIZE"
    have m: "0 < ?m" "?m \<le> left" "?m \<le> BSIZE - off mod BSIZE" using False by auto
    have p: "?p < MAXFILE" using less.prems(4) False by (simp add: less_mult_imp_div_less)
    have "?p * BSIZE < off + left" using False div_times_less_eq_dividend [of off BSIZE] by linarith
    then have f: "fb s ip ?p \<noteq> 0" using less.prems(5) by (simp add: no_holes_def)
    obtain s1 where b: "bmap ip ?p s = Ok (fb s ip ?p, s1)" "fsop s1 k (Suc h)" "cont s1 = cont s" "itable s1 = itable s" "fs_ext s s1"
      by (rule bmap_mapped [OF less.prems(1-3) p f])
    have h1: "fb s ip ?p \<notin> held s1" using fs_extD(4) [OF b(5)] less.prems(3) by simp
    obtain i s2 s3 where r: "bread ROOTDEV (fb s ip ?p) s1 = Ok (i, s2)" "b_data (bufs s2 ! i) = cont s1 (fb s ip ?p)"
      "itable s2 = itable s1" "sb s2 = sb s1" "brelse i s2 = Ok s3" "fsop s3 k (Suc h)" "cont s3 = cont s1" "logged s3 = logged s1"
      "fs_ext s1 s3" "itable s3 = itable s1"
      by (rule fs_read [OF b(2) h1])
    let ?bs = "map (file_byte s ip) [off..<off + ?m]"
    have e: "fs_ext s s3" by (rule fs_ext_trans [OF b(5) r(9)])
    have c3: "cont s3 = cont s" "itable s3 = itable s" using r b by simp_all
    note v = view_same_fs [OF c3 fs_extD(1) [OF e]]
    have w3: "file_wf s3 ip" "held s3 = {}"
      using less.prems(2,3) c3 fs_extD [OF e] by (simp_all add: file_wf_def good_def v)
    have nx: "off + ?m + (left - ?m) = off + left" "left - ?m < left" using m by auto
    have "no_holes s3 ip (off + ?m + (left - ?m))" "off + ?m + (left - ?m) \<le> MAXFILE * BSIZE"
      using less.prems(4,5) unfolding nx(1) by (simp_all add: no_holes_def v)
    from less.IH [OF nx(2) r(6) w3 this(2,1), of "drop ?m l" "acc @ ?bs"]
    obtain s' where ih: "readi_loop ip (Local (drop ?m l)) (off + ?m) (left - ?m) (acc @ ?bs) s3 =
        Ok (int (length (acc @ ?bs) + (left - ?m)), (acc @ ?bs) @ map (file_byte s ip) [off + ?m..<off + left], s')"
      "fsop s' k (Suc h)" "cont s' = cont s3" "itable s' = itable s3" "fs_ext s3 s'"
      unfolding nx(1) v by blast
    have d: "i_dev (itable s1 ! ip) = ROOTDEV" using less.prems(2) b(4) by (simp add: file_wf_def)
    have "slice (cont s (fb s ip ?p)) (off mod BSIZE) ?m = ?bs" by (rule slice_file [OF f m(3)])
    then have "readi_loop ip (Local l) off left acc s = readi_loop ip (Local (drop ?m l)) (off + ?m) (left - ?m) (acc @ ?bs) s3"
      using False b(1,3) r(1,2,5) d by (subst readi_loop.simps) (simp add: Let_def)
    moreover have "map (file_byte s ip) [off..<off + left] = ?bs @ map (file_byte s ip) [off + ?m..<off + left]"
      using upt_add_eq_append [of off "off + ?m" "left - ?m"] nx(1) m by (simp flip: map_append)
    moreover have "int (length (acc @ ?bs) + (left - ?m)) = int (length acc + left)" using m by simp
    ultimately show ?thesis using ih fs_ext_trans [OF e ih(5)] c3 by simp
  qed
qed

section \<open>Writing\<close>

lemma write_block:
  assumes w: "file_wf s ip" "bitmap_wf s" and p: "p < MAXFILE" "a = fb s ip p" "a \<noteq> 0"
    and c: "cont s' = (cont s)(a := f (cont s a))" "itable s' = itable s" "fs_ext s s'"
  shows "fframe s ip s'" "q \<le> MAXFILE \<Longrightarrow> fb s' ip q = fb s ip q" "free_blocks s' = free_blocks s"
    "j < MAXFILE * BSIZE \<Longrightarrow> file_byte s' ip j = (if j div BSIZE = p then f (cont s a) (j mod BSIZE) else file_byte s ip j)"
proof -
  note x = fs_extD [OF c(3)]
  note v = w(1) [unfolded file_wf_def]
  have g: "good s ip a" and ne: "q \<le> MAXFILE \<Longrightarrow> q \<noteq> p \<Longrightarrow> fb s ip q \<noteq> a" for q
    using v p by (auto simp: less_imp_le)
  have m: "fb s ip MAXFILE = i_addrs (itable s ! ip) ! NDIRECT" by (simp add: fb_def sizes)
  show f: "fb s' ip q = fb s ip q" if "q \<le> MAXFILE" for q
    using ne [of MAXFILE] p(1) c(1,2) m by (auto simp: fb_def Let_def)
  have use: "in_use s' b = in_use s b" if "b < sb_size (sb s)" for b
    using g c(1) x that by (auto simp: in_use_def good_def bitmap_blocks_def)
  then show fr: "free_blocks s' = free_blocks s" using x by (auto simp: free_blocks_def)
  have bb: "bitmap_blocks s' = bitmap_blocks s" "iblock s' ip = iblock s ip" using c(2) x by (simp_all add: bitmap_blocks_def iblock_def)
  have gd: "good s' ip b = good s ip b" for b using use x bb by (auto simp: good_def)
  have "file_wf s' ip" using v f use x bb c(2) by (auto simp: file_wf_def gd)
  moreover have "bitmap_wf s'" using w(2) use unfolding bitmap_wf_def x(1,3,4) by blast
  moreover have "fblocks s' ip = fblocks s ip" "a \<in> fblocks s ip"
    using p unfolding fblocks_def by (auto simp: f less_imp_le intro!: Collect_cong) (metis f)
  ultimately show "fframe s ip s'" using c fr f by (auto simp: fframe_def intro!: exI [of _ "i_addrs (itable s ! ip)"])
  show "file_byte s' ip j = (if j div BSIZE = p then f (cont s a) (j mod BSIZE) else file_byte s ip j)" if "j < MAXFILE * BSIZE"
  proof -
    have "j div BSIZE < MAXFILE" using that by (simp add: less_mult_imp_div_less)
    then show ?thesis using f [of "j div BSIZE"] ne [of "j div BSIZE"] p c(1) by (auto simp: file_byte_def Let_def)
  qed
qed

text \<open>The number of blocks that \<open>n\<close> bytes from offset \<open>off\<close> touch.\<close>

definition nblocks :: "nat \<Rightarrow> nat \<Rightarrow> nat" where
  "nblocks off n = (if n = 0 then 0 else (off mod BSIZE + n + (BSIZE - 1)) div BSIZE)"

lemma nblocks_step:
  assumes "0 < n"
  shows "nblocks off n = Suc (nblocks (off + min n (BSIZE - off mod BSIZE)) (n - min n (BSIZE - off mod BSIZE)))"
proof (cases "n \<le> BSIZE - off mod BSIZE")
  case True
  have "off mod BSIZE < BSIZE" by simp
  then have "(off mod BSIZE + n + (BSIZE - 1)) div BSIZE = 1" using True assms unfolding sizes by linarith
  then show ?thesis using True assms by (simp add: nblocks_def)
next
  case False
  define r where "r = BSIZE - off mod BSIZE"
  have r: "off mod BSIZE + r = BSIZE" "r < n" using False by (simp_all add: r_def)
  then have "(off + r) mod BSIZE = 0" by (metis mod_add_left_eq mod_self)
  moreover have "off mod BSIZE + n + (BSIZE - 1) = BSIZE + (n - r + (BSIZE - 1))" using r by linarith
  then have "(off mod BSIZE + n + (BSIZE - 1)) div BSIZE = Suc ((n - r + (BSIZE - 1)) div BSIZE)" by (simp add: sizes)
  ultimately show ?thesis using r assms by (simp add: nblocks_def min_def not_le r_def [symmetric])
qed

lemma byte_split:
  assumes "m \<le> BSIZE - off mod BSIZE"
  shows "j div BSIZE = off div BSIZE \<and> off mod BSIZE \<le> j mod BSIZE \<and> j mod BSIZE < off mod BSIZE + m \<longleftrightarrow> off \<le> j \<and> j < off + m"
proof -
  have "j = j div BSIZE * BSIZE + j mod BSIZE" "off = off div BSIZE * BSIZE + off mod BSIZE" "j mod BSIZE < BSIZE" by simp_all
  moreover have "j div BSIZE = off div BSIZE" if "off \<le> j" "j < off + m"
    using in_block [of "j - off" off] that assms by simp
  ultimately show ?thesis by (smt (verit) add_le_cancel_left add_less_cancel_left group_cancel.add1)
qed

lemma splice_byte:
  assumes "length bs = m" "m \<le> BSIZE - off mod BSIZE"
  shows "j div BSIZE = off div BSIZE \<Longrightarrow>
    splice d (off mod BSIZE) bs (j mod BSIZE) = (if off \<le> j \<and> j < off + m then bs ! (j - off) else d (j mod BSIZE))"
    and "j div BSIZE \<noteq> off div BSIZE \<Longrightarrow> \<not> (off \<le> j \<and> j < off + m)"
proof -
  note b = byte_split [OF assms(2), of j]
  show "j div BSIZE \<noteq> off div BSIZE \<Longrightarrow> \<not> (off \<le> j \<and> j < off + m)" using b by blast
  assume e: "j div BSIZE = off div BSIZE"
  then have "off \<le> j \<Longrightarrow> j mod BSIZE - off mod BSIZE = j - off"
    by (metis diff_diff_left div_mult_mod_eq minus_div_mult_eq_mod add_diff_cancel_left diff_add_inverse)
  then show "splice d (off mod BSIZE) bs (j mod BSIZE) = (if off \<le> j \<and> j < off + m then bs ! (j - off) else d (j mod BSIZE))"
    using b e assms(1) by (auto simp: splice_def)
qed

lemma two_pieces:
  assumes "m \<le> left" "x' = (if off + m \<le> j \<and> j < off + left then drop m bs ! (j - (off + m)) else x1)"
    "x1 = (if off \<le> j \<and> j < off + m then bs ! (j - off) else x)" "m \<le> length bs"
  shows "x' = (if off \<le> j \<and> j < off + left then bs ! (j - off) else x)"
  using assms by auto

text \<open>One turn of the loop.\<close>

lemma writei_step:
  assumes s: "fsop (s :: 'z kfs_scheme) (6 + k) (Suc (Suc h))" "file_wf s ip" "bitmap_wf s" "held s = {}" "2 \<le> card (free_blocks s)"
    and m: "m = min left (BSIZE - off mod BSIZE)" "0 < left" "off + left \<le> MAXFILE * BSIZE" "left \<le> length bs"
  obtains s4 where "writei_loop ip (Local bs) off left tot s = writei_loop ip (Local (drop m bs)) (off + m) (left - m) (tot + m) s4"
    "fsop s4 k (Suc (Suc h))" "fframe s ip s4" "fb s4 ip (off div BSIZE) \<noteq> 0" "card (free_blocks s) \<le> card (free_blocks s4) + 2"
    "\<forall>j<MAXFILE * BSIZE. file_byte s4 ip j = (if off \<le> j \<and> j < off + m then bs ! (j - off) else file_byte s ip j)"
proof -
  let ?p = "off div BSIZE"
  define bs1 where "bs1 = take m bs"
  let ?f = "\<lambda>d. splice d (off mod BSIZE) bs1"
  have le: "m \<le> BSIZE - off mod BSIZE" "length bs1 = m" using m by (auto simp: bs1_def)
  have p: "?p < MAXFILE" using m(2,3) by (simp add: less_mult_imp_div_less)
  have f5: "fsop s (Suc (Suc (Suc (Suc (Suc (Suc k)))))) (Suc (Suc h))" using s(1) by (simp add: eval_nat_numeral)
  obtain s1 where b: "bmap ip ?p s = Ok (fb s1 ip ?p, s1)" "fsop s1 (Suc k) (Suc (Suc h))" "fgrow s ip s1" "fb s1 ip ?p \<noteq> 0"
    "card (free_blocks s) \<le> card (free_blocks s1) + 2"
    by (rule bmap_ok [OF f5 s(3,2,4,5) p])
  note g = fgrowD [OF b(3)]
  note d = fframeD [OF g(1)]
  let ?a = "fb s1 ip ?p"
  have "good s1 ip ?a" using d(1) p b(4) by (auto simp: file_wf_def)
  then have a: "?a \<notin> logreg s1" "?a \<notin> held s1" using d(5) s(4) by (auto simp: good_def)
  obtain i s2 s3 s4 where r: "bread ROOTDEV ?a s1 = Ok (i, s2)" "b_data (bufs s2 ! i) = cont s1 ?a" "itable s2 = itable s1" "sb s2 = sb s1"
    "log_write i (upd_data i ?f s2) = Ok s3" "brelse i s3 = Ok s4" "fsop s4 k (Suc (Suc h))"
    "cont s4 = (cont s1)(?a := ?f (cont s1 ?a))" "logged s4 = insert ?a (logged s1)" "fs_ext s1 s4" "itable s4 = itable s1"
    by (rule fs_update [OF b(2) a(2,1)])
  note wb = write_block [where f = ?f, OF d(1,2) p refl b(4) r(8,11,10)]
  have "writei_loop ip (Local bs) off left tot s = writei_loop ip (Local (drop m bs)) (off + m) (left - m) (tot + m) s4"
    using m(1,2) b(1) r(1,5,6) d(7) by (subst writei_loop.simps) (simp add: Let_def bs1_def)
  moreover have "file_byte s4 ip j = (if off \<le> j \<and> j < off + m then bs ! (j - off) else file_byte s ip j)"
    if "j < MAXFILE * BSIZE" for j
  proof (cases "j div BSIZE = ?p")
    case True
    have "bs1 ! (j - off) = bs ! (j - off)" if "off \<le> j \<and> j < off + m"
      unfolding bs1_def by (rule nth_take) (use that in linarith)
    moreover have "cont s1 ?a (j mod BSIZE) = file_byte s ip j" unfolding g(2) [OF that, symmetric] using True b(4) by (simp add: file_byte_def)
    ultimately show ?thesis unfolding wb(4) [OF that] if_P [OF True] splice_byte(1) [OF le(2,1) True] by metis
  next
    case False
    show ?thesis unfolding wb(4) [OF that] if_not_P [OF False] if_not_P [OF splice_byte(2) [OF le(2,1) False]] by (rule g(2) [OF that])
  qed
  moreover have "fb s4 ip ?p \<noteq> 0" using wb(2) [of ?p] p b(4) by simp
  ultimately show ?thesis using that [OF _ r(7) fframe_trans [OF g(1) wb(1)]] b(5) wb(3) by simp
qed

lemma writei_loop_ok:
  assumes "fsop (s :: 'z kfs_scheme) (6 * nblocks off left + k) (Suc (Suc h))" "file_wf s ip" "bitmap_wf s" "held s = {}"
    "off + left \<le> MAXFILE * BSIZE" "left \<le> length bs" "2 * nblocks off left \<le> card (free_blocks s)"
  shows "\<exists>s'. writei_loop ip (Local bs) off left tot s = Ok (off + left, tot + left, s') \<and> fsop s' k (Suc (Suc h)) \<and> fframe s ip s' \<and>
    (\<forall>j<MAXFILE * BSIZE. file_byte s' ip j = (if off \<le> j \<and> j < off + left then bs ! (j - off) else file_byte s ip j)) \<and>
    (\<forall>j. off \<le> j \<and> j < off + left \<longrightarrow> fb s' ip (j div BSIZE) \<noteq> 0)"
  using assms
proof (induction left arbitrary: off bs tot s rule: less_induct)
  case (less left)
  show ?case
  proof (cases "left = 0")
    case True
    then show ?thesis using less.prems(1) fframe_refl [OF less.prems(2,3)] by (auto simp: writei_loop.simps nblocks_def)
  next
    case False
    define m where "m = min left (BSIZE - off mod BSIZE)"
    define n where "n = nblocks (off + m) (left - m)"
    have m: "m \<le> BSIZE - off mod BSIZE" "m \<le> left" "left - m < left" "off + m + (left - m) = off + left" "m \<le> length bs"
      using False less.prems(6) by (auto simp: m_def)
    have nb: "nblocks off left = Suc n" using nblocks_step [of left off] False by (simp add: m_def n_def)
    have f6: "fsop s (6 + (6 * n + k)) (Suc (Suc h))" "2 \<le> card (free_blocks s)"
      using less.prems(1,7) nb by (simp_all add: algebra_simps)
    obtain s4 where r: "writei_loop ip (Local bs) off left tot s = writei_loop ip (Local (drop m bs)) (off + m) (left - m) (tot + m) s4"
      "fsop s4 (6 * n + k) (Suc (Suc h))" "fframe s ip s4" "fb s4 ip (off div BSIZE) \<noteq> 0" "card (free_blocks s) \<le> card (free_blocks s4) + 2"
      "\<forall>j<MAXFILE * BSIZE. file_byte s4 ip j = (if off \<le> j \<and> j < off + m then bs ! (j - off) else file_byte s ip j)"
      by (rule writei_step [OF f6(1) less.prems(2-4) f6(2) m_def _ less.prems(5,6)]) (use False in auto)
    note d = fframeD [OF r(3)]
    have "held s4 = {}" "left - m \<le> length (drop m bs)" "2 * n \<le> card (free_blocks s4)"
      using d(5) less.prems(4,6,7) nb r(5) by simp_all
    from less.IH [OF m(3) r(2) [unfolded n_def] d(1,2) this(1) _ this(2) this(3) [unfolded n_def], of "tot + m", unfolded m(4), OF less.prems(5)]
    obtain s' where ih: "writei_loop ip (Local (drop m bs)) (off + m) (left - m) (tot + m) s4 = Ok (off + left, tot + m + (left - m), s')"
      "fsop s' k (Suc (Suc h))" "fframe s4 ip s'"
      "\<forall>j<MAXFILE * BSIZE. file_byte s' ip j = (if off + m \<le> j \<and> j < off + left then drop m bs ! (j - (off + m)) else file_byte s4 ip j)"
      "\<forall>j. off + m \<le> j \<and> j < off + left \<longrightarrow> fb s' ip (j div BSIZE) \<noteq> 0"
      by blast
    have "file_byte s' ip j = (if off \<le> j \<and> j < off + left then bs ! (j - off) else file_byte s ip j)" if "j < MAXFILE * BSIZE" for j
      by (rule two_pieces [OF m(2) ih(4) [rule_format, OF that] r(6) [rule_format, OF that] m(5)])
    moreover have "off div BSIZE < MAXFILE" using less.prems(5) False by (simp add: less_mult_imp_div_less)
    then have "fb s' ip (off div BSIZE) \<noteq> 0" using ih(3) r(4) by (simp add: fframe_def)
    then have "fb s' ip (j div BSIZE) \<noteq> 0" if "off \<le> j \<and> j < off + left" for j
      using that ih(5) byte_split [OF m(1), of j] by (cases "j < off + m") auto
    ultimately show ?thesis using ih(1,2) r(1) m(2) fframe_trans [OF r(3) ih(3)] by simp
  qed
qed

section \<open>Writing back an inode\<close>

lemma iupdate_ok:
  assumes s: "fsop (s :: 'z kfs_scheme) (Suc k) (Suc h)" and i: "i_dev (itable s ! ip) = ROOTDEV" "iblock s ip \<notin> held s" "iblock s ip \<notin> logreg s"
  obtains s' where "iupdate ip s = Ok s'" "fsop s' k (Suc h)" "itable s' = itable s" "fs_ext s s'"
    "cont s' = (cont s)(iblock s ip := put_dinode (dinode_of (itable s ! ip)) (dinode_off (i_inum (itable s ! ip))) (cont s (iblock s ip)))"
proof -
  let ?f = "put_dinode (dinode_of (itable s ! ip)) (dinode_off (i_inum (itable s ! ip)))"
  obtain b s1 s2 s3 where r: "bread ROOTDEV (iblock s ip) s = Ok (b, s1)" "b_data (bufs s1 ! b) = cont s (iblock s ip)" "itable s1 = itable s" "sb s1 = sb s"
    "log_write b (upd_data b ?f s1) = Ok s2" "brelse b s2 = Ok s3" "fsop s3 k (Suc h)" "cont s3 = (cont s)(iblock s ip := ?f (cont s (iblock s ip)))"
    "logged s3 = insert (iblock s ip) (logged s)" "fs_ext s s3" "itable s3 = itable s"
    by (rule fs_update [OF s i(2,3)])
  have "iupdate ip s = Ok s3" using r(1,5,6) i(1) by (simp add: iupdate_def Let_def iblock_def)
  then show ?thesis using that r by blast
qed

text \<open>A change outside the blocks and the bitmap of a file does not touch its contents.\<close>

lemma file_unchanged:
  assumes w: "file_wf s ip" and a: "i_addrs (itable s' ! ip) = i_addrs (itable s ! ip)"
    and c: "\<And>b. b \<in> fblocks s ip \<Longrightarrow> cont s' b = cont s b"
  shows "q \<le> MAXFILE \<Longrightarrow> fb s' ip q = fb s ip q" "j < MAXFILE * BSIZE \<Longrightarrow> file_byte s' ip j = file_byte s ip j"
proof -
  let ?ind = "i_addrs (itable s ! ip) ! NDIRECT"
  have "fb s ip MAXFILE = ?ind" by (simp add: fb_def sizes)
  then have m: "cont s' ?ind = cont s ?ind" if "?ind \<noteq> 0" using that by (intro c) (auto simp: fblocks_def intro!: exI [of _ MAXFILE])
  show f: "fb s' ip q = fb s ip q" if "q \<le> MAXFILE" for q
    using a m by (auto simp: fb_def Let_def)
  show "file_byte s' ip j = file_byte s ip j" if "j < MAXFILE * BSIZE"
  proof -
    have "j div BSIZE < MAXFILE" using that by (simp add: less_mult_imp_div_less)
    then have "fb s' ip (j div BSIZE) = fb s ip (j div BSIZE)" "fb s ip (j div BSIZE) \<noteq> 0 \<Longrightarrow> fb s ip (j div BSIZE) \<in> fblocks s ip"
      using f by (auto simp: fblocks_def less_imp_le)
    then show ?thesis using c by (simp add: file_byte_def Let_def)
  qed
qed

lemma file_wf_blocks: "file_wf s ip \<Longrightarrow> b \<in> fblocks s ip \<Longrightarrow> good s ip b"
  by (auto simp: file_wf_def fblocks_def)

text \<open>Setting the size of a file and writing its inode back.\<close>

lemma set_size_iupdate:
  assumes s: "fsop (s :: 'z kfs_scheme) (Suc k) (Suc h)" "file_wf s ip" "bitmap_wf s" "held s = {}"
  obtains s' where "iupdate ip (upd_inode ip (\<lambda>x. x\<lparr>i_size := n\<rparr>) s) = Ok s'" "fsop s' k (Suc h)" "file_wf s' ip" "bitmap_wf s'" "held s' = {}"
    "itable s' = (itable s)[ip := (itable s ! ip)\<lparr>i_size := n\<rparr>]" "sb s' = sb s"
    "disk_inode s' (i_inum (itable s ! ip)) = dinode_of (itable s' ! ip)" "\<forall>b. b \<noteq> iblock s ip \<longrightarrow> cont s' b = cont s b"
    "\<forall>q\<le>MAXFILE. fb s' ip q = fb s ip q" "\<forall>j<MAXFILE * BSIZE. file_byte s' ip j = file_byte s ip j"
proof -
  note w = s(2) [unfolded file_wf_def]
  let ?t = "upd_inode ip (\<lambda>x. x\<lparr>i_size := n\<rparr>) s"
  have it: "itable ?t ! ip = (itable s ! ip)\<lparr>i_size := n\<rparr>" using w by simp
  have ib: "iblock ?t ip = iblock s ip" using it by (simp add: iblock_def)
  have "i_dev (itable ?t ! ip) = ROOTDEV" "iblock ?t ip \<notin> held ?t" "iblock ?t ip \<notin> logreg ?t" using w it ib s(4) by simp_all
  moreover have "fsop ?t (Suc k) (Suc h)" using s(1) by simp
  ultimately obtain s' where r: "iupdate ip ?t = Ok s'" "fsop s' k (Suc h)" "itable s' = itable ?t" "fs_ext ?t s'"
    "cont s' = (cont ?t)(iblock ?t ip := put_dinode (dinode_of (itable ?t ! ip)) (dinode_off (i_inum (itable ?t ! ip))) (cont ?t (iblock ?t ip)))"
    by (metis iupdate_ok)
  have i': "itable s' ! ip = (itable s ! ip)\<lparr>i_size := n\<rparr>" using r(3) it by simp
  have x: "sb s' = sb s" "logreg s' = logreg s" "held s' = {}" using fs_extD [OF r(4)] s(4) by simp_all
  have c: "cont s' b = cont s b" if "b \<noteq> iblock s ip" for b using r(5) ib that by simp
  have cb: "cont s' b = cont s b" if "b \<in> fblocks s ip" for b
    using file_wf_blocks [OF s(2) that] by (intro c) (simp add: good_def)
  have "i_addrs (itable s' ! ip) = i_addrs (itable s ! ip)" using i' by simp
  note un = file_unchanged [OF s(2) this cb]
  have use: "in_use s' b = in_use s b" if "b < sb_size (sb s)" for b
  proof -
    have "BBLOCK b (sb s) \<in> bitmap_blocks s" using that by (auto simp: bitmap_blocks_def)
    then have "BBLOCK b (sb s) \<noteq> iblock s ip" using w by auto
    then show ?thesis using c x(1) by (simp add: in_use_def)
  qed
  have bb: "bitmap_blocks s' = bitmap_blocks s" "iblock s' ip = iblock s ip" using i' x by (simp_all add: bitmap_blocks_def iblock_def)
  have gd: "good s' ip b = good s ip b" for b using use x bb by (auto simp: good_def)
  have "length (i_addrs (itable s' ! ip)) = Suc NDIRECT" "ip < length (itable s')" "i_dev (itable s' ! ip) = ROOTDEV"
    using w i' r(3) by simp_all
  then have "file_wf s' ip" using w un(1) use x bb unfolding file_wf_def gd by auto
  moreover have "bitmap_wf s'" using s(3,4) use unfolding bitmap_wf_def x by auto
  moreover have "disk_inode s' (i_inum (itable s ! ip)) = dinode_of (itable s' ! ip)"
    using disk_inode_put [of s' ?t "i_inum (itable s ! ip)" "dinode_of (itable ?t ! ip)" "i_inum (itable s ! ip)"] r(3,5) x w it
    by (simp add: iblock_def dinode_of_def)
  ultimately show ?thesis using that [OF r(1,2)] x r(3) c un by simp
qed

end
