(* ===== verification/FsThms.thy ===== *)
theory FsThms
  imports FsSpec
begin

text \<open>
  Properties of the block bitmap, of inodes on disk and in memory, and of reading files, with a
  small file system as an example.
\<close>

section \<open>An example\<close>

text \<open>
  A booted kernel inside a transaction, on a disk of 50 blocks: the log from block 2, inodes in
  block 40, the bitmap in block 45.
\<close>

definition demo_sb :: superblock where
  "demo_sb = \<lparr>sb_magic = FSMAGIC, sb_size = 50, sb_nblocks = 4, sb_ninodes = 16, sb_nlog = 30, sb_logstart = 2,
     sb_inodestart = 40, sb_bmapstart = 45\<rparr>"

definition demo_fs :: "(uint32 \<Rightarrow> block) \<Rightarrow> inode list \<Rightarrow> kfs" where
  "demo_fs d its = binit
     \<lparr>ram = ram one_page, freelist = freelist one_page, kend = kend one_page, ketext = ketext one_page,
      ktrampoline = ktrampoline one_page, procs = [proc1], cur = 0, nextpid = 2, initproc = Some 0, kforkret = 0,
      bufs = replicate (Suc NBUF) zero_buf, disk = d, dwrites = [],
      lg_start = 2, lg_size = 30, lg_outstanding = 1, lg_committing = False, lg_dev = ROOTDEV, lh_n = 0,
      lh_block = replicate LOGSIZE 0, sb = demo_sb, itable = its\<rparr>"

lemma demo_fields [simp]:
  "disk (demo_fs d its) = d" "lg_start (demo_fs d its) = 2" "lg_size (demo_fs d its) = 30" "lg_outstanding (demo_fs d its) = 1"
  "lg_committing (demo_fs d its) = False" "lg_dev (demo_fs d its) = ROOTDEV" "lh_n (demo_fs d its) = 0"
  "lh_block (demo_fs d its) = replicate LOGSIZE 0" "procs (demo_fs d its) = [proc1]" "cur (demo_fs d its) = 0"
  "sb (demo_fs d its) = demo_sb" "itable (demo_fs d its) = its"
  by (simp_all add: demo_fs_def binit_def Let_def)

lemma demo_view [simp]:
  "binv (demo_fs d its)" "cont (demo_fs d its) = d" "refs (demo_fs d its) = (\<lambda>_. 0)" "held (demo_fs d its) = {}"
proof -
  let ?s = "\<lparr>ram = ram one_page, freelist = freelist one_page, kend = kend one_page, ketext = ketext one_page,
      ktrampoline = ktrampoline one_page, procs = [proc1], cur = 0, nextpid = 2, initproc = Some 0, kforkret = 0,
      bufs = replicate (Suc NBUF) zero_buf, disk = d, dwrites = [],
      lg_start = 2, lg_size = 30, lg_outstanding = 1, lg_committing = False, lg_dev = ROOTDEV, lh_n = 0,
      lh_block = replicate LOGSIZE 0, sb = demo_sb, itable = its\<rparr>"
  have "length (bufs ?s) = Suc NBUF" "cur ?s < length (procs ?s)" by simp_all
  moreover have "\<forall>j<NBUF. b_refcnt (bufs ?s ! j) = 0 \<and> b_dev (bufs ?s ! j) \<noteq> ROOTDEV"
    by (simp add: zero_buf_def ROOTDEV_def del: replicate_Suc)
  ultimately show "binv (demo_fs d its)" "cont (demo_fs d its) = d" "refs (demo_fs d its) = (\<lambda>_. 0)" "held (demo_fs d its) = {}"
    using binit_spec [of ?s] by (simp_all add: demo_fs_def fun_eq_iff)
qed

lemma demo_fsop: "hdr_n (d 2) = 0 \<Longrightarrow> k < 30 \<Longrightarrow> k + h \<le> 30 \<Longrightarrow> fsop (demo_fs d its) k h"
  using mine_held [of "demo_fs d its"] by (simp add: fsop_def txn_def tran_def fun_eq_iff NBUF_def)

lemma demo_logreg: "33 \<le> unat b \<Longrightarrow> b \<notin> logreg (demo_fs d its)"
proof
  assume b: "33 \<le> unat b"
  assume "b \<in> logreg (demo_fs d its)"
  then consider "b = 2" | j where "j < 30" "b = 2 + word_of_nat j + 1"
    by (auto simp: logreg_def logblk_def LOGSIZE_eq)
  then show False using b by cases (auto simp: unat_word_ariths unat_of_nat)
qed

text \<open>Blocks 0 to 47 are in use.\<close>

definition demo_disk :: "uint32 \<Rightarrow> block" where
  "demo_disk = (\<lambda>_ _. 0)(45 := \<lambda>k. if k < 6 then 0xFF else 0)"

lemma demo_in_use: "c < 50 \<Longrightarrow> in_use (demo_fs demo_disk its) c \<longleftrightarrow> unat c < 48"
proof -
  assume c: "c < 50"
  then have u: "unat c < 50" by (simp add: word_less_nat_alt)
  have "BBLOCK c demo_sb = 45" using u by (simp add: BBLOCK_def demo_sb_def BPB_eq word_unat_eq_iff unat_div unat_word_ariths)
  moreover have "bit (0xFF :: uchar) (unat c mod 8)"
  proof -
    have "unat c mod 8 < 8" by simp
    then have "unat c mod 8 \<in> {0, 1, 2, 3, 4, 5, 6, 7}" by auto
    then show ?thesis by (elim insertE) auto
  qed
  ultimately show ?thesis using u by (auto simp: in_use_def demo_disk_def bmap_bit_bit BPB_eq)
qed

lemma demo_hdr: "hdr_n (demo_disk 2) = 0"
  by (simp add: demo_disk_def hdr_n_def rd32_def)

lemma demo_wf: "bitmap_wf (demo_fs demo_disk its)"
proof -
  have B: "BBLOCK c demo_sb = 45" if "c < 50" for c
    using that by (simp add: BBLOCK_def demo_sb_def BPB_eq word_unat_eq_iff unat_div unat_word_ariths word_less_nat_alt)
  have sz: "sb_size demo_sb = 50" by (simp add: demo_sb_def)
  show ?thesis unfolding bitmap_wf_def demo_fields sz
    using B demo_in_use [of _ its] demo_logreg [of _ demo_disk its] by (auto simp: not_less)
qed

section \<open>Allocating and freeing blocks\<close>

text \<open>
  C23. Allocating a block. In a transaction with room for two more blocks, \<^verbatim>\<open>balloc\<close> returns the lowest
  free block, marks it and no other block as used, zeroes it, and changes the contents of no
  other block than that one and its bitmap block; without a free block it panics.
\<close>

theorem balloc_first_free:
  assumes "fsop s (Suc (Suc k)) (Suc h)" "bitmap_wf s"
  shows "case find (\<lambda>b. \<not> in_use s (word_of_nat b)) [0..<unat (sb_size (sb s))] of
      None \<Rightarrow> balloc ROOTDEV s = Panic ''balloc: out of blocks''
    | Some n \<Rightarrow> \<exists>b s'. b = word_of_nat n \<and> balloc ROOTDEV s = Ok (b, s') \<and> fsop s' k (Suc h) \<and> bitmap_wf s' \<and>
        (\<forall>c < sb_size (sb s). in_use s' c \<longleftrightarrow> c = b \<or> in_use s c) \<and> cont s' b = (\<lambda>_. 0) \<and>
        (\<forall>x. x \<noteq> b \<and> x \<noteq> BBLOCK b (sb s) \<longrightarrow> cont s' x = cont s x) \<and> itable s' = itable s \<and> fs_ext s s'"
proof (cases "find (\<lambda>b. \<not> in_use s (word_of_nat b)) [0..<unat (sb_size (sb s))]")
  case None
  then show ?thesis using balloc_find [OF assms] by simp
next
  case (Some n)
  then obtain s' where r: "balloc ROOTDEV s = Ok (word_of_nat n, s')" "fsop s' k (Suc h)" "balloc_post s (word_of_nat n) s'"
    using balloc_find [OF assms] by auto
  note u = balloc_post_use [OF r(3) find_free [OF Some] assms(2)]
  show ?thesis using Some r u by (auto simp: balloc_post_def)
qed

theorem balloc_first_free_witness:
  "\<exists>s'. balloc ROOTDEV (demo_fs demo_disk []) = Ok (48, s') \<and> in_use s' 48 \<and> \<not> in_use s' 49 \<and> cont s' 7 = (\<lambda>_. 0)"
proof -
  let ?s = "demo_fs demo_disk []"
  have f: "find (\<lambda>b. \<not> in_use ?s (word_of_nat b)) [0..<unat (sb_size (sb ?s))] = Some 48"
  proof -
    have "in_use ?s (word_of_nat b) \<longleftrightarrow> b < 48" if "b < 50" for b
      using demo_in_use [of "word_of_nat b" "[]"] that by (simp add: word_less_nat_alt unat_of_nat)
    moreover have "\<not> in_use ?s 48" using demo_in_use [of 48 "[]"] by simp
    ultimately show ?thesis by (auto simp: find_Some_iff demo_sb_def intro!: exI [of _ 48])
  qed
  have s: "\<not> in_use ?s 49" using demo_in_use [of 49 "[]"] by simp
  have "BBLOCK 48 demo_sb = 45" by (simp add: BBLOCK_def demo_sb_def BPB_eq word_unat_eq_iff unat_div unat_word_ariths)
  then show ?thesis
    using balloc_first_free [of ?s 0 0, OF demo_fsop [of demo_disk, OF demo_hdr] demo_wf, unfolded f] s
    by (auto simp: demo_sb_def) (auto simp: demo_disk_def)
qed

text \<open>
  C24. Freeing a block. \<^verbatim>\<open>bfree\<close> clears the mark of a used block and changes no other mark and no other
  block than the bitmap block; freeing a free block panics.
\<close>

theorem bfree_clears_one_bit:
  assumes "fsop s (Suc k) (Suc h)" "bitmap_wf s" "b < sb_size (sb s)"
  shows "if in_use s b
    then \<exists>s'. bfree ROOTDEV b s = Ok s' \<and> fsop s' k (Suc h) \<and> (\<forall>c. in_use s' c \<longleftrightarrow> c \<noteq> b \<and> in_use s c) \<and>
      (\<forall>x. x \<noteq> BBLOCK b (sb s) \<longrightarrow> cont s' x = cont s x) \<and> itable s' = itable s \<and> fs_ext s s'
    else bfree ROOTDEV b s = Panic ''freeing free block''"
proof -
  let ?B = "BBLOCK b (sb s)" and ?i = "unat b mod BPB"
  have nl: "?B \<notin> held s" "?B \<notin> logreg s" using assms(2,3) by (simp_all add: bitmap_wf_def)
  obtain g s1 s2 s3 where r: "bread ROOTDEV ?B s = Ok (g, s1)" "b_data (bufs s1 ! g) = cont s ?B"
    "log_write g (upd_data g (clear_bmap_bit ?i) s1) = Ok s2" "brelse g s2 = Ok s3" "fsop s3 k (Suc h)"
    "cont s3 = (cont s)(?B := clear_bmap_bit ?i (cont s ?B))" "fs_ext s s3" "itable s3 = itable s"
    by (rule fs_update [OF assms(1) nl, of "clear_bmap_bit ?i"]) blast
  have "in_use s3 c \<longleftrightarrow> c \<noteq> b \<and> in_use s c" for c
    using r(6) fs_extD(1) [OF r(7)] BBLOCK_mod [of c "sb s" b] by (auto simp: in_use_def)
  then show ?thesis using r by (auto simp: bfree_def Let_def in_use_def [of s b])
qed

theorem bfree_clears_one_bit_witness:
  "(\<exists>s'. bfree ROOTDEV 47 (demo_fs demo_disk []) = Ok s' \<and> \<not> in_use s' 47 \<and> in_use s' 46) \<and>
   bfree ROOTDEV 48 (demo_fs demo_disk []) = Panic ''freeing free block''"
  using bfree_clears_one_bit [of "demo_fs demo_disk []" 0 0 47, OF demo_fsop [of demo_disk, OF demo_hdr] demo_wf]
    bfree_clears_one_bit [of "demo_fs demo_disk []" 0 0 48, OF demo_fsop [of demo_disk, OF demo_hdr] demo_wf]
    demo_in_use [of 47 "[]"] demo_in_use [of 46 "[]"] demo_in_use [of 48 "[]"]
  by (auto simp: demo_sb_def)

end
