(* ===== verification/FileThms.thy ===== *)
theory FileThms
  imports FileSpec FsThms
begin

text \<open>
  Properties of files: reading returns the contents, writing changes them and nothing else;
  inodes go to disk and come back; the inode table holds one entry per inode.
\<close>

section \<open>Contents\<close>


text \<open>An inode without blocks on the example's disk.\<close>

definition empty_file :: inode where
  "empty_file = \<lparr>i_dev = ROOTDEV, i_inum = 1, i_ref = 1, i_lock = initsleeplock, i_valid = True, i_type = T_FILE, i_major = 0,
     i_minor = 0, i_nlink = 1, i_size = 0, i_addrs = replicate (Suc NDIRECT) 0\<rparr>"








section \<open>Inodes\<close>




section \<open>The inode table\<close>

text \<open>References are counted from zero, and an inode with references has one entry.\<close>

definition in_table :: "'z kfs_scheme \<Rightarrow> nat \<Rightarrow> uint32 \<Rightarrow> uint32 \<Rightarrow> bool" where
  "in_table s i dev inum \<longleftrightarrow> i < NINODE \<and> 0 < i_ref (itable s ! i) \<and> i_dev (itable s ! i) = dev \<and> i_inum (itable s ! i) = inum"

definition itable_inv :: "'z kfs_scheme \<Rightarrow> bool" where
  "itable_inv s \<longleftrightarrow> length (itable s) = NINODE \<and> (\<forall>i<NINODE. 0 \<le> i_ref (itable s ! i)) \<and>
     (\<forall>i j dev inum. in_table s i dev inum \<longrightarrow> in_table s j dev inum \<longrightarrow> i = j)"

lemma itable_invI:
  assumes "length (itable s) = NINODE" "\<And>i. i < NINODE \<Longrightarrow> 0 \<le> i_ref (itable s ! i)"
    "\<And>i j d n. in_table s i d n \<Longrightarrow> in_table s j d n \<Longrightarrow> i = j"
  shows "itable_inv s"
  using assms by (auto simp: itable_inv_def)

text \<open>What identifies an entry; most routines leave it alone.\<close>

definition key :: "inode \<Rightarrow> uint32 \<times> uint32 \<times> int" where
  "key x = (i_dev x, i_inum x, i_ref x)"

definition same_keys :: "'z kfs_scheme \<Rightarrow> 'z kfs_scheme \<Rightarrow> bool" where
  "same_keys s s' \<longleftrightarrow> map key (itable s') = map key (itable s)"

lemma same_keys_refl [simp, intro]: "same_keys s s"
  by (simp add: same_keys_def)

lemma same_keys_trans: "same_keys s s1 \<Longrightarrow> same_keys s1 s2 \<Longrightarrow> same_keys s s2"
  by (simp add: same_keys_def)

lemma same_keysD:
  assumes "same_keys s s'"
  shows "length (itable s') = length (itable s)" "i < length (itable s) \<Longrightarrow> key (itable s' ! i) = key (itable s ! i)"
proof -
  show l: "length (itable s') = length (itable s)" using assms unfolding same_keys_def by (metis length_map)
  assume "i < length (itable s)"
  then show "key (itable s' ! i) = key (itable s ! i)" using assms l unfolding same_keys_def by (metis nth_map)
qed

lemma same_keys_eq: "itable s' = itable s \<Longrightarrow> same_keys s s'"
  by (simp add: same_keys_def)

lemma same_keys_upd: "(\<And>x. key (f x) = key x) \<Longrightarrow> same_keys s (upd_inode ip f s)"
proof -
  assume k: "\<And>x. key (f x) = key x"
  then have "map key ((itable s)[ip := f (itable s ! ip)]) = map key (itable s)"
    by (cases "ip < length (itable s)") (auto simp: map_update list_update_same_conv list_update_beyond not_less)
  then show ?thesis by (simp add: same_keys_def)
qed

lemma itable_inv_keys:
  assumes "itable_inv s" "same_keys s s'"
  shows "itable_inv s'"
proof -
  have l: "length (itable s) = NINODE" using assms(1) by (simp add: itable_inv_def)
  have "key (itable s' ! i) = key (itable s ! i)" if "i < NINODE" for i using same_keysD(2) [OF assms(2)] that l by simp
  then have k: "i_dev (itable s' ! i) = i_dev (itable s ! i)" "i_inum (itable s' ! i) = i_inum (itable s ! i)"
    "i_ref (itable s' ! i) = i_ref (itable s ! i)" if "i < NINODE" for i using that by (simp_all add: key_def)
  then have "in_table s' i d n = in_table s i d n" for i d n by (auto simp: in_table_def)
  then show ?thesis using assms(1) same_keysD(1) [OF assms(2)] k by (auto simp: itable_inv_def)
qed

lemma iget_table:
  assumes "itable_inv s" "iget dev inum s = Ok (ip, s')"
  shows "itable_inv s'" "in_table s' ip dev inum" "i \<noteq> ip \<Longrightarrow> itable s' ! i = itable s ! i"
    "i_ref (itable s' ! ip) = (if \<exists>j. in_table s j dev inum then i_ref (itable s ! ip) else 0) + 1"
    "in_table s j dev inum \<Longrightarrow> j = ip"
proof -
  note inv = assms(1) [unfolded itable_inv_def]
  let ?P = "\<lambda>i. i_ref (itable s ! i) > 0 \<and> i_dev (itable s ! i) = dev \<and> i_inum (itable s ! i) = inum"
  have "itable_inv s' \<and> in_table s' ip dev inum \<and> (\<forall>i. i \<noteq> ip \<longrightarrow> itable s' ! i = itable s ! i) \<and>
    i_ref (itable s' ! ip) = (if \<exists>j. in_table s j dev inum then i_ref (itable s ! ip) else 0) + 1 \<and> (\<forall>j. in_table s j dev inum \<longrightarrow> j = ip)"
  proof (cases "find ?P [0..<NINODE]")
    case (Some q)
    then have q: "q < NINODE" "?P q" by (auto simp: find_Some_iff)
    then have t: "in_table s q dev inum" by (simp add: in_table_def)
    have s': "ip = q" "s' = upd_inode q (\<lambda>x. x\<lparr>i_ref := i_ref x + 1\<rparr>) s" using assms(2) Some by (auto simp: iget_def)
    have e: "itable s' ! i = (if i = q then (itable s ! q)\<lparr>i_ref := i_ref (itable s ! q) + 1\<rparr> else itable s ! i)" for i
      using q(1) inv s' by simp
    have "in_table s' i d n = in_table s i d n" for i d n using q e [of i] by (auto simp: in_table_def)
    then have "itable_inv s'" by (intro itable_invI) (use inv q e s'(2) in \<open>auto simp: nth_list_update\<close>)
    then show ?thesis using q t s'(1) e inv by (auto simp: in_table_def [of s'])
  next
    case None
    then have no: "\<not> in_table s i dev inum" for i by (auto simp: find_None_iff in_table_def)
    from None obtain q where q: "find (\<lambda>i. i_ref (itable s ! i) = 0) [0..<NINODE] = Some q" "ip = q"
      "s' = upd_inode q (\<lambda>x. x\<lparr>i_dev := dev, i_inum := inum, i_ref := 1, i_valid := False\<rparr>) s"
      using assms(2) by (auto simp: iget_def split: option.splits)
    then have z: "q < NINODE" "i_ref (itable s ! q) = 0" by (auto simp: find_Some_iff)
    have e: "itable s' ! i = (if i = q then (itable s ! q)\<lparr>i_dev := dev, i_inum := inum, i_ref := 1, i_valid := False\<rparr> else itable s ! i)" for i
      using z(1) inv q(3) by simp
    have t: "in_table s' i d n \<longleftrightarrow> (if i = q then d = dev \<and> n = inum else in_table s i d n)" for i d n
      using z e [of i] by (auto simp: in_table_def)
    have u: "i = j" if "in_table s' i d n" "in_table s' j d n" for i j d n using that inv no unfolding t by (metis (full_types))
    have "itable_inv s'" by (rule itable_invI) (use inv q(3) e u in \<open>simp, simp, blast\<close>)
    then show ?thesis using q(2) e no t by auto
  qed
  then show "itable_inv s'" "in_table s' ip dev inum" "i \<noteq> ip \<Longrightarrow> itable s' ! i = itable s ! i"
    "i_ref (itable s' ! ip) = (if \<exists>j. in_table s j dev inum then i_ref (itable s ! ip) else 0) + 1"
    "in_table s j dev inum \<Longrightarrow> j = ip" by blast+
qed

text \<open>Changing the count of an entry that has references.\<close>

lemma itable_inv_ref:
  assumes "itable_inv s" "ip < NINODE" "1 \<le> i_ref (itable s ! ip)" "0 \<le> r"
  shows "itable_inv (upd_inode ip (\<lambda>x. x\<lparr>i_ref := r\<rparr>) s)"
proof -
  let ?s = "upd_inode ip (\<lambda>x. x\<lparr>i_ref := r\<rparr>) s"
  note inv = assms(1) [unfolded itable_inv_def]
  have e: "itable ?s ! i = (if i = ip then (itable s ! ip)\<lparr>i_ref := r\<rparr> else itable s ! i)" for i using assms(2) inv by simp
  have "in_table ?s i d n \<Longrightarrow> in_table s i d n" for i d n using assms(3) e [of i] by (auto simp: in_table_def split: if_splits)
  then have u: "i = j" if "in_table ?s i d n" "in_table ?s j d n" for i j d n using that inv by blast
  have "0 \<le> i_ref (itable ?s ! i)" if "i < NINODE" for i unfolding e using that inv assms(4) by simp
  then show ?thesis using inv u by (intro itable_invI) (simp, blast+)
qed

text \<open>The routines behind \<^verbatim>\<open>ilock\<close> and \<^verbatim>\<open>iput\<close> do not touch the keys.\<close>

lemma bfree_keys: "bfree dev b s = Ok s' \<Longrightarrow> same_keys s s'"
  by (auto simp: bfree_def Let_def and_then_eq_Ok same_keys_def dest!: bread_fs log_write_fs brelse_fs split: if_splits)

lemma iupdate_keys: "iupdate ip s = Ok s' \<Longrightarrow> same_keys s s'"
  by (auto simp: iupdate_def Let_def and_then_eq_Ok same_keys_def dest!: bread_fs log_write_fs brelse_fs)

lemma loop_keys:
  assumes "\<And>i s s'. body i s = Ok s' \<Longrightarrow> same_keys s s'"
  shows "loop_res body is s = Ok s' \<Longrightarrow> same_keys s s'"
  by (induction "is" arbitrary: s) (auto simp: and_then_eq_Ok intro: same_keys_trans dest: assms)

lemma itrunc_direct_keys: "itrunc_direct ip k s = Ok s' \<Longrightarrow> same_keys s s'"
  by (auto simp: itrunc_direct_def Let_def and_then_eq_Ok key_def split: if_splits
      dest!: bfree_keys intro!: same_keys_upd intro: same_keys_trans)

lemma itrunc_keys: "itrunc ip s = Ok s' \<Longrightarrow> same_keys s s'"
proof -
  assume r: "itrunc ip s = Ok s'"
  obtain s1 where s1: "loop_res (itrunc_direct ip) [0..<NDIRECT] s = Ok s1" using r by (auto simp: itrunc_def and_then_eq_Ok)
  let ?i = "itable s1 ! ip"
  let ?ind = "if i_addrs ?i ! NDIRECT \<noteq> 0
     then and_then (bread (i_dev ?i) (i_addrs ?i ! NDIRECT) s1) (\<lambda>(bp, s).
          and_then (loop_res (\<lambda>j s. let a = rd32 (b_data (bufs s ! bp)) (4 * j) in if a \<noteq> 0 then bfree (i_dev ?i) a s else Ok s) [0..<NINDIRECT] s) (\<lambda>s.
          and_then (brelse bp s) (\<lambda>s.
          and_then (bfree (i_dev ?i) (i_addrs ?i ! NDIRECT) s) (\<lambda>s.
          Ok (upd_inode ip (\<lambda>x. x\<lparr>i_addrs := (i_addrs x)[NDIRECT := 0]\<rparr>) s)))))
     else Ok s1"
  obtain s2 where s2: "?ind = Ok s2" "iupdate ip (upd_inode ip (\<lambda>x. x\<lparr>i_size := 0\<rparr>) s2) = Ok s'"
    using r s1 by (auto simp: itrunc_def Let_def and_then_eq_Ok)
  have body: "same_keys s s'" if "(let a = rd32 (b_data (bufs s ! bp)) (4 * j) in if a \<noteq> 0 then bfree d a s else Ok s) = Ok s'" for bp j d and s s' :: "'a kfs_scheme"
    using that bfree_keys by (auto simp: Let_def split: if_splits)
  have k: "same_keys s1 s2"
  proof (cases "i_addrs ?i ! NDIRECT = 0")
    case False
    then obtain bp t1 t2 t3 t4 where t: "bread (i_dev ?i) (i_addrs ?i ! NDIRECT) s1 = Ok (bp, t1)"
      "loop_res (\<lambda>j s. let a = rd32 (b_data (bufs s ! bp)) (4 * j) in if a \<noteq> 0 then bfree (i_dev ?i) a s else Ok s) [0..<NINDIRECT] t1 = Ok t2"
      "brelse bp t2 = Ok t3" "bfree (i_dev ?i) (i_addrs ?i ! NDIRECT) t3 = Ok t4"
      "s2 = upd_inode ip (\<lambda>x. x\<lparr>i_addrs := (i_addrs x)[NDIRECT := 0]\<rparr>) t4"
      using s2(1) by (auto simp: and_then_eq_Ok)
    have "same_keys s1 t1" "same_keys t2 t3" using bread_fs [OF t(1)] brelse_fs [OF t(3)] by (simp_all add: same_keys_eq)
    moreover have "same_keys t1 t2" by (rule loop_keys [OF body t(2)])
    moreover have "same_keys t4 s2" unfolding t(5) by (rule same_keys_upd) (simp add: key_def)
    ultimately show ?thesis using bfree_keys [OF t(4)] by (metis same_keys_trans)
  qed (use s2(1) in simp)
  have u: "same_keys s2 (upd_inode ip (\<lambda>x. x\<lparr>i_size := 0\<rparr>) s2)" by (rule same_keys_upd) (simp add: key_def)
  show ?thesis
    by (rule same_keys_trans [OF loop_keys [OF itrunc_direct_keys s1] same_keys_trans [OF k same_keys_trans [OF u iupdate_keys [OF s2(2)]]]])
qed

lemma unlock_inode_keys: "same_keys s (unlock_inode ip s)"
  using same_keys_upd [of "\<lambda>x. x\<lparr>i_lock := releasesleep (i_lock x)\<rparr>" s ip] by (simp add: unlock_inode_def wakeup_def same_keys_def key_def)

lemma lock_inode_keys: "lock_inode ip s = Ok s' \<Longrightarrow> same_keys s s'"
  by (auto simp: lock_inode_def and_then_eq_Ok key_def intro!: same_keys_upd)

lemma iput_table:
  assumes "iput ip s = Ok s'"
  obtains t where "same_keys s t" "s' = upd_inode ip (\<lambda>x. x\<lparr>i_ref := i_ref x - 1\<rparr>) t"
proof -
  let ?i = "itable s ! ip"
  show ?thesis
  proof (cases "i_ref ?i = 1 \<and> i_valid ?i \<and> i_nlink ?i = 0")
    case True
    then obtain s1 s2 s3 where r: "lock_inode ip s = Ok s1" "itrunc ip s1 = Ok s2" "iupdate ip (upd_inode ip (\<lambda>x. x\<lparr>i_type := 0\<rparr>) s2) = Ok s3"
      "s' = upd_inode ip (\<lambda>x. x\<lparr>i_ref := i_ref x - 1\<rparr>) (unlock_inode ip (upd_inode ip (\<lambda>x. x\<lparr>i_valid := False\<rparr>) s3))"
      using assms by (auto simp: iput_def Let_def and_then_eq_Ok)
    have k: "same_keys s2 (upd_inode ip (\<lambda>x. x\<lparr>i_type := 0\<rparr>) s2)" "same_keys s3 (upd_inode ip (\<lambda>x. x\<lparr>i_valid := False\<rparr>) s3)"
      by (rule same_keys_upd, simp add: key_def)+
    have "same_keys s (unlock_inode ip (upd_inode ip (\<lambda>x. x\<lparr>i_valid := False\<rparr>) s3))"
      by (rule same_keys_trans [OF lock_inode_keys [OF r(1)] same_keys_trans [OF itrunc_keys [OF r(2)] same_keys_trans [OF k(1)
          same_keys_trans [OF iupdate_keys [OF r(3)] same_keys_trans [OF k(2) unlock_inode_keys]]]]])
    then show ?thesis using that r(4) by blast
  next
    case False
    then show ?thesis using assms that [of s] by (auto simp: iput_def Let_def)
  qed
qed

text \<open>
  Uses of the table: \<^verbatim>\<open>iget\<close> of any inode, \<^verbatim>\<open>idup\<close>, \<^verbatim>\<open>ilock\<close>, \<^verbatim>\<open>iunlock\<close> and \<^verbatim>\<open>iput\<close> of an entry that has
  references.
\<close>

inductive itab :: "'z kfs_scheme \<Rightarrow> 'z kfs_scheme \<Rightarrow> bool" where
  get: "iget dev inum s = Ok (ip, s') \<Longrightarrow> itab s s'"
| dup: "ip < NINODE \<Longrightarrow> 1 \<le> i_ref (itable s ! ip) \<Longrightarrow> itab s (idup ip s)"
| lock: "ilock ip s = Ok s' \<Longrightarrow> itab s s'"
| unlock: "iunlock ip s = Ok s' \<Longrightarrow> itab s s'"
| put: "ip < NINODE \<Longrightarrow> 1 \<le> i_ref (itable s ! ip) \<Longrightarrow> iput ip s = Ok s' \<Longrightarrow> itab s s'"

inductive itabs :: "'z kfs_scheme \<Rightarrow> 'z kfs_scheme \<Rightarrow> bool" where
  none: "itabs s s"
| more: "itabs s s1 \<Longrightarrow> itab s1 s2 \<Longrightarrow> itabs s s2"

lemma ilock_keys:
  assumes "ilock ip s = Ok s'"
  shows "same_keys s s'"
proof -
  obtain s1 where s1: "lock_inode ip s = Ok s1" using assms by (auto simp: ilock_def and_then_eq_Ok split: if_splits)
  note k = lock_inode_keys [OF s1]
  have u: "same_keys t (upd_inode ip (set_dinode di) t)" "same_keys t (upd_inode ip (\<lambda>x. x\<lparr>i_valid := True\<rparr>) t)" for t :: "'a kfs_scheme" and di
    by (rule same_keys_upd, simp add: key_def set_dinode_def)+
  show ?thesis
  proof (cases "i_valid (itable s1 ! ip)")
    case True
    then show ?thesis using assms s1 k by (auto simp: ilock_def split: if_splits)
  next
    case False
    then obtain b t1 t2 di where t: "bread (i_dev (itable s1 ! ip)) (IBLOCK (i_inum (itable s1 ! ip)) (sb s1)) s1 = Ok (b, t1)"
      "brelse b (upd_inode ip (set_dinode di) t1) = Ok t2" "s' = upd_inode ip (\<lambda>x. x\<lparr>i_valid := True\<rparr>) t2"
      using assms s1 by (auto simp: ilock_def Let_def and_then_eq_Ok split: if_splits)
    have "same_keys s1 t1" "same_keys (upd_inode ip (set_dinode di) t1) t2"
      using bread_fs [OF t(1)] brelse_fs [OF t(2)] by (simp_all add: same_keys_def)
    then show ?thesis unfolding t(3) using k u by (metis same_keys_trans)
  qed
qed

lemma itab_inv: "itab s s' \<Longrightarrow> itable_inv s \<Longrightarrow> itable_inv s'"
proof (induction rule: itab.induct)
  case (get dev inum s ip s')
  show ?case by (rule iget_table(1) [OF get(2,1)])
next
  case (dup ip s)
  have "idup ip s = upd_inode ip (\<lambda>x. x\<lparr>i_ref := i_ref (itable s ! ip) + 1\<rparr>) s" by (simp add: idup_def upd_inode_def)
  then show ?case using itable_inv_ref [OF dup(3,1,2)] dup(2) by simp
next
  case (lock ip s s')
  show ?case by (rule itable_inv_keys [OF lock(2) ilock_keys [OF lock(1)]])
next
  case (unlock ip s s')
  then have "s' = unlock_inode ip s" by (auto simp: iunlock_def split: if_splits)
  then show ?case using itable_inv_keys [OF unlock(2) unlock_inode_keys] by simp
next
  case (put ip s s')
  obtain t where t: "same_keys s t" "s' = upd_inode ip (\<lambda>x. x\<lparr>i_ref := i_ref x - 1\<rparr>) t" by (rule iput_table [OF put(3)])
  have "i_ref (itable t ! ip) = i_ref (itable s ! ip)"
    using same_keysD(2) [OF t(1), of ip] put(1,4) by (simp add: itable_inv_def key_def)
  moreover have "s' = upd_inode ip (\<lambda>x. x\<lparr>i_ref := i_ref (itable t ! ip) - 1\<rparr>) t" by (simp add: t(2) upd_inode_def)
  ultimately show ?case using itable_inv_ref [OF itable_inv_keys [OF put(4) t(1)] put(1)] put(2) by simp
qed

text \<open>
  C8. One entry per inode. Starting from a table where every inode in use has one entry, as
  the empty table after boot, no sequence of \<^verbatim>\<open>iget\<close>, \<^verbatim>\<open>idup\<close>, \<^verbatim>\<open>ilock\<close>,
  \<^verbatim>\<open>iunlock\<close> and \<^verbatim>\<open>iput\<close> (truncation and freeing of unlinked inodes included) leads to two entries for one inode or
  a negative count.
\<close>

theorem itable_one_entry_per_inode:
  assumes "itabs s s'" "itable_inv s"
  shows "itable_inv s'"
  using assms by (induction rule: itabs.induct) (auto intro: itab_inv)

definition empty_table :: "inode list" where
  "empty_table = replicate NINODE (empty_file\<lparr>i_ref := 0\<rparr>)"

lemma empty_table_inv: "itable_inv (demo_fs d empty_table)"
  by (auto simp: itable_inv_def in_table_def empty_table_def)

lemma empty_table_iget: "iget 1 5 (demo_fs d empty_table) = Ok (0,
  upd_inode 0 (\<lambda>x. x\<lparr>i_dev := 1, i_inum := 5, i_ref := 1, i_valid := False\<rparr>) (demo_fs d empty_table))"
proof -
  have "find (\<lambda>i. 0 < i_ref (empty_table ! i) \<and> i_dev (empty_table ! i) = 1 \<and> i_inum (empty_table ! i) = 5) [0..<NINODE] = None"
    by (auto simp: find_None_iff empty_table_def)
  moreover have "[0..<NINODE] = 0 # [1..<NINODE]" by (simp add: NINODE_def upt_conv_Cons)
  then have "find (\<lambda>i. i_ref (empty_table ! i) = 0) [0..<NINODE] = Some 0" by (simp add: empty_table_def NINODE_def)
  ultimately show ?thesis by (simp add: iget_def)
qed

theorem itable_one_entry_per_inode_witness:
  "\<exists>s'. itabs (demo_fs demo_disk empty_table) s' \<and> in_table s' 0 1 5 \<and> itable_inv s'"
proof -
  let ?s = "demo_fs demo_disk empty_table"
  let ?t = "upd_inode 0 (\<lambda>x. x\<lparr>i_dev := 1, i_inum := 5, i_ref := 1, i_valid := False\<rparr>) ?s"
  have "itabs ?s ?t" by (rule itabs.more [OF itabs.none itab.get [OF empty_table_iget]])
  moreover have "in_table ?t 0 1 5" by (simp add: in_table_def NINODE_def empty_table_def)
  ultimately show ?thesis using itable_one_entry_per_inode [OF _ empty_table_inv] by blast
qed

text \<open>
  C27. Getting an inode. \<^verbatim>\<open>iget\<close> returns the entry of the inode if there is one, and a fresh, unloaded one
  otherwise; it counts the new reference, leaves all other entries alone, and panics only when
  the inode has no entry and all entries are taken.
\<close>

theorem iget_finds_or_takes_entry:
  assumes "itable_inv s"
  shows "case iget dev inum s of
      Ok (ip, s') \<Rightarrow> in_table s' ip dev inum \<and> (\<forall>i. i \<noteq> ip \<longrightarrow> itable s' ! i = itable s ! i) \<and>
        (if \<exists>j. in_table s j dev inum then in_table s ip dev inum \<and> itable s' ! ip = (itable s ! ip)\<lparr>i_ref := i_ref (itable s ! ip) + 1\<rparr>
         else i_ref (itable s ! ip) = 0 \<and> i_ref (itable s' ! ip) = 1 \<and> \<not> i_valid (itable s' ! ip))
    | Panic m \<Rightarrow> m = ''iget: no inodes'' \<and> (\<forall>i<NINODE. 0 < i_ref (itable s ! i)) \<and> (\<forall>j. \<not> in_table s j dev inum)
    | _ \<Rightarrow> False"
proof (cases "find (\<lambda>i. i_ref (itable s ! i) > 0 \<and> i_dev (itable s ! i) = dev \<and> i_inum (itable s ! i) = inum) [0..<NINODE]")
  case (Some q)
  then have r: "iget dev inum s = Ok (q, upd_inode q (\<lambda>x. x\<lparr>i_ref := i_ref x + 1\<rparr>) s)" by (simp add: iget_def)
  have "in_table s q dev inum" "q < length (itable s)" using assms Some by (auto simp: find_Some_iff in_table_def itable_inv_def)
  then show ?thesis using iget_table(2,3) [OF assms r] r by auto
next
  case None
  then have no: "\<not> in_table s j dev inum" for j by (auto simp: find_None_iff in_table_def)
  show ?thesis
  proof (cases "find (\<lambda>i. i_ref (itable s ! i) = 0) [0..<NINODE]")
    case (Some q)
    then have r: "iget dev inum s = Ok (q, upd_inode q (\<lambda>x. x\<lparr>i_dev := dev, i_inum := inum, i_ref := 1, i_valid := False\<rparr>) s)"
      using None by (simp add: iget_def)
    have "i_ref (itable s ! q) = 0" "q < length (itable s)" using assms Some by (auto simp: find_Some_iff itable_inv_def)
    then show ?thesis using iget_table(2,3) [OF assms r] no r by auto
  next
    case None': None
    then have "\<forall>i<NINODE. i_ref (itable s ! i) \<noteq> 0" by (auto simp: find_None_iff)
    then have "\<forall>i<NINODE. 0 < i_ref (itable s ! i)" using assms by (metis itable_inv_def order_le_neq_trans)
    then show ?thesis using None None' no by (simp add: iget_def)
  qed
qed

theorem iget_finds_or_takes_entry_witness:
  "\<exists>s'. iget 1 5 (demo_fs demo_disk empty_table) = Ok (0, s') \<and> in_table s' 0 1 5 \<and> itable s' ! 1 = empty_table ! 1"
  using iget_finds_or_takes_entry [OF empty_table_inv [of demo_disk], of 1 5] by (auto simp: empty_table_iget)

end
