(* ===== verification/NameThms.thy ===== *)
theory NameThms
  imports SwapFile
begin

text \<open>
  Names: the elements of a path, the entries of a directory, and the names of swap files.
\<close>

section \<open>Paths\<close>

text \<open>The elements that a walk along a path visits, and the pieces between the slashes.\<close>

function path_elems :: "uchar list \<Rightarrow> uchar list list" where
  "path_elems pn = (case skipelem pn of None \<Rightarrow> [] | Some (name, rest) \<Rightarrow> name # path_elems rest)"
  by pat_completeness auto
termination
  by (relation "measure length") (auto simp: skipelem_shorter)

declare path_elems.simps [simp del]

fun pieces :: "'a \<Rightarrow> 'a list \<Rightarrow> 'a list list" where
  "pieces c [] = [[]]"
| "pieces c (x # xs) = (if x = c then [] # pieces c xs else (case pieces c xs of [] \<Rightarrow> [[x]] | y # ys \<Rightarrow> (x # y) # ys))"

lemma pieces_dropWhile: "filter (\<lambda>y. y \<noteq> []) (pieces c (dropWhile (\<lambda>x. x = c) xs)) = filter (\<lambda>y. y \<noteq> []) (pieces c xs)"
  by (induction xs) auto

lemma pieces_span:
  "pieces c xs = takeWhile (\<lambda>x. x \<noteq> c) xs # (case dropWhile (\<lambda>x. x \<noteq> c) xs of [] \<Rightarrow> [] | y # ys \<Rightarrow> pieces c ys)"
  by (induction xs) auto

text \<open>
  C28. Path names. Walking along a path with \<^verbatim>\<open>skipelem\<close> yields the pieces of the path between
  slashes, without the empty ones and each cut to \<^const>\<open>DIRSIZ\<close> bytes, in order.
\<close>

theorem skipelem_splits_path:
  "path_elems pn = map (take DIRSIZ) (filter (\<lambda>y. y \<noteq> []) (pieces slash pn))"
proof (induction pn rule: path_elems.induct)
  case (1 pn)
  define p where "p = dropWhile (\<lambda>c. c = slash) pn"
  have f: "filter (\<lambda>y. y \<noteq> []) (pieces slash pn) = filter (\<lambda>y. y \<noteq> []) (pieces slash p)" by (simp add: p_def pieces_dropWhile)
  show ?case
  proof (cases p)
    case Nil
    then show ?thesis using f by (simp add: path_elems.simps [of pn] skipelem_def p_def [symmetric])
  next
    case (Cons x xs)
    then have x: "x \<noteq> slash" by (metis (mono_tags, lifting) p_def dropWhile_eq_Cons_conv)
    let ?r = "dropWhile (\<lambda>c. c \<noteq> slash) p"
    have s: "skipelem pn = Some (take DIRSIZ (takeWhile (\<lambda>c. c \<noteq> slash) p), dropWhile (\<lambda>c. c = slash) ?r)"
      using Cons by (simp add: skipelem_def p_def [symmetric])
    have t: "filter (\<lambda>y. y \<noteq> []) (pieces slash (dropWhile (\<lambda>c. c = slash) ?r)) =
      filter (\<lambda>y. y \<noteq> []) (case ?r of [] \<Rightarrow> [] | y # ys \<Rightarrow> pieces slash ys)"
    proof (cases ?r)
      case (Cons y ys)
      then have "y = slash" by (metis (mono_tags, lifting) dropWhile_eq_Cons_conv)
      then show ?thesis unfolding pieces_dropWhile using Cons by simp
    next
      case Nil
      then show ?thesis unfolding Nil by simp
    qed
    have "takeWhile (\<lambda>c. c \<noteq> slash) p \<noteq> []" using Cons x by simp
    then have g: "filter (\<lambda>y. y \<noteq> []) (pieces slash p) =
      takeWhile (\<lambda>c. c \<noteq> slash) p # filter (\<lambda>y. y \<noteq> []) (case ?r of [] \<Rightarrow> [] | y # ys \<Rightarrow> pieces slash ys)"
      by (subst pieces_span) simp
    have "path_elems pn = take DIRSIZ (takeWhile (\<lambda>c. c \<noteq> slash) p) # path_elems (dropWhile (\<lambda>c. c = slash) ?r)"
      by (simp add: path_elems.simps [of pn] s)
    then show ?thesis using 1 [OF s refl] by (simp only: f g t list.map)
  qed
qed

section \<open>Directory entries\<close>

lemma strncmp_name_eq:
  "strncmp_name n p q = 0 \<longleftrightarrow> take n (takeWhile (\<lambda>c. c \<noteq> 0) p) = take n (takeWhile (\<lambda>c. c \<noteq> 0) q)"
proof (induction n p q rule: strncmp_name.induct)
  case (5 n a p b q)
  have "int (unat a) - int (unat b) = 0 \<longleftrightarrow> a = b" by (metis diff_self eq_iff_diff_eq_0 of_nat_eq_iff word_unat_eq_iff)
  then show ?case using 5 by auto
qed (auto simp: uint_0_iff)

text \<open>
  C29. Directory entries. The entry that \<^verbatim>\<open>dirlink\<close> writes has the size of an entry and gives back its
  inode number, and \<^verbatim>\<open>namecmp\<close> finds it under exactly the names that agree with the linked name
  in the first \<^const>\<open>DIRSIZ\<close> bytes.
\<close>

theorem dirent_roundtrip:
  assumes "0 \<notin> set name" "0 \<notin> set n"
  shows "length (mk_dirent inum name) = 16 \<and> de_inum (mk_dirent inum name) = inum \<and>
    (namecmp n (de_name (mk_dirent inum name)) = 0 \<longleftrightarrow> take DIRSIZ n = take DIRSIZ name)"
proof -
  have t: "takeWhile (\<lambda>c. c \<noteq> 0) n = n" using assms(2) by (auto simp: takeWhile_eq_all_conv)
  have "\<forall>c\<in>set (take DIRSIZ name). c \<noteq> 0" using assms(1) by (metis in_set_takeD)
  then have u: "takeWhile (\<lambda>c. c \<noteq> 0) (take DIRSIZ name @ replicate k 0) = take DIRSIZ name" for k
    by (cases k) (auto simp: takeWhile_append2 takeWhile_append)
  have "de_name (mk_dirent inum name) = take DIRSIZ name @ replicate (DIRSIZ - length name) 0" by (simp add: de_name_def mk_dirent_def)
  then have "namecmp n (de_name (mk_dirent inum name)) = 0 \<longleftrightarrow> take DIRSIZ n = take DIRSIZ name"
    unfolding namecmp_def strncmp_name_eq by (simp add: t u)
  moreover have "de_inum (mk_dirent inum name) = inum"
    by (rule bit_word_eqI) (auto simp: de_inum_def mk_dirent_def bit_simps)
  moreover have "length (mk_dirent inum name) = 16" by (simp add: mk_dirent_def DIRSIZ_def)
  ultimately show ?thesis by blast
qed

theorem dirent_roundtrip_witness:
  "de_inum (mk_dirent 7 [97, 98]) = 7 \<and> namecmp [97, 98] (de_name (mk_dirent 7 [97, 98])) = 0 \<and>
   namecmp [97] (de_name (mk_dirent 7 [97, 98])) \<noteq> 0"
  using dirent_roundtrip [of "[97, 98]" "[97, 98]" 7] dirent_roundtrip [of "[97, 98]" "[97]" 7] by (simp add: DIRSIZ_def)

section \<open>Numbers\<close>

declare itoa_len.simps [simp del] itoa_fill.simps [simp del]

text \<open>The decimal digits of a number, most significant first.\<close>

function dec :: "nat \<Rightarrow> nat list" where
  "dec n = (if n < 10 then [n] else dec (n div 10) @ [n mod 10])"
  by pat_completeness auto
termination by (relation "measure id") auto

declare dec.simps [simp del]

definition ascii :: "nat \<Rightarrow> uchar" where
  "ascii d = word_of_nat (48 + d)"

lemma itoa_len_dec: "itoa_len n = length (dec n)"
proof (induction n rule: dec.induct)
  case (1 n)
  then show ?case by (subst itoa_len.simps, subst dec.simps) auto
qed

lemma itoa_fill_dec:
  "length (dec n) \<le> p \<Longrightarrow> p \<le> length b \<Longrightarrow> itoa_fill n p b = take (p - length (dec n)) b @ map ascii (dec n) @ drop p b"
proof (induction n arbitrary: p b rule: dec.induct)
  case (1 n)
  show ?case
  proof (cases "n < 10")
    case True
    then have d: "dec n = [n]" by (simp add: dec.simps)
    show ?thesis using True 1(2,3) unfolding d
      by (subst itoa_fill.simps) (auto simp: upd_conv_take_nth_drop ascii_def)
  next
    case False
    then have d: "dec n = dec (n div 10) @ [n mod 10]" by (subst dec.simps) simp
    then have p: "0 < p" "length (dec (n div 10)) \<le> p - 1" using 1(2) by auto
    let ?b = "b[p - 1 := ascii (n mod 10)]"
    have "itoa_fill n p b = itoa_fill (n div 10) (p - 1) ?b"
      using False by (subst itoa_fill.simps) (auto simp: ascii_def Let_def)
    also have "\<dots> = take (p - 1 - length (dec (n div 10))) ?b @ map ascii (dec (n div 10)) @ drop (p - 1) ?b"
      using 1(1) [OF False p(2)] 1(3) p(1) by simp
    also have "drop (p - 1) ?b = ascii (n mod 10) # drop p b" using p(1) 1(3) by (simp add: drop_update_swap Cons_nth_drop_Suc [symmetric])
    also have "take (p - 1 - length (dec (n div 10))) ?b = take (p - 1 - length (dec (n div 10))) b" by simp
    finally show ?thesis unfolding d by simp
  qed
qed

lemma itoa_dec: "itoa (int n) = map ascii (dec n)"
  by (simp add: itoa_def itoa_len_dec itoa_fill_dec)



lemma length_dec: "0 < k \<Longrightarrow> length (dec n) \<le> k \<longleftrightarrow> n < 10 ^ k"
proof (induction n arbitrary: k rule: dec.induct)
  case (1 n)
  show ?case
  proof (cases "n < 10")
    case True
    then have "n < 10 ^ k" using 1(2) power_increasing [of 1 k "10 :: nat"] by simp
    then show ?thesis using True 1(2) by (simp add: dec.simps)
  next
    case False
    then have d: "length (dec n) = Suc (length (dec (n div 10)))" by (subst dec.simps) simp
    show ?thesis
    proof (cases "k = 1")
      case True
      have "0 < length (dec (n div 10))" by (subst dec.simps) simp
      then show ?thesis using True False d by simp
    next
      case k: False
      then obtain m where m: "k = Suc m" "0 < m" using 1(2) by (cases k) auto
      have "n div 10 < 10 ^ m \<longleftrightarrow> n < 10 ^ k" using m(1) by (simp add: div_less_iff_less_mult mult.commute)
      then show ?thesis using 1(1) [OF False m(2)] d m(1) by simp
    qed
  qed
qed




text \<open>
  C31. The buffer for the name of a swap file. The name with its terminator fits into the array of
  \<^const>\<open>DIGITS\<close> bytes exactly for process ids below ten million; from there on \<^verbatim>\<open>itoa\<close> writes past
  the end of the array on the kernel stack.
\<close>

theorem swap_path_fits:
  assumes "0 \<le> pid"
  shows "length (swap_path pid) + 1 \<le> DIGITS \<longleftrightarrow> pid < 10 ^ 7"
proof -
  obtain n where n: "pid = int n" using assms by (metis nonneg_int_cases)
  have "length (swap_path pid) + 1 \<le> DIGITS \<longleftrightarrow> length (dec n) \<le> 7" by (simp add: n swap_path_def itoa_dec DIGITS_def)
  also have "\<dots> \<longleftrightarrow> n < 10 ^ 7" by (rule length_dec) simp
  finally show ?thesis by (simp add: n)
qed

theorem swap_path_fits_witness:
  "length (swap_path 4) + 1 \<le> DIGITS \<and> \<not> length (swap_path 10000000) + 1 \<le> DIGITS"
  using swap_path_fits [of 4] swap_path_fits [of 10000000] by simp

end
