(* ===== verification/BufThms.thy ===== *)
theory BufThms
  imports NameThms
begin

text \<open>
  Properties of the kernel's buffers and of the devices behind them: the queue, pipes, the
  transmit buffer of the uart, printed numbers, and line editing on the console.
\<close>

section \<open>The queue\<close>

datatype queue_op = Enqueue int | Dequeue | Remove int | Rotate

fun queue_do :: "queue_op \<Rightarrow> queue \<Rightarrow> queue" where
  "queue_do (Enqueue a) x = enqueue a x"
| "queue_do Dequeue x = snd (dequeue x)"
| "queue_do (Remove a) x = remove_item a x"
| "queue_do Rotate x = front_to_rear x"

text \<open>The same on lists; a full queue refuses, and rotating an empty queue enters the \<^verbatim>\<open>-1\<close> it got.\<close>

fun list_do :: "queue_op \<Rightarrow> int list \<Rightarrow> int list" where
  "list_do (Enqueue a) xs = (if length xs < 32 then xs @ [a] else xs)"
| "list_do Dequeue xs = tl xs"
| "list_do (Remove a) xs = filter (\<lambda>b. b \<noteq> a) xs"
| "list_do Rotate xs = (case xs of [] \<Rightarrow> [-1] | x # xs \<Rightarrow> xs @ [x])"

lemma queue_do_list:
  assumes q: "queue_inv x"
  shows "queue_inv (queue_do p x) \<and> queue_elems (queue_do p x) = list_do p (queue_elems x)"
proof -
  have len: "int (length (queue_elems x)) = q_size x" using q by (rule length_queue_elems)
  have full: "q_size x = 32 \<longleftrightarrow> \<not> length (queue_elems x) < 32" using len q unfolding queue_inv_def by linarith
  have emp: "q_size x = 0 \<longleftrightarrow> queue_elems x = []" using len by auto
  have en: "queue_inv (enqueue a y) \<and> queue_elems (enqueue a y) = queue_elems y @ [a]" if "queue_inv y" "q_size y < 32" for a y
    using enqueue_spec [OF that] by blast
  show ?thesis
  proof (cases p)
    case (Enqueue a)
    then show ?thesis using q full en [OF q, of a] by (cases "q_size x = 32") (auto simp: enqueue_def queue_inv_def)
  next
    case Dequeue
    show ?thesis
    proof (cases "q_size x = 0")
      case True
      then show ?thesis using q emp Dequeue by (simp add: dequeue_def)
    next
      case False
      then have "q_size x > 0" using q by (simp add: queue_inv_def)
      then show ?thesis using dequeue_spec [OF q] Dequeue by simp
    qed
  next
    case (Remove a)
    have "length (queue_elems x) = nat (q_size x)" using len by simp
    then show ?thesis using remove_loop_spec [OF q, of "queue_elems x" "[]" _ a] Remove by (simp add: remove_item_def)
  next
    case Rotate
    show ?thesis
    proof (cases "q_size x = 0")
      case True
      then show ?thesis using en [OF q, of "-1"] emp Rotate by (simp add: front_to_rear_def dequeue_def)
    next
      case False
      then have "q_size x > 0" using q by (simp add: queue_inv_def)
      note d = dequeue_spec [OF q this]
      have "q_size (snd (dequeue x)) < 32" using d(3) q by (simp add: queue_inv_def)
      from en [OF d(1) this, of "fst (dequeue x)"] show ?thesis using d(2) Rotate by (simp add: front_to_rear_def case_prod_unfold)
    qed
  qed
qed

text \<open>
  C32. The queue implements a list of at most 32 integers: any sequence of \<^verbatim>\<open>enqueue\<close>, \<^verbatim>\<open>dequeue\<close>,
  \<^verbatim>\<open>remove_item\<close> and \<^verbatim>\<open>front_to_rear\<close> acts on the elements as the list operations do, and the next
  \<^verbatim>\<open>dequeue\<close> returns the head.
\<close>

theorem queue_refines_list:
  assumes "queue_inv x"
  shows "queue_inv (fold queue_do ps x) \<and> queue_elems (fold queue_do ps x) = fold list_do ps (queue_elems x) \<and>
    fst (dequeue (fold queue_do ps x)) = (case fold list_do ps (queue_elems x) of [] \<Rightarrow> -1 | a # _ \<Rightarrow> a)"
proof -
  have r: "queue_inv (fold queue_do ps x) \<and> queue_elems (fold queue_do ps x) = fold list_do ps (queue_elems x)"
    using assms queue_do_list by (induction ps arbitrary: x) auto
  let ?y = "fold queue_do ps x"
  have len: "int (length (queue_elems ?y)) = q_size ?y" using r by (intro length_queue_elems) simp
  have "fst (dequeue ?y) = (case queue_elems ?y of [] \<Rightarrow> -1 | a # _ \<Rightarrow> a)"
  proof (cases "queue_elems ?y")
    case Nil
    then show ?thesis using len by (simp add: dequeue_def)
  next
    case (Cons a as)
    then have "q_size ?y > 0" using len by simp
    then show ?thesis using dequeue_spec(2) [of ?y] r Cons by simp
  qed
  then show ?thesis using r by simp
qed

definition new_queue :: queue where
  "new_queue = \<lparr>q_front = 0, q_rear = -1, q_size = 0, q_q = replicate 32 0\<rparr>"

theorem queue_refines_list_witness:
  "queue_elems (fold queue_do [Enqueue 5, Enqueue 6, Enqueue 5, Enqueue 7, Remove 5, Rotate] new_queue) = [7, 6]"
  using queue_refines_list [of new_queue "[Enqueue 5, Enqueue 6, Enqueue 5, Enqueue 7, Remove 5, Rotate]"]
  by (simp add: new_queue_def queue_inv_def queue_elems_def)

section \<open>Pipes\<close>

text \<open>The bytes in a pipe, and the invariant of its ring.\<close>

definition pipe_elems :: "pipe \<Rightarrow> uchar list" where
  "pipe_elems p = ring_elems PIPESIZE (pi_data p) (pi_nread p) (pi_nwrite p)"

definition pipe_inv :: "pipe \<Rightarrow> bool" where
  "pipe_inv p \<longleftrightarrow> length (pi_data p) = PIPESIZE \<and> unat (pi_nwrite p - pi_nread p) \<le> PIPESIZE"

lemma pipe_elems_length: "length (pipe_elems p) = unat (pi_nwrite p - pi_nread p)"
  by (simp add: pipe_elems_def)

lemma pipe_full: "pi_nwrite p = pi_nread p + word_of_nat PIPESIZE \<longleftrightarrow> length (pipe_elems p) = PIPESIZE"
proof -
  have "pi_nwrite p = pi_nread p + word_of_nat PIPESIZE \<longleftrightarrow> pi_nwrite p - pi_nread p = word_of_nat PIPESIZE"
    by (auto simp: algebra_simps)
  also have "\<dots> \<longleftrightarrow> unat (pi_nwrite p - pi_nread p) = PIPESIZE" by (simp add: word_unat_eq_iff PIPESIZE_def)
  finally show ?thesis by (simp add: pipe_elems_length)
qed

lemma pipe_empty: "pi_nread p = pi_nwrite p \<longleftrightarrow> pipe_elems p = []"
  by (simp add: pipe_elems_def ring_empty)

interpretation pipe_fifo: fifo pipe_inv pipe_elems PIPESIZE pipe_put pipe_get
proof
  fix p :: pipe and x
  assume i: "pipe_inv p"
  then show "length (pipe_elems p) \<le> PIPESIZE" by (simp add: pipe_inv_def pipe_elems_length)
  let ?n = "unat (pi_nwrite p - pi_nread p)"
  show "pipe_elems (pipe_put x p) = pipe_elems p @ [x]" "pipe_inv (pipe_put x p)" if "length (pipe_elems p) < PIPESIZE"
  proof -
    have n: "?n < PIPESIZE" using that by (simp add: pipe_elems_length)
    show e: "pipe_elems (pipe_put x p) = pipe_elems p @ [x]"
      using ring_put [of PIPESIZE "pi_data p" "pi_nwrite p" "pi_nread p" x] i n by (simp add: pipe_elems_def pipe_put_def pipe_inv_def PIPESIZE_def)
    have "length (pipe_elems (pipe_put x p)) \<le> PIPESIZE" unfolding e using that by simp
    then show "pipe_inv (pipe_put x p)" using i by (simp add: pipe_inv_def pipe_elems_length) (simp add: pipe_put_def)
  qed
  show "fst (pipe_get p) = hd (pipe_elems p) \<and> pipe_elems (snd (pipe_get p)) = tl (pipe_elems p)" "pipe_inv (snd (pipe_get p))"
    if "pipe_elems p \<noteq> []"
  proof -
    have ne: "pi_nread p \<noteq> pi_nwrite p" using that by (simp add: pipe_empty)
    show e: "fst (pipe_get p) = hd (pipe_elems p) \<and> pipe_elems (snd (pipe_get p)) = tl (pipe_elems p)"
      using ring_get [OF ne, of PIPESIZE "pi_data p"] by (simp add: pipe_elems_def pipe_get_def)
    have "length (pipe_elems (snd (pipe_get p))) \<le> PIPESIZE" using e i unfolding pipe_inv_def pipe_elems_length [symmetric] by auto
    then show "pipe_inv (snd (pipe_get p))" using i by (simp add: pipe_inv_def pipe_elems_length) (simp add: pipe_get_def)
  qed
qed


definition wrapping_pipe :: pipe where
  "wrapping_pipe = \<lparr>pi_data = replicate 512 0, pi_nread = 0xFFFFFFFF, pi_nwrite = 0xFFFFFFFF, pi_readopen = True, pi_writeopen = True\<rparr>"


text \<open>Reading user memory depends on the memory only.\<close>

lemma walk_loop_ram: "ram s' = ram s \<Longrightarrow> walk_loop l t va False s' = (fst (walk_loop l t va False s), s')"
  by (induction l arbitrary: t) (auto simp: Let_def)

lemma walkaddr_ram: "ram s' = ram s \<Longrightarrow> walkaddr t va s' = walkaddr t va s"
proof -
  assume e: "ram s' = ram s"
  obtain p where "walk_loop 2 t va False s = (p, s)" "walk_loop 2 t va False s' = (p, s')"
    using walk_loop_ram [OF e, of 2 t va] walk_loop_ram [of s s 2 t va] by (metis fst_conv)
  then show ?thesis using e by (simp add: walkaddr_def walk_def)
qed

lemma copyin_ram: "ram s' = ram s \<Longrightarrow> copyin t va n s' = copyin t va n s"
proof (induction n arbitrary: va rule: less_induct)
  case (less n)
  show ?case
  proof (cases "n = 0")
    case False
    let ?m = "min (unat (PGSIZE - (va - PGROUNDDOWN va))) n"
    have "n - ?m < n" using False page_rest(1) [of va] by auto
    from less.IH [OF this less.prems] have ih: "copyin t v (n - ?m) s' = copyin t v (n - ?m) s" for v .
    show ?thesis unfolding copyin.simps [of t va n s'] copyin.simps [of t va n s] Let_def
        walkaddr_ram [OF less.prems] less.prems ih ..
  qed (simp add: copyin.simps)
qed

lemma copyin_one: "copyin t va 1 s = Ok (r, bs) \<Longrightarrow> r = -1 \<or> r = 0 \<and> (\<exists>b. bs = [b])"
proof -
  assume a: "copyin t va 1 s = Ok (r, bs)"
  have "min (unat (PGSIZE - (va - PGROUNDDOWN va))) 1 = 1" using page_rest(1) [of va] by simp
  then show ?thesis using a
    by (subst (asm) copyin.simps) (auto simp: Let_def and_then_eq_Ok copyin.simps [of _ _ 0] load_bytes_def split: if_splits)
qed

lemma upd_pipe_simps [simp]:
  "ram (upd_pipe p g s) = ram s" "procs (upd_pipe p g s) = procs s" "cur (upd_pipe p g s) = cur s"
  "pipes (upd_pipe p g s) = (pipes s)(p := g (pipes s p))" "myproc (upd_pipe p g s) = myproc s"
  by (simp_all add: upd_pipe_def myproc_def)

lemma pipewrite_loop_ok:
  fixes s :: "'z kfile_scheme"
  assumes "pipe_inv (pipes s pi)" "pipewrite_loop k pi a i s = Ok (out, s')"
  shows "\<exists>bs. pipe_elems (pipes s' pi) = pipe_elems (pipes s pi) @ bs \<and> pipe_inv (pipes s' pi) \<and> length bs \<le> k \<and>
    (\<forall>j<length bs. copyin (p_pagetable (myproc s)) (a + word_of_nat (i + j)) 1 s = Ok (0, [bs ! j])) \<and>
    (\<forall>q. q \<noteq> pi \<longrightarrow> pipes s' q = pipes s q) \<and> ram s' = ram s \<and>
    (case out of
       Done v \<Rightarrow> v = -1 \<and> (\<not> pi_readopen (pipes s pi) \<or> p_killed (myproc s)) \<or>
         v = int (i + length bs) \<and> (length bs = k \<or> (\<exists>cs. copyin (p_pagetable (myproc s)) (a + word_of_nat (i + length bs)) 1 s = Ok (-1, cs)))
     | Blocked m \<Rightarrow> m = i + length bs \<and> length (pipe_elems (pipes s' pi)) = PIPESIZE)"
  using assms
proof (induction k arbitrary: i s)
  case 0
  then show ?case by (auto simp: wakeup_def)
next
  case (Suc k)
  let ?p = "pipes s pi" and ?t = "p_pagetable (myproc s)"
  show ?case
  proof (cases "\<not> pi_readopen ?p \<or> p_killed (myproc s) \<or> length (pipe_elems ?p) = PIPESIZE")
    case True
    then show ?thesis using Suc.prems pipe_full [of ?p] by (auto simp: Let_def wakeup_def split: if_splits)
  next
    case False
    then obtain r cs where c: "copyin ?t (a + word_of_nat i) 1 s = Ok (r, cs)"
      using Suc.prems(2) pipe_full [of ?p] by (auto simp: Let_def and_then_eq_Ok split: if_splits)
    show ?thesis
    proof (cases "r = -1")
      case True
      then show ?thesis using c False Suc.prems pipe_full [of ?p] by (auto simp: Let_def wakeup_def)
    next
      case False': False
      then obtain b where b: "r = 0" "cs = [b]" using copyin_one [OF c] by auto
      let ?s = "upd_pipe pi (pipe_put b) s"
      have lt: "length (pipe_elems ?p) < PIPESIZE" using False pipe_fifo.bounded [OF Suc.prems(1)] by simp
      have p: "pipe_inv (pipes ?s pi)" "pipe_elems (pipes ?s pi) = pipe_elems ?p @ [b]"
        using pipe_fifo.put_inv [OF Suc.prems(1) lt] pipe_fifo.put_abs [OF Suc.prems(1) lt] by simp_all
      have "pipewrite_loop k pi a (Suc i) ?s = Ok (out, s')"
        using Suc.prems(2) False c b pipe_full [of ?p] by (simp add: Let_def)
      from Suc.IH [OF p(1) this] obtain bs where bs: "pipe_elems (pipes s' pi) = pipe_elems (pipes ?s pi) @ bs" "pipe_inv (pipes s' pi)" "length bs \<le> k"
        "\<forall>j<length bs. copyin ?t (a + word_of_nat (Suc i + j)) 1 ?s = Ok (0, [bs ! j])" "\<forall>q. q \<noteq> pi \<longrightarrow> pipes s' q = pipes ?s q" "ram s' = ram ?s"
        "case out of
           Done v \<Rightarrow> v = -1 \<and> (\<not> pi_readopen (pipes ?s pi) \<or> p_killed (myproc ?s)) \<or>
             v = int (Suc i + length bs) \<and> (length bs = k \<or> (\<exists>cs. copyin ?t (a + word_of_nat (Suc i + length bs)) 1 ?s = Ok (-1, cs)))
         | Blocked m \<Rightarrow> m = Suc i + length bs \<and> length (pipe_elems (pipes s' pi)) = PIPESIZE"
        unfolding upd_pipe_simps(5) by blast
      have cr: "copyin ?t x 1 ?s = copyin ?t x 1 s" for x by (rule copyin_ram) simp
      have "\<forall>j<length (b # bs). copyin ?t (a + word_of_nat (i + j)) 1 s = Ok (0, [(b # bs) ! j])"
        using bs(4) c b unfolding cr by (auto simp: all_less_Suc_conv_0 simp del: of_nat_add of_nat_Suc)
      moreover have "pi_readopen (pipes ?s pi) = pi_readopen ?p" by (simp add: pipe_put_def)
      ultimately show ?thesis using bs p(2) unfolding cr
        by (intro exI [of _ "b # bs"]) (auto split: pipe_out.splits simp del: of_nat_add of_nat_Suc)
    qed
  qed
qed

text \<open>A well-formed user space depends on the memory and the allocator only.\<close>

lemma uspace_cong:
  "ram s = ram s' \<Longrightarrow> freelist s = freelist s' \<Longrightarrow> kend s = kend s' \<Longrightarrow> uspace s t xs \<longleftrightarrow> uspace s' t xs"
  by (simp add: uspace_def pt_wf_def kinv_def page_ok_def)

lemma uread_cong: "ram s = ram s' \<Longrightarrow> uread s t va = uread s' t va"
  by (simp add: uread_def Let_def)

lemma copyin_byte:
  assumes "uspace s t xs"
  shows "copyin t va 1 s = (case uread s t va of None \<Rightarrow> Ok (-1, []) | Some b \<Rightarrow> Ok (0, [b]))"
proof -
  obtain r bs where c: "copyin t va 1 s = Ok (r, bs)" "length bs \<le> 1" "\<forall>i<length bs. uread s t (va + word_of_nat i) = Some (bs ! i)"
    "if length bs = 1 then r = 0 else r = -1 \<and> uread s t (va + word_of_nat (length bs)) = None"
    using copyin_spec [OF assms, of va 1] by blast
  then show ?thesis by (cases bs) (auto split: option.splits if_splits)
qed

lemma pipewrite_loop_Ok:
  fixes s :: "'z kfile_scheme"
  assumes "uspace s (p_pagetable (myproc s)) xs"
  shows "\<exists>out s'. pipewrite_loop k pi a i s = Ok (out, s')"
  using assms
proof (induction k arbitrary: i s)
  case (Suc k)
  let ?t = "p_pagetable (myproc s)"
  have "uspace (upd_pipe pi (pipe_put b) s) (p_pagetable (myproc (upd_pipe pi (pipe_put b) s))) xs" for b
    using Suc.prems uspace_cong [of "upd_pipe pi (pipe_put b) s" s] by (simp add: upd_pipe_def myproc_def)
  then have "\<exists>out s'. pipewrite_loop k pi a (Suc i) (upd_pipe pi (pipe_put b) s) = Ok (out, s')" for b
    by (rule Suc.IH)
  then show ?case
    using copyin_byte [OF Suc.prems, of "a + word_of_nat i"]
    by (cases "uread s ?t (a + word_of_nat i)") (auto simp: Let_def)
qed simp

text \<open>
  C34. Writing to a pipe. From its byte number \<open>i\<close> on, where it starts or resumes after waiting,
  \<^verbatim>\<open>pipewrite\<close> never panics and appends user bytes to the pipe in order: it goes on until all bytes are in,
  the next byte has no user page, or the pipe is full and it waits; it reports the bytes
  written, or -1 when the read end is closed or the process is killed.  No other pipe and no
  memory changes.
\<close>

theorem pipewrite_appends:
  fixes s :: "'z kfile_scheme"
  assumes "uspace s (p_pagetable (myproc s)) xs" "pipe_inv (pipes s pi)"
  shows "\<exists>out s' bs. pipewrite_loop k pi a i s = Ok (out, s') \<and> pipe_elems (pipes s' pi) = pipe_elems (pipes s pi) @ bs \<and>
    pipe_inv (pipes s' pi) \<and> length bs \<le> k \<and>
    (\<forall>j<length bs. uread s (p_pagetable (myproc s)) (a + word_of_nat (i + j)) = Some (bs ! j)) \<and>
    (\<forall>q. q \<noteq> pi \<longrightarrow> pipes s' q = pipes s q) \<and> ram s' = ram s \<and>
    (case out of
       Done v \<Rightarrow> v = -1 \<and> (\<not> pi_readopen (pipes s pi) \<or> p_killed (myproc s)) \<or>
         v = int (i + length bs) \<and> (length bs = k \<or> uread s (p_pagetable (myproc s)) (a + word_of_nat (i + length bs)) = None)
     | Blocked m \<Rightarrow> m = i + length bs \<and> length (pipe_elems (pipes s' pi)) = PIPESIZE)"
proof -
  let ?t = "p_pagetable (myproc s)"
  obtain out s' where r: "pipewrite_loop k pi a i s = Ok (out, s')" using pipewrite_loop_Ok [OF assms(1)] by blast
  have u: "copyin ?t va 1 s = Ok (0, [b]) \<longleftrightarrow> uread s ?t va = Some b" "(\<exists>cs. copyin ?t va 1 s = Ok (-1, cs)) \<longleftrightarrow> uread s ?t va = None" for va b
    using copyin_byte [OF assms(1), of va] by (auto split: option.splits)
  show ?thesis using pipewrite_loop_ok [OF assms(2) r] r unfolding u by blast
qed

definition demo_files :: "pipe \<Rightarrow> kfile" where
  "demo_files p =
     \<lparr>ram = ram one_page, freelist = freelist one_page, kend = kend one_page, ketext = 0, ktrampoline = 0,
      procs = [proc1\<lparr>p_pagetable := 0x80003000, p_killed := False\<rparr>], cur = 0, nextpid = 2, initproc = Some 0, kforkret = 0,
      bufs = [], disk = (\<lambda>_ _. 0), dwrites = [], lg_start = 2, lg_size = 30, lg_outstanding = 0, lg_committing = False,
      lg_dev = ROOTDEV, lh_n = 0, lh_block = [],
      sb = \<lparr>sb_magic = FSMAGIC, sb_size = 50, sb_nblocks = 4, sb_ninodes = 16, sb_nlog = 30, sb_logstart = 2, sb_inodestart = 40, sb_bmapstart = 45\<rparr>,
      itable = [], panicked = False, uart_lsr = (\<lambda>_. 0), uart_nlsr = 0, uart_rhr = (\<lambda>_. 0), uart_nrhr = 0, uart_writes = [],
      uart_tx_buf = replicate 32 0, uart_tx_w = 0, uart_tx_r = 0, cons_buf = replicate 128 0, cons_r = 0, cons_w = 0, cons_e = 0,
      ftable = [], pipes = (\<lambda>_. p)\<rparr>"

theorem pipewrite_appends_witness:
  "\<exists>s'. pipewrite_loop 2 0x80007000 0x10 0 (demo_files wrapping_pipe) = Ok (Done 2, s') \<and> pipe_elems (pipes s' 0x80007000) = [0, 0]"
proof -
  let ?s = "demo_files wrapping_pipe"
  have t: "p_pagetable (myproc ?s) = 0x80003000" "\<not> p_killed (myproc ?s)" by (simp_all add: demo_files_def myproc_def)
  have u: "uspace ?s (p_pagetable (myproc ?s)) [0x80001000, 0x80002000]"
    using one_page_space(1) uspace_cong [of ?s one_page] unfolding t(1) by (simp add: demo_files_def)
  have p: "pipes ?s q = wrapping_pipe" for q by (simp add: demo_files_def)
  have i: "pipe_inv (pipes ?s 0x80007000)" unfolding p by (simp add: pipe_inv_def wrapping_pipe_def PIPESIZE_def)
  have e: "pipe_elems wrapping_pipe = []" by (simp add: pipe_empty [symmetric] wrapping_pipe_def)
  have ro: "pi_readopen wrapping_pipe" by (simp add: wrapping_pipe_def)
  have b: "uread ?s 0x80003000 (0x10 + word_of_nat (0 + j)) = Some 0" if "j < 2" for j
    using that one_page_space(2) [of "0x10 + word_of_nat j"] uread_cong [of ?s one_page] by (auto simp: less_2_cases_iff demo_files_def)
  obtain out s' bs where r: "pipewrite_loop 2 0x80007000 0x10 0 ?s = Ok (out, s')" "pipe_elems (pipes s' 0x80007000) = bs" "length bs \<le> 2"
    "\<forall>j<length bs. uread ?s 0x80003000 (0x10 + word_of_nat (0 + j)) = Some (bs ! j)"
    "case out of
       Done v \<Rightarrow> v = -1 \<and> (\<not> pi_readopen wrapping_pipe \<or> p_killed (myproc ?s)) \<or>
         v = int (0 + length bs) \<and> (length bs = 2 \<or> uread ?s 0x80003000 (0x10 + word_of_nat (0 + length bs)) = None)
     | Blocked m \<Rightarrow> m = 0 + length bs \<and> length (pipe_elems (pipes s' 0x80007000)) = PIPESIZE"
    using pipewrite_appends [OF u i, of 2 "0x10" 0] unfolding t(1) p e by (auto simp del: add_0)
  have len: "length bs = 2 \<and> out = Done 2"
    using r(2,3,5) t(2) ro b [of "length bs"] by (cases "length bs = 2") (auto split: pipe_out.splits simp: PIPESIZE_def simp del: add_0)
  then have "bs = [0, 0]" using r(4) b [of 0] b [of 1] by (intro nth_equalityI) (auto simp: less_2_cases_iff simp del: add_0)
  then show ?thesis using r(1,2) len by blast
qed

end
