(* ===== verification/Virtio.thy ===== *)
theory Virtio
  imports Bio Ring
begin

text \<open>
  The disk driver, \<^verbatim>\<open>kernel/virtio_disk.c\<close> and \<^verbatim>\<open>kernel/virtio.h\<close>: its descriptors, the ring of requests
  it offers to the device, the ring of completed requests, and its interrupt handler. A DMA
  address is the object it points to. \<^verbatim>\<open>virtio_disk_rw\<close> is cut where it waits:
  \<open>virtio_disk_rw_start\<close> is the code up to the notification of the device, \<open>virtio_disk_rw_end\<close> the code after the wait.
  The device itself is not part of the sources: the transfer it performs is a parameter, and the
  steps by which it takes, serves and returns requests are the ones the virtio specification
  (section 2.6 and 5.2, cited in the code) allows, in any order.
\<close>

section \<open>Constants and structures\<close>

definition VIRTIO_MMIO_MAGIC_VALUE :: nat where "VIRTIO_MMIO_MAGIC_VALUE = 0x000"
definition VIRTIO_MMIO_VERSION :: nat where "VIRTIO_MMIO_VERSION = 0x004"
definition VIRTIO_MMIO_DEVICE_ID :: nat where "VIRTIO_MMIO_DEVICE_ID = 0x008"
definition VIRTIO_MMIO_VENDOR_ID :: nat where "VIRTIO_MMIO_VENDOR_ID = 0x00c"
definition VIRTIO_MMIO_DEVICE_FEATURES :: nat where "VIRTIO_MMIO_DEVICE_FEATURES = 0x010"
definition VIRTIO_MMIO_DRIVER_FEATURES :: nat where "VIRTIO_MMIO_DRIVER_FEATURES = 0x020"
definition VIRTIO_MMIO_GUEST_PAGE_SIZE :: nat where "VIRTIO_MMIO_GUEST_PAGE_SIZE = 0x028"
definition VIRTIO_MMIO_QUEUE_SEL :: nat where "VIRTIO_MMIO_QUEUE_SEL = 0x030"
definition VIRTIO_MMIO_QUEUE_NUM_MAX :: nat where "VIRTIO_MMIO_QUEUE_NUM_MAX = 0x034"
definition VIRTIO_MMIO_QUEUE_NUM :: nat where "VIRTIO_MMIO_QUEUE_NUM = 0x038"
definition VIRTIO_MMIO_QUEUE_PFN :: nat where "VIRTIO_MMIO_QUEUE_PFN = 0x040"
definition VIRTIO_MMIO_QUEUE_NOTIFY :: nat where "VIRTIO_MMIO_QUEUE_NOTIFY = 0x050"
definition VIRTIO_MMIO_INTERRUPT_STATUS :: nat where "VIRTIO_MMIO_INTERRUPT_STATUS = 0x060"
definition VIRTIO_MMIO_INTERRUPT_ACK :: nat where "VIRTIO_MMIO_INTERRUPT_ACK = 0x064"
definition VIRTIO_MMIO_STATUS :: nat where "VIRTIO_MMIO_STATUS = 0x070"

definition VIRTIO_CONFIG_S_ACKNOWLEDGE :: uint32 where "VIRTIO_CONFIG_S_ACKNOWLEDGE = 1"
definition VIRTIO_CONFIG_S_DRIVER :: uint32 where "VIRTIO_CONFIG_S_DRIVER = 2"
definition VIRTIO_CONFIG_S_DRIVER_OK :: uint32 where "VIRTIO_CONFIG_S_DRIVER_OK = 4"
definition VIRTIO_CONFIG_S_FEATURES_OK :: uint32 where "VIRTIO_CONFIG_S_FEATURES_OK = 8"

definition VIRTIO_BLK_F_RO :: nat where "VIRTIO_BLK_F_RO = 5"
definition VIRTIO_BLK_F_SCSI :: nat where "VIRTIO_BLK_F_SCSI = 7"
definition VIRTIO_BLK_F_CONFIG_WCE :: nat where "VIRTIO_BLK_F_CONFIG_WCE = 11"
definition VIRTIO_BLK_F_MQ :: nat where "VIRTIO_BLK_F_MQ = 12"
definition VIRTIO_F_ANY_LAYOUT :: nat where "VIRTIO_F_ANY_LAYOUT = 27"
definition VIRTIO_RING_F_INDIRECT_DESC :: nat where "VIRTIO_RING_F_INDIRECT_DESC = 28"
definition VIRTIO_RING_F_EVENT_IDX :: nat where "VIRTIO_RING_F_EVENT_IDX = 29"

definition NUM :: nat where "NUM = 8"
definition VRING_DESC_F_NEXT :: ushort where "VRING_DESC_F_NEXT = 1"
definition VRING_DESC_F_WRITE :: ushort where "VRING_DESC_F_WRITE = 2"
definition VIRTIO_BLK_T_IN :: uint32 where "VIRTIO_BLK_T_IN = 0"
definition VIRTIO_BLK_T_OUT :: uint32 where "VIRTIO_BLK_T_OUT = 1"

text \<open>The addresses the driver hands to the device: a request header, the data of a buffer, a status byte.\<close>

datatype dma = Dma_null | Dma_op nat | Dma_data nat | Dma_status nat

record virtq_desc =
  d_addr :: dma
  d_len :: uint32
  d_flags :: ushort
  d_next :: ushort

record virtio_blk_req =
  r_type :: uint32
  r_reserved :: uint32
  r_sector :: uint64

record vinfo =
  vi_b :: "nat option"
  vi_status :: uchar

text \<open>
  \<^verbatim>\<open>struct disk\<close>, with the values of the device's registers and the writes to them. An entry of the
  used ring is an id and a length; \<open>b_disk\<close> is the field \<^verbatim>\<open>disk\<close> of each buffer.
\<close>

record kvirtio = kbio +
  v_regs :: "nat \<Rightarrow> uint32"
  v_writes :: "(nat \<times> uint32) list"
  v_pages :: addr
  v_desc :: "nat \<Rightarrow> virtq_desc"
  v_avail_idx :: ushort
  v_avail_ring :: "ushort list"
  v_uidx :: ushort
  v_uring :: "(uint32 \<times> uint32) list"
  v_free :: "nat \<Rightarrow> bool"
  v_used_idx :: ushort
  v_info :: "nat \<Rightarrow> vinfo"
  v_ops :: "nat \<Rightarrow> virtio_blk_req"
  b_disk :: "nat \<Rightarrow> bool"

definition null_desc :: virtq_desc where
  "null_desc = \<lparr>d_addr = Dma_null, d_len = 0, d_flags = 0, d_next = 0\<rparr>"

definition set_desc :: "nat \<Rightarrow> virtq_desc \<Rightarrow> 'z kvirtio_scheme \<Rightarrow> 'z kvirtio_scheme" where
  "set_desc i d s = s\<lparr>v_desc := (v_desc s)(i := d)\<rparr>"

definition upd_info :: "nat \<Rightarrow> (vinfo \<Rightarrow> vinfo) \<Rightarrow> 'z kvirtio_scheme \<Rightarrow> 'z kvirtio_scheme" where
  "upd_info i f s = s\<lparr>v_info := (v_info s)(i := f (v_info s i))\<rparr>"

definition vwrite :: "nat \<Rightarrow> uint32 \<Rightarrow> 'z kvirtio_scheme \<Rightarrow> 'z kvirtio_scheme" where
  "vwrite r v s = s\<lparr>v_writes := v_writes s @ [(r, v)]\<rparr>"

section \<open>The driver\<close>

definition virtio_features :: "uint64 \<Rightarrow> uint64" where
  "virtio_features f =
     f AND NOT (push_bit VIRTIO_BLK_F_RO 1) AND NOT (push_bit VIRTIO_BLK_F_SCSI 1)
       AND NOT (push_bit VIRTIO_BLK_F_CONFIG_WCE 1) AND NOT (push_bit VIRTIO_BLK_F_MQ 1)
       AND NOT (push_bit VIRTIO_F_ANY_LAYOUT 1) AND NOT (push_bit VIRTIO_RING_F_EVENT_IDX 1)
       AND NOT (push_bit VIRTIO_RING_F_INDIRECT_DESC 1)"

definition virtio_disk_init :: "'z kvirtio_scheme \<Rightarrow> 'z kvirtio_scheme res" where
  "virtio_disk_init s =
     (if v_regs s VIRTIO_MMIO_MAGIC_VALUE \<noteq> 0x74726976 \<or> v_regs s VIRTIO_MMIO_VERSION \<noteq> 1 \<or>
         v_regs s VIRTIO_MMIO_DEVICE_ID \<noteq> 2 \<or> v_regs s VIRTIO_MMIO_VENDOR_ID \<noteq> 0x554d4551
      then Panic ''could not find virtio disk''
      else
        let status = VIRTIO_CONFIG_S_ACKNOWLEDGE;
            s = vwrite VIRTIO_MMIO_STATUS status s;
            status = status OR VIRTIO_CONFIG_S_DRIVER;
            s = vwrite VIRTIO_MMIO_STATUS status s;
            features = virtio_features (ucast (v_regs s VIRTIO_MMIO_DEVICE_FEATURES));
            s = vwrite VIRTIO_MMIO_DRIVER_FEATURES (ucast features) s;
            status = status OR VIRTIO_CONFIG_S_FEATURES_OK;
            s = vwrite VIRTIO_MMIO_STATUS status s;
            status = status OR VIRTIO_CONFIG_S_DRIVER_OK;
            s = vwrite VIRTIO_MMIO_STATUS status s;
            s = vwrite VIRTIO_MMIO_GUEST_PAGE_SIZE (ucast PGSIZE) s;
            s = vwrite VIRTIO_MMIO_QUEUE_SEL 0 s;
            mx = v_regs s VIRTIO_MMIO_QUEUE_NUM_MAX
        in if mx = 0 then Panic ''virtio disk has no queue 0''
           else if mx < word_of_nat NUM then Panic ''virtio disk max queue too short''
           else
             let s = vwrite VIRTIO_MMIO_QUEUE_NUM (word_of_nat NUM) s;
                 s = s\<lparr>v_desc := (\<lambda>_. null_desc), v_avail_idx := 0, v_avail_ring := replicate NUM 0,
                       v_uidx := 0, v_uring := replicate NUM (0, 0)\<rparr>;
                 s = vwrite VIRTIO_MMIO_QUEUE_PFN (ucast (drop_bit 12 (v_pages s))) s
             in Ok (s\<lparr>v_free := (\<lambda>_. True)\<rparr>))"

definition alloc_desc :: "'z kvirtio_scheme \<Rightarrow> nat option \<times> 'z kvirtio_scheme" where
  "alloc_desc s =
     (case find (v_free s) [0..<NUM] of
        Some i \<Rightarrow> (Some i, s\<lparr>v_free := (v_free s)(i := False)\<rparr>)
      | None \<Rightarrow> (None, s))"

definition free_desc :: "nat \<Rightarrow> 'z kvirtio_scheme \<Rightarrow> 'z kvirtio_scheme res" where
  "free_desc i s =
     (if i \<ge> NUM then Panic ''free_desc 1''
      else if v_free s i then Panic ''free_desc 2''
      else Ok (wakeup Chan_vdisk ((set_desc i null_desc s)\<lparr>v_free := (v_free s)(i := True)\<rparr>)))"

text \<open>The loop of \<^verbatim>\<open>free_chain\<close> ends because each descriptor it frees was in use before.\<close>

lemma free_desc_less:
  assumes "free_desc i s = Ok s'"
  shows "card {j. j < NUM \<and> \<not> v_free s' j} < card {j. j < NUM \<and> \<not> v_free s j}"
proof -
  have i: "i < NUM" "\<not> v_free s i" "v_free s' = (v_free s)(i := True)"
    using assms by (auto simp: free_desc_def wakeup_def set_desc_def split: if_splits)
  then have "{j. j < NUM \<and> \<not> v_free s' j} \<subset> {j. j < NUM \<and> \<not> v_free s j}" by auto
  then show ?thesis by (intro psubset_card_mono) auto
qed

function free_chain :: "nat \<Rightarrow> 'z kvirtio_scheme \<Rightarrow> 'z kvirtio_scheme res" where
  "free_chain i s =
     (let flag = d_flags (v_desc s i); nxt = unat (d_next (v_desc s i))
      in and_then (free_desc i s) (\<lambda>s. if flag AND VRING_DESC_F_NEXT \<noteq> 0 then free_chain nxt s else Ok s))"
  by pat_completeness auto
termination
  by (relation "measure (\<lambda>(_, s). card {j. j < NUM \<and> \<not> v_free s j})") (auto dest!: free_desc_less)

text \<open>\<^verbatim>\<open>alloc3_desc\<close> with the descriptors got so far; the result is \<open>None\<close> when it returns -1.\<close>

primrec alloc3_loop :: "nat \<Rightarrow> nat list \<Rightarrow> 'z kvirtio_scheme \<Rightarrow> (nat list option \<times> 'z kvirtio_scheme) res" where
  "alloc3_loop 0 ds s = Ok (Some ds, s)"
| "alloc3_loop (Suc k) ds s =
     (case alloc_desc s of
        (Some i, s) \<Rightarrow> alloc3_loop k (ds @ [i]) s
      | (None, s) \<Rightarrow> and_then (loop_res free_desc ds s) (\<lambda>s. Ok (None, s)))"

definition alloc3_desc :: "'z kvirtio_scheme \<Rightarrow> (nat list option \<times> 'z kvirtio_scheme) res" where
  "alloc3_desc s = alloc3_loop 3 [] s"

text \<open>The sector is computed in 32 bits.\<close>

definition vsector :: "uint32 \<Rightarrow> uint64" where
  "vsector blockno = ucast (blockno * word_of_nat (BSIZE div 512))"

text \<open>Formatting the three descriptors and making them available to the device.\<close>

definition vrequest :: "nat \<Rightarrow> bool \<Rightarrow> nat \<Rightarrow> nat \<Rightarrow> nat \<Rightarrow> 'z kvirtio_scheme \<Rightarrow> 'z kvirtio_scheme" where
  "vrequest b write i0 i1 i2 s =
     (let sector = vsector (b_blockno (bufs s ! b));
          s = s\<lparr>v_ops := (v_ops s)(i0 := \<lparr>r_type = if write then VIRTIO_BLK_T_OUT else VIRTIO_BLK_T_IN,
                                         r_reserved = 0, r_sector = sector\<rparr>)\<rparr>;
          s = set_desc i0 \<lparr>d_addr = Dma_op i0, d_len = 16, d_flags = VRING_DESC_F_NEXT, d_next = word_of_nat i1\<rparr> s;
          s = set_desc i1 \<lparr>d_addr = Dma_data b, d_len = word_of_nat BSIZE,
                           d_flags = (if write then 0 else VRING_DESC_F_WRITE) OR VRING_DESC_F_NEXT, d_next = word_of_nat i2\<rparr> s;
          s = upd_info i0 (\<lambda>x. x\<lparr>vi_status := 0xff\<rparr>) s;
          s = set_desc i2 \<lparr>d_addr = Dma_status i0, d_len = 1, d_flags = VRING_DESC_F_WRITE, d_next = 0\<rparr> s;
          s = s\<lparr>b_disk := (b_disk s)(b := True)\<rparr>;
          s = upd_info i0 (\<lambda>x. x\<lparr>vi_b := Some b\<rparr>) s;
          s = s\<lparr>v_avail_ring := (v_avail_ring s)[unat (v_avail_idx s) mod NUM := word_of_nat i0]\<rparr>;
          s = s\<lparr>v_avail_idx := v_avail_idx s + 1\<rparr>
      in vwrite VIRTIO_MMIO_QUEUE_NOTIFY 0 s)"

text \<open>
  \<^verbatim>\<open>virtio_disk_rw\<close> up to its wait. Without three free descriptors (\<open>None\<close>) the caller sleeps on
  \<^verbatim>\<open>disk.free\<close> and tries again.
\<close>

definition virtio_disk_rw_start :: "nat \<Rightarrow> bool \<Rightarrow> 'z kvirtio_scheme \<Rightarrow> (nat option \<times> 'z kvirtio_scheme) res" where
  "virtio_disk_rw_start b write s =
     and_then (alloc3_desc s) (\<lambda>(r, s). case r of
       None \<Rightarrow> Ok (None, s)
     | Some ds \<Rightarrow> Ok (Some (ds ! 0), vrequest b write (ds ! 0) (ds ! 1) (ds ! 2) s))"

definition virtio_disk_rw_wait :: "nat \<Rightarrow> 'z kvirtio_scheme \<Rightarrow> 'z kvirtio_scheme res" where
  "virtio_disk_rw_wait b s = (if b_disk s b then Sleep (Chan_bdisk b) else Ok s)"

definition virtio_disk_rw_end :: "nat \<Rightarrow> 'z kvirtio_scheme \<Rightarrow> 'z kvirtio_scheme res" where
  "virtio_disk_rw_end i0 s = free_chain i0 (upd_info i0 (\<lambda>x. x\<lparr>vi_b := None\<rparr>) s)"

text \<open>
  The loop of \<^verbatim>\<open>virtio_disk_intr\<close>. A completed request without a buffer would make the handler write
  through a null pointer, a trap in the kernel.
\<close>

function vintr_loop :: "'z kvirtio_scheme \<Rightarrow> 'z kvirtio_scheme res" where
  "vintr_loop s =
     (if v_used_idx s = v_uidx s then Ok s
      else let id = unat (fst (v_uring s ! (unat (v_used_idx s) mod NUM)))
           in if vi_status (v_info s id) \<noteq> 0 then Panic ''virtio_disk_intr status''
              else case vi_b (v_info s id) of
                None \<Rightarrow> Panic ''kerneltrap''
              | Some b \<Rightarrow> vintr_loop ((wakeup (Chan_bdisk b) (s\<lparr>b_disk := (b_disk s)(b := False)\<rparr>))
                                      \<lparr>v_used_idx := v_used_idx s + 1\<rparr>))"
  by pat_completeness auto

lemma ring_count: "r \<noteq> w \<Longrightarrow> unat (w - r) = Suc (unat (w - (r + 1 :: 'a :: len word)))"
  using ring_get [of r w 1 "[0]"] by (metis length_Cons length_ring_elems)

termination vintr_loop
  by (relation "measure (\<lambda>s. unat (v_uidx s - v_used_idx s))") (auto simp: wakeup_def dest!: ring_count)

definition virtio_disk_intr :: "'z kvirtio_scheme \<Rightarrow> 'z kvirtio_scheme res" where
  "virtio_disk_intr s =
     vintr_loop (vwrite VIRTIO_MMIO_INTERRUPT_ACK (v_regs s VIRTIO_MMIO_INTERRUPT_STATUS AND 0x3) s)"

declare free_chain.simps [simp del] vintr_loop.simps [simp del]

section \<open>The device\<close>

text \<open>
  A transfer gets type, sector, the disk and the contents of the buffer, and gives the status
  byte, the disk and the contents. What the driver relies on: a read of a block's first sector
  with status 0 delivers the block, a write stores it.
\<close>

type_synonym xfer = "uint32 \<Rightarrow> uint64 \<Rightarrow> (uint32 \<Rightarrow> block) \<Rightarrow> block \<Rightarrow> uchar \<times> (uint32 \<Rightarrow> block) \<times> block"

definition blk_device :: "xfer \<Rightarrow> bool" where
  "blk_device xfer \<longleftrightarrow> (\<forall>n d x. n < 2 ^ 31 \<longrightarrow>
     xfer VIRTIO_BLK_T_IN (2 * ucast n) d x = (0, d, d n) \<and>
     xfer VIRTIO_BLK_T_OUT (2 * ucast n) d x = (0, d(n := x), x))"

text \<open>
  Serving the request whose chain starts at \<open>h\<close>: the device follows the chain, performs the transfer,
  stores the status byte and puts the head into the used ring. It has no step for a chain that is
  not a request.
\<close>

definition vserve :: "xfer \<Rightarrow> uint32 \<Rightarrow> nat \<Rightarrow> kvirtio \<Rightarrow> kvirtio option" where
  "vserve xfer len h s =
     (let d0 = v_desc s h; d1 = v_desc s (unat (d_next d0)); d2 = v_desc s (unat (d_next d1))
      in if bit (d_flags d0) 0 \<and> bit (d_flags d1) 0 \<and> \<not> bit (d_flags d2) 0 \<and> bit (d_flags d2) 1 \<and> \<not> bit (d_flags d0) 1 \<and>
            d_len d0 = 16 \<and> d_len d1 = word_of_nat BSIZE \<and> d_len d2 = 1
         then case (d_addr d0, d_addr d1, d_addr d2) of
           (Dma_op i, Dma_data b, Dma_status k) \<Rightarrow>
             if (r_type (v_ops s i) = VIRTIO_BLK_T_IN) = bit (d_flags d1) 1
             then case xfer (r_type (v_ops s i)) (r_sector (v_ops s i)) (disk s) (b_data (bufs s ! b)) of (rc, d, x) \<Rightarrow>
               Some ((upd_info k (\<lambda>y. y\<lparr>vi_status := rc\<rparr>)
                 (if bit (d_flags d1) 1 then (upd_buf b (\<lambda>y. y\<lparr>b_data := x\<rparr>) s)\<lparr>disk := d\<rparr>
                  else s\<lparr>disk := d, dwrites := dwrites s @ [(ucast (r_sector (v_ops s i) div 2), b_data (bufs s ! b))]\<rparr>))
                 \<lparr>v_uring := (v_uring s)[unat (v_uidx s) mod NUM := (word_of_nat h, len)], v_uidx := v_uidx s + 1\<rparr>)
             else None
         | _ \<Rightarrow> None
         else None)"

text \<open>
  The system: the driver's state, how far the device has read the ring of available requests, the
  requests it is working on, and the callers of \<^verbatim>\<open>virtio_disk_rw\<close> that wait, each with its buffer, the
  direction, and its first descriptor. A caller holds the lock of its buffer, so no other caller
  asks for that buffer and nobody else changes it; other buffers may change at any time.
\<close>

record vsys =
  vk :: kvirtio
  dv_last :: ushort
  dv_taken :: "nat list"
  callers :: "(nat \<times> bool \<times> nat) list"

abbreviation in_transfer :: "vsys \<Rightarrow> nat set" where
  "in_transfer x \<equiv> fst ` set (callers x)"

inductive vwork :: "xfer \<Rightarrow> vsys \<Rightarrow> vsys \<Rightarrow> bool" for xfer where
  take: "dv_last x \<noteq> v_avail_idx (vk x) \<Longrightarrow>
    vwork xfer x (x\<lparr>dv_taken := unat (v_avail_ring (vk x) ! (unat (dv_last x) mod NUM)) # dv_taken x, dv_last := dv_last x + 1\<rparr>)"
| serve: "h \<in> set (dv_taken x) \<Longrightarrow> vserve xfer len h (vk x) = Some s \<Longrightarrow>
    vwork xfer x (x\<lparr>vk := s, dv_taken := remove1 h (dv_taken x)\<rparr>)"
| intr: "v_used_idx (vk x) \<noteq> v_uidx (vk x) \<Longrightarrow> virtio_disk_intr (vk x) = Ok s \<Longrightarrow> vwork xfer x (x\<lparr>vk := s\<rparr>)"
| finish: "(b, w, h) \<in> set (callers x) \<Longrightarrow> virtio_disk_rw_wait b (vk x) = Ok s \<Longrightarrow> virtio_disk_rw_end h s = Ok s' \<Longrightarrow>
    vwork xfer x (x\<lparr>vk := s', callers := remove1 (b, w, h) (callers x)\<rparr>)"

inductive vstep :: "xfer \<Rightarrow> vsys \<Rightarrow> vsys \<Rightarrow> bool" for xfer where
  work: "vwork xfer x y \<Longrightarrow> vstep xfer x y"
| submit: "b < length (bufs (vk x)) \<Longrightarrow> b \<notin> in_transfer x \<Longrightarrow> b_blockno (bufs (vk x) ! b) < 2 ^ 31 \<Longrightarrow>
    virtio_disk_rw_start b w (vk x) = Ok (Some h, s) \<Longrightarrow> vstep xfer x (x\<lparr>vk := s, callers := (b, w, h) # callers x\<rparr>)"
| full: "virtio_disk_rw_start b w (vk x) = Ok (None, s) \<Longrightarrow> vstep xfer x (x\<lparr>vk := s\<rparr>)"
| idle: "virtio_disk_intr (vk x) = Ok s \<Longrightarrow> vstep xfer x (x\<lparr>vk := s\<rparr>)"
| other: "length bs = length (bufs (vk x)) \<Longrightarrow> (\<And>b. b \<in> in_transfer x \<Longrightarrow> bs ! b = bufs (vk x) ! b) \<Longrightarrow>
    vstep xfer x (x\<lparr>vk := (vk x)\<lparr>bufs := bs, procs := ps\<rparr>\<rparr>)"

inductive vreach :: "xfer \<Rightarrow> vsys \<Rightarrow> vsys \<Rightarrow> bool" for xfer where
  here: "vreach xfer x x"
| more: "vreach xfer x y \<Longrightarrow> vstep xfer y z \<Longrightarrow> vreach xfer x z"

text \<open>The system once the driver is initialised.\<close>

definition vstart :: "kvirtio \<Rightarrow> vsys" where
  "vstart s = \<lparr>vk = s, dv_last = 0, dv_taken = [], callers = []\<rparr>"

end
