(* ===== verification/VirtioSpec.thy ===== *)
theory VirtioSpec
  imports Virtio
begin

text \<open>
  The invariant of the disk driver: the descriptors in use are the chains of the callers' requests,
  and each request is in exactly one of the places between submission and completion. Every step
  of the driver, the device and the other users of the buffers keeps it.
\<close>

section \<open>Requests\<close>

definition vchain :: "kvirtio \<Rightarrow> nat \<Rightarrow> nat list" where
  "vchain s h = (let i1 = unat (d_next (v_desc s h)) in [h, i1, unat (d_next (v_desc s i1))])"

definition vreq :: "kvirtio \<Rightarrow> nat \<times> bool \<times> nat \<Rightarrow> bool" where
  "vreq s c \<longleftrightarrow> (case c of (b, w, h) \<Rightarrow>
     let d0 = v_desc s h; d1 = v_desc s (unat (d_next d0)); d2 = v_desc s (unat (d_next d1))
     in d_addr d0 = Dma_op h \<and> d_len d0 = 16 \<and> d_flags d0 = VRING_DESC_F_NEXT \<and>
        d_addr d1 = Dma_data b \<and> d_len d1 = word_of_nat BSIZE \<and>
        d_flags d1 = (if w then 0 else VRING_DESC_F_WRITE) OR VRING_DESC_F_NEXT \<and>
        d_addr d2 = Dma_status h \<and> d_len d2 = 1 \<and> d_flags d2 = VRING_DESC_F_WRITE \<and>
        v_ops s h = \<lparr>r_type = if w then VIRTIO_BLK_T_OUT else VIRTIO_BLK_T_IN, r_reserved = 0,
                     r_sector = vsector (b_blockno (bufs s ! b))\<rparr> \<and>
        vi_b (v_info s h) = Some b \<and> b < length (bufs s) \<and> b_blockno (bufs s ! b) < 2 ^ 31)"

lemma vreq_cong:
  assumes "\<And>i. i \<in> set (vchain s h) \<Longrightarrow> v_desc s' i = v_desc s i" "v_ops s' h = v_ops s h" "vi_b (v_info s' h) = vi_b (v_info s h)"
    "b_blockno (bufs s' ! b) = b_blockno (bufs s ! b)" "length (bufs s') = length (bufs s)"
  shows "vreq s' (b, w, h) = vreq s (b, w, h)" "vchain s' h = vchain s h"
  using assms by (simp_all add: vreq_def vchain_def Let_def)

lemma vsector_even: "n < 2 ^ 31 \<Longrightarrow> vsector n = 2 * ucast n \<and> ucast (vsector n div 2) = n"
proof -
  assume "n < 2 ^ 31"
  then have n: "unat n < 2 ^ 31" by (simp add: word_less_nat_alt)
  have "unat (n * 2) = unat n * 2" using n unat_mult_lem [of n 2] by simp
  moreover have "unat (2 * ucast n :: uint64) = 2 * unat n"
    using n unat_mult_lem [of "2 :: uint64" "ucast n"] by (simp add: unat_ucast_up)
  moreover have v: "vsector n = ucast (n * 2)" by (simp add: vsector_def BSIZE_def)
  ultimately have e: "unat (vsector n) = 2 * unat n" "vsector n = 2 * ucast n"
    by (simp_all add: word_unat_eq_iff unat_ucast_up)
  have "vsector n div 2 = ucast n" using e(1) by (simp add: word_unat_eq_iff unat_div unat_ucast_up)
  moreover have "ucast (ucast n :: uint64) = n" by (rule bit_word_eqI) (simp add: bit_simps)
  ultimately have "ucast (vsector n div 2) = n" by simp
  then show ?thesis using e(2) by simp
qed

definition vpush :: "uint32 \<Rightarrow> nat \<Rightarrow> kvirtio \<Rightarrow> kvirtio" where
  "vpush len h s = s\<lparr>v_uring := (v_uring s)[unat (v_uidx s) mod NUM := (word_of_nat h, len)], v_uidx := v_uidx s + 1\<rparr>"

lemma vserve_eq:
  assumes "blk_device xfer" "vreq s (b, w, h)"
  shows "vserve xfer len h s = Some (vpush len h (upd_info h (\<lambda>y. y\<lparr>vi_status := 0\<rparr>) (virtio_disk_rw b w s)))"
proof -
  note v = assms(2) [unfolded vreq_def Let_def prod.case]
  let ?n = "b_blockno (bufs s ! b)"
  have n: "vsector ?n = 2 * ucast ?n" "ucast (vsector ?n div 2) = ?n" using v vsector_even by blast+
  have x: "xfer VIRTIO_BLK_T_IN (2 * ucast ?n) (disk s) y = (0, disk s, disk s ?n)"
    "xfer VIRTIO_BLK_T_OUT (2 * ucast ?n) (disk s) y = (0, (disk s)(?n := y), y)" for y
    using assms(1) v by (simp_all add: blk_device_def)
  show ?thesis using v n x
    by (cases w) (auto simp: vserve_def vpush_def Let_def VRING_DESC_F_NEXT_def VRING_DESC_F_WRITE_def VIRTIO_BLK_T_IN_def VIRTIO_BLK_T_OUT_def
        virtio_disk_rw_def upd_info_def upd_buf_def)
qed

section \<open>Descriptors\<close>

lemma alloc_desc_Some: "alloc_desc s = (Some i, s') \<Longrightarrow> i < NUM \<and> v_free s i \<and> s' = s\<lparr>v_free := (v_free s)(i := False)\<rparr>"
  by (auto simp: alloc_desc_def find_Some_iff split: option.splits)

lemma alloc_desc_None: "alloc_desc s = (None, s') \<Longrightarrow> s' = s \<and> (\<forall>i<NUM. \<not> v_free s i)"
  by (auto simp: alloc_desc_def find_None_iff split: option.splits)

lemma free_desc_ok:
  "i < NUM \<Longrightarrow> \<not> v_free s i \<Longrightarrow>
   \<exists>ps. free_desc i s = Ok (s\<lparr>v_desc := (v_desc s)(i := null_desc), v_free := (v_free s)(i := True), procs := ps\<rparr>)"
  by (rule exI [of _ "wakeup_procs (cur s) Chan_vdisk (procs s)"]) (simp add: free_desc_def set_desc_def wakeup_def)

lemma alloc3_desc_cases:
  fixes s :: kvirtio
  obtains (got) i0 i1 i2 where "alloc3_desc s = Ok (Some [i0, i1, i2], s\<lparr>v_free := (v_free s)(i0 := False, i1 := False, i2 := False)\<rparr>)"
      "distinct [i0, i1, i2]" "\<And>i. i \<in> {i0, i1, i2} \<Longrightarrow> i < NUM \<and> v_free s i"
    | (none) ps ds where "alloc3_desc s = Ok (None, s\<lparr>v_desc := ds, procs := ps\<rparr>)"
      "\<And>i. \<not> v_free s i \<Longrightarrow> ds i = v_desc s i" "card {i. i < NUM \<and> v_free s i} < 3"
proof -
  have u: "alloc3_desc s = alloc3_loop (Suc (Suc (Suc 0))) [] s" by (simp add: alloc3_desc_def eval_nat_numeral)
  obtain r0 s0 where a0: "alloc_desc s = (r0, s0)" by fastforce
  show thesis
  proof (cases r0)
    case None
    then have e: "s0 = s" "{i. i < NUM \<and> v_free s i} = {}" using alloc_desc_None [of s s0] a0 by auto
    then have "s0 = s" "card {i. i < NUM \<and> v_free s i} < 3" unfolding e(2) by simp_all
    then show thesis using u a0 None by (intro none [of "procs s" "v_desc s"]) simp_all
  next
    case (Some i0)
    note s0 = alloc_desc_Some [OF a0 [unfolded Some]]
    obtain r1 s1 where a1: "alloc_desc s0 = (r1, s1)" by fastforce
    show thesis
    proof (cases r1)
      case None
      note n = alloc_desc_None [OF a1 [unfolded None]]
      obtain ps where f: "free_desc i0 s1 = Ok (s1\<lparr>v_desc := (v_desc s1)(i0 := null_desc), v_free := (v_free s1)(i0 := True), procs := ps\<rparr>)"
        using free_desc_ok [of i0 s1] n s0 by auto
      have "{i. i < NUM \<and> v_free s i} \<subseteq> {i0}" using n s0 by (auto split: if_splits)
      then have c: "card {i. i < NUM \<and> v_free s i} \<le> 1" using card_mono [of "{i0}"] by force
      have "(v_free s)(i0 := True) = v_free s" using s0 by (auto simp: fun_eq_iff)
      then have "alloc3_desc s = Ok (None, s\<lparr>v_desc := (v_desc s)(i0 := null_desc), procs := ps\<rparr>)"
        using u a0 a1 Some None f n s0 by simp
      then show thesis by (rule none) (use c s0 in auto)
    next
      case (Some i1)
      note s1 = alloc_desc_Some [OF a1 [unfolded Some]]
      obtain r2 s2 where a2: "alloc_desc s1 = (r2, s2)" by fastforce
      show thesis
      proof (cases r2)
        case None
        note n = alloc_desc_None [OF a2 [unfolded None]]
        obtain ps where f: "free_desc i0 s2 = Ok (s2\<lparr>v_desc := (v_desc s2)(i0 := null_desc), v_free := (v_free s2)(i0 := True), procs := ps\<rparr>)" (is "_ = Ok ?t")
          using free_desc_ok [of i0 s2] n s0 s1 by auto
        obtain ps' where f': "free_desc i1 ?t = Ok (?t\<lparr>v_desc := (v_desc ?t)(i1 := null_desc), v_free := (v_free ?t)(i1 := True), procs := ps'\<rparr>)"
          using free_desc_ok [of i1 ?t] n s0 s1 by (auto split: if_splits)
        have "{i. i < NUM \<and> v_free s i} \<subseteq> {i0, i1}" using n s0 s1 by (auto split: if_splits)
        then have "card {i. i < NUM \<and> v_free s i} \<le> card {i0, i1}" by (intro card_mono) auto
        also have "\<dots> \<le> 2" by (simp add: card_insert_if)
        finally have c: "card {i. i < NUM \<and> v_free s i} < 3" by simp
        have "(v_free s)(i0 := True, i1 := True) = v_free s" using s0 s1 by (auto simp: fun_eq_iff split: if_splits)
        moreover have "i0 \<noteq> i1" using s0 s1 by auto
        ultimately have "alloc3_desc s = Ok (None, s\<lparr>v_desc := (v_desc s)(i0 := null_desc, i1 := null_desc), procs := ps'\<rparr>)"
          using u a0 a1 a2 \<open>r0 = Some i0\<close> Some None f f' n s0 s1 by (simp add: fun_upd_twist)
        then show thesis by (rule none) (use c s0 s1 in \<open>auto split: if_splits\<close>)
      next
        case (Some i2)
        note s2 = alloc_desc_Some [OF a2 [unfolded Some]]
        have "alloc3_desc s = Ok (Some [i0, i1, i2], s\<lparr>v_free := (v_free s)(i0 := False, i1 := False, i2 := False)\<rparr>)"
          using u a0 a1 a2 \<open>r0 = Some i0\<close> \<open>r1 = Some i1\<close> Some s0 s1 s2 by simp
        then show thesis by (rule got) (use s0 s1 s2 in \<open>auto split: if_splits\<close>)
      qed
    qed
  qed
qed

lemma free_chain_ok:
  assumes "vreq s (b, w, h)" "vchain s h = [h, i1, i2]" "distinct [h, i1, i2]" "\<And>i. i \<in> {h, i1, i2} \<Longrightarrow> i < NUM \<and> \<not> v_free s i"
  shows "\<exists>ps. virtio_disk_rw_end h s = Ok (s\<lparr>v_desc := (v_desc s)(h := null_desc, i1 := null_desc, i2 := null_desc),
    v_free := (v_free s)(h := True, i1 := True, i2 := True), v_info := (v_info s)(h := (v_info s h)\<lparr>vi_b := None\<rparr>), procs := ps\<rparr>)"
proof -
  let ?s = "upd_info h (\<lambda>x. x\<lparr>vi_b := None\<rparr>) s"
  have d: "v_desc ?s = v_desc s" "v_free ?s = v_free s" by (simp_all add: upd_info_def)
  have n: "unat (d_next (v_desc s h)) = i1" "unat (d_next (v_desc s i1)) = i2" using assms(2) by (auto simp: vchain_def Let_def)
  have f: "d_flags (v_desc s h) AND VRING_DESC_F_NEXT \<noteq> 0" "d_flags (v_desc s i1) AND VRING_DESC_F_NEXT \<noteq> 0"
    "d_flags (v_desc s i2) AND VRING_DESC_F_NEXT = 0"
    using assms(1) n by (auto simp: vreq_def Let_def VRING_DESC_F_NEXT_def VRING_DESC_F_WRITE_def)
  obtain p0 where p0: "free_desc h ?s = Ok (?s\<lparr>v_desc := (v_desc s)(h := null_desc), v_free := (v_free s)(h := True), procs := p0\<rparr>)" (is "_ = Ok ?ta")
    using free_desc_ok [of h ?s] assms(4) d by auto
  obtain p1 where p1: "free_desc i1 ?ta = Ok (?ta\<lparr>v_desc := (v_desc s)(h := null_desc, i1 := null_desc), v_free := (v_free s)(h := True, i1 := True), procs := p1\<rparr>)" (is "_ = Ok ?tb")
    using free_desc_ok [of i1 ?ta] assms(3,4) by auto
  obtain p2 where p2: "free_desc i2 ?tb = Ok (?tb\<lparr>v_desc := (v_desc s)(h := null_desc, i1 := null_desc, i2 := null_desc), v_free := (v_free s)(h := True, i1 := True, i2 := True), procs := p2\<rparr>)" (is "_ = Ok ?tc")
    using free_desc_ok [of i2 ?tb] assms(3,4) by auto
  have "free_chain i2 ?tb = Ok ?tc" using f(3) p2 assms(3) by (subst free_chain.simps) (simp add: Let_def)
  then have "free_chain i1 ?ta = Ok ?tc" using f(2) n(2) p1 assms(3) by (subst free_chain.simps) (simp add: Let_def)
  then have "free_chain h ?s = Ok ?tc" using f(1) n(1) p0 d by (subst free_chain.simps) (simp add: Let_def)
  then show ?thesis by (intro exI [of _ p2]) (simp add: virtio_disk_rw_end_def upd_info_def)
qed

section \<open>Rings\<close>

definition vused :: "kvirtio \<Rightarrow> nat list" where
  "vused s = map (unat \<circ> fst) (ring_elems NUM (v_uring s) (v_used_idx s) (v_uidx s))"

lemma NUM_dvd: "NUM dvd 2 ^ LENGTH(16)" by (simp add: NUM_def)

lemma vused_push:
  assumes "length (v_uring s) = NUM" "length (vused s) < NUM" "h < NUM"
  shows "vused (vpush len h s) = vused s @ [h]"
proof -
  have "unat (v_uidx s - v_used_idx s) < NUM" using assms(2) by (simp add: vused_def)
  then have "ring_elems NUM ((v_uring s)[unat (v_uidx s) mod NUM := (word_of_nat h, len)]) (v_used_idx s) (v_uidx s + 1)
      = ring_elems NUM (v_uring s) (v_used_idx s) (v_uidx s) @ [(word_of_nat h, len)]"
    using assms(1) by (intro ring_put) (simp_all add: NUM_def)
  moreover have "unat (word_of_nat h :: uint32) = h" using assms(3) by (intro unat_of_nat_small) (simp add: NUM_def)
  ultimately show ?thesis by (simp add: vused_def vpush_def)
qed

text \<open>The handler clears the flag of every buffer whose request is in the used ring.\<close>

lemma vintr_loop_ok:
  assumes "\<And>h. h \<in> set (vused s) \<Longrightarrow> vi_status (v_info s h) = 0 \<and> (\<exists>b. vi_b (v_info s h) = Some b)"
  shows "\<exists>ps. vintr_loop s = Ok (s\<lparr>v_used_idx := v_uidx s, procs := ps,
    b_disk := (\<lambda>b. b_disk s b \<and> (\<forall>h\<in>set (vused s). vi_b (v_info s h) \<noteq> Some b))\<rparr>)"
  using assms
proof (induction s rule: vintr_loop.induct)
  case (1 s)
  show ?case
  proof (cases "v_used_idx s = v_uidx s")
    case True
    then have "vused s = []" by (simp add: vused_def ring_empty)
    then show ?thesis using True by (intro exI [of _ "procs s"]) (subst vintr_loop.simps, simp)
  next
    case False
    let ?h = "unat (fst (v_uring s ! (unat (v_used_idx s) mod NUM)))"
    have u: "vused s = ?h # map (unat \<circ> fst) (ring_elems NUM (v_uring s) (v_used_idx s + 1) (v_uidx s))"
      using ring_get [OF False, of NUM "v_uring s"] by (simp add: vused_def)
    obtain b where b: "vi_status (v_info s ?h) = 0" "vi_b (v_info s ?h) = Some b" using "1.prems" [of ?h] u by auto
    let ?t = "(wakeup (Chan_bdisk b) (s\<lparr>b_disk := (b_disk s)(b := False)\<rparr>))\<lparr>v_used_idx := v_used_idx s + 1\<rparr>"
    have t: "vused s = ?h # vused ?t" "v_info ?t = v_info s" "v_uidx ?t = v_uidx s" "b_disk ?t = (b_disk s)(b := False)"
      using u by (simp_all add: vused_def wakeup_def)
    have e: "vintr_loop s = vintr_loop ?t" using False b by (subst vintr_loop.simps) (simp add: Let_def)
    obtain ps where ps: "vintr_loop ?t = Ok (?t\<lparr>v_used_idx := v_uidx ?t, procs := ps,
        b_disk := (\<lambda>b. b_disk ?t b \<and> (\<forall>h\<in>set (vused ?t). vi_b (v_info ?t h) \<noteq> Some b))\<rparr>)"
      using "1.IH" [OF False refl _ b(2)] b(1) "1.prems" t by force
    have "(\<lambda>c. b_disk ?t c \<and> (\<forall>h\<in>set (vused ?t). vi_b (v_info ?t h) \<noteq> Some c)) =
      (\<lambda>c. b_disk s c \<and> (\<forall>h\<in>set (vused s). vi_b (v_info s h) \<noteq> Some c))"
      using t b by auto
    then show ?thesis using e ps t(3) by (intro exI [of _ ps]) (simp add: wakeup_def)
  qed
qed

section \<open>The invariant\<close>

abbreviation vhead :: "nat \<times> bool \<times> nat \<Rightarrow> nat" where
  "vhead c \<equiv> snd (snd c)"

definition vavail :: "vsys \<Rightarrow> nat list" where
  "vavail x = map unat (ring_elems NUM (v_avail_ring (vk x)) (dv_last x) (v_avail_idx (vk x)))"

definition vdone :: "vsys \<Rightarrow> nat list" where
  "vdone x = map vhead (filter (\<lambda>c. \<not> b_disk (vk x) (fst c)) (callers x))"

definition vchains :: "kvirtio \<Rightarrow> (nat \<times> bool \<times> nat) list \<Rightarrow> nat list" where
  "vchains s cs = concat (map (\<lambda>c. vchain s (vhead c)) cs)"

text \<open>
  The chains of the callers are the descriptors in use, without overlap, and each caller's request is
  in exactly one place: offered to the device, taken by it, in the used ring, or done.
\<close>

definition vinv :: "vsys \<Rightarrow> bool" where
  "vinv x \<longleftrightarrow> length (v_avail_ring (vk x)) = NUM \<and> length (v_uring (vk x)) = NUM \<and>
     (\<forall>c\<in>set (callers x). vreq (vk x) c) \<and> distinct (vchains (vk x) (callers x)) \<and>
     set (vchains (vk x) (callers x)) = {i. i < NUM \<and> \<not> v_free (vk x) i} \<and> distinct (map fst (callers x)) \<and>
     distinct (vavail x @ dv_taken x @ vused (vk x) @ vdone x) \<and>
     set (vavail x @ dv_taken x @ vused (vk x) @ vdone x) = vhead ` set (callers x) \<and>
     (\<forall>h\<in>set (vused (vk x)). vi_status (v_info (vk x) h) = 0)"

lemma vchain_head [simp]: "h \<in> set (vchain s h)" by (simp add: vchain_def Let_def)

lemma length_vchains [simp]: "length (vchains s cs) = 3 * length cs"
  by (induction cs) (auto simp: vchains_def vchain_def Let_def)

lemma vchains_head: "c \<in> set cs \<Longrightarrow> set (vchain s (vhead c)) \<subseteq> set (vchains s cs)"
  by (auto simp: vchains_def)

lemma vchains_Cons [simp]: "vchains s (c # cs) = vchain s (vhead c) @ vchains s cs"
  by (simp add: vchains_def)

lemma vchains_vhead: "c \<in> set cs \<Longrightarrow> vhead c \<in> set (vchains s cs)"
  using vchains_head [of c cs s] vchain_head by blast

lemma distinct_vchains:
  assumes "distinct (vchains s cs)"
  shows "distinct (map vhead cs)" "c \<in> set cs \<Longrightarrow> distinct (vchain s (vhead c))"
    "c \<in> set cs \<Longrightarrow> distinct (vchains s (remove1 c cs)) \<and> set (vchains s (remove1 c cs)) = set (vchains s cs) - set (vchain s (vhead c))"
    "c \<in> set cs \<Longrightarrow> c' \<in> set cs \<Longrightarrow> c \<noteq> c' \<Longrightarrow> set (vchain s (vhead c)) \<inter> set (vchain s (vhead c')) = {}"
  using assms
proof (induction cs)
  case (Cons d cs)
  have dj: "distinct (vchains s (d # cs)) \<Longrightarrow> set (vchain s (vhead d)) \<inter> set (vchains s cs) = {}" by simp
  have nd: "distinct (vchains s (d # cs)) \<Longrightarrow> vhead d \<notin> set (vchains s cs)" using dj vchain_head [of "vhead d" s] by blast
  { case 1 then show ?case using Cons(1) nd vchains_vhead [of _ cs s] by auto }
  { case 2 then show ?case using Cons(2) by auto }
  { case 3 then show ?case using Cons(3) dj vchains_head [of c cs s] by auto }
  { case 4 then show ?case using dj Cons(4) vchains_head [of c cs s] vchains_head [of c' cs s] by auto }
qed (simp_all add: vchains_def)

lemma vinvD:
  assumes "vinv x"
  shows "distinct (map vhead (callers x))" "length (vavail x) + length (dv_taken x) + length (vused (vk x)) + length (vdone x) = length (callers x)"
    "3 * length (callers x) + card {i. i < NUM \<and> v_free (vk x) i} = NUM" "length (callers x) \<le> 2"
    "(b, w, h) \<in> set (callers x) \<Longrightarrow> (b', w', h) \<in> set (callers x) \<Longrightarrow> b' = b \<and> w' = w"
    "(b, w, h) \<in> set (callers x) \<Longrightarrow> (b, w', h') \<in> set (callers x) \<Longrightarrow> h' = h \<and> w' = w"
    "c \<in> set (callers x) \<Longrightarrow> vreq (vk x) c"
    "c \<in> set (callers x) \<Longrightarrow> i \<in> set (vchain (vk x) (vhead c)) \<Longrightarrow> i < NUM \<and> \<not> v_free (vk x) i"
    "h \<in> set (vavail x) \<union> set (dv_taken x) \<union> set (vused (vk x)) \<Longrightarrow> \<exists>b w. (b, w, h) \<in> set (callers x)"
proof -
  have i: "distinct (vchains (vk x) (callers x))" "set (vchains (vk x) (callers x)) = {i. i < NUM \<and> \<not> v_free (vk x) i}"
    "distinct (vavail x @ dv_taken x @ vused (vk x) @ vdone x)" "distinct (map fst (callers x))"
    "set (vavail x @ dv_taken x @ vused (vk x) @ vdone x) = vhead ` set (callers x)" using assms unfolding vinv_def by blast+
  show d: "distinct (map vhead (callers x))" by (rule distinct_vchains [OF i(1)])
  have "length (vavail x @ dv_taken x @ vused (vk x) @ vdone x) = card (vhead ` set (callers x))"
    using distinct_card [OF i(3)] i(5) by simp
  also have "\<dots> = length (callers x)" using distinct_card [OF d] by simp
  finally show "length (vavail x) + length (dv_taken x) + length (vused (vk x)) + length (vdone x) = length (callers x)" by simp
  have c: "3 * length (callers x) = card {i. i < NUM \<and> \<not> v_free (vk x) i}" using distinct_card [OF i(1)] i(2) by simp
  have "{i. i < NUM \<and> \<not> v_free (vk x) i} \<union> {i. i < NUM \<and> v_free (vk x) i} = {..<NUM}" by auto
  then have "card {i. i < NUM \<and> \<not> v_free (vk x) i} + card {i. i < NUM \<and> v_free (vk x) i} = card {..<NUM}"
    by (subst card_Un_disjoint [symmetric]) auto
  then show n: "3 * length (callers x) + card {i. i < NUM \<and> v_free (vk x) i} = NUM" using c by simp
  then show "length (callers x) \<le> 2" by (simp add: NUM_def)
  show "(b, w, h) \<in> set (callers x) \<Longrightarrow> (b', w', h) \<in> set (callers x) \<Longrightarrow> b' = b \<and> w' = w"
    using d by (force simp: distinct_map inj_on_def)
  show "(b, w, h) \<in> set (callers x) \<Longrightarrow> (b, w', h') \<in> set (callers x) \<Longrightarrow> h' = h \<and> w' = w"
    using i(4) by (force simp: distinct_map inj_on_def)
  show "c \<in> set (callers x) \<Longrightarrow> vreq (vk x) c" using assms by (simp add: vinv_def)
  show "c \<in> set (callers x) \<Longrightarrow> i \<in> set (vchain (vk x) (vhead c)) \<Longrightarrow> i < NUM \<and> \<not> v_free (vk x) i"
    using vchains_head [of c "callers x" "vk x"] i(2) by blast
  show "h \<in> set (vavail x) \<union> set (dv_taken x) \<union> set (vused (vk x)) \<Longrightarrow> \<exists>b w. (b, w, h) \<in> set (callers x)"
  proof -
    assume "h \<in> set (vavail x) \<union> set (dv_taken x) \<union> set (vused (vk x))"
    then have "h \<in> vhead ` set (callers x)" unfolding i(5) [symmetric] by auto
    then obtain c where "c \<in> set (callers x)" "h = vhead c" by blast
    then show ?thesis by (metis prod.collapse)
  qed
qed

section \<open>Every step keeps the invariant\<close>

lemma vreq_frame:
  assumes "\<And>c. c \<in> set cs \<Longrightarrow> vreq s c" "\<And>c i. c \<in> set cs \<Longrightarrow> i \<in> set (vchain s (vhead c)) \<Longrightarrow> v_desc s' i = v_desc s i"
    "\<And>b w h. (b, w, h) \<in> set cs \<Longrightarrow> v_ops s' h = v_ops s h \<and> vi_b (v_info s' h) = vi_b (v_info s h) \<and> b_blockno (bufs s' ! b) = b_blockno (bufs s ! b)"
    "length (bufs s') = length (bufs s)"
  shows "\<forall>c\<in>set cs. vreq s' c" "vchains s' cs = vchains s cs"
proof -
  have "vreq s' c \<and> vchain s' (vhead c) = vchain s (vhead c)" if c: "c \<in> set cs" for c
  proof -
    obtain b w h where bwh: "c = (b, w, h)" by (cases c)
    note f = assms(3) [OF c [unfolded bwh]]
    have d: "\<And>i. i \<in> set (vchain s h) \<Longrightarrow> v_desc s' i = v_desc s i" using assms(2) [OF c] bwh by simp
    show ?thesis using vreq_cong [where s = s and h = h and s' = s' and b = b, OF d] f assms(4) assms(1) [OF c] unfolding bwh by simp
  qed
  then show "\<forall>c\<in>set cs. vreq s' c" "vchains s' cs = vchains s cs" by (auto simp: vchains_def cong: map_cong)
qed

lemma vinv_take:
  assumes "vinv x" "dv_last x \<noteq> v_avail_idx (vk x)"
  defines "h \<equiv> unat (v_avail_ring (vk x) ! (unat (dv_last x) mod NUM))"
  defines "y \<equiv> x\<lparr>dv_taken := h # dv_taken x, dv_last := dv_last x + 1\<rparr>"
  shows "vinv y" "vavail x = h # vavail y"
proof -
  show a: "vavail x = h # vavail y" using ring_get [OF assms(2), of NUM "v_avail_ring (vk x)"] by (simp add: vavail_def y_def h_def)
  have "vk y = vk x" "callers y = callers x" "vdone y = vdone x" "dv_taken y = h # dv_taken x" by (simp_all add: y_def vdone_def)
  then show "vinv y" using assms(1) a unfolding vinv_def by auto
qed

lemma in_vdone: "h \<in> set (vdone x) \<longleftrightarrow> (\<exists>b w. (b, w, h) \<in> set (callers x) \<and> \<not> b_disk (vk x) b)"
  by (force simp: vdone_def)

lemma vinv_serve:
  assumes "vinv x" "h \<in> set (dv_taken x)" "vserve xfer len h (vk x) = Some s" "blk_device xfer"
  defines "y \<equiv> x\<lparr>vk := s, dv_taken := remove1 h (dv_taken x)\<rparr>"
  obtains b w where "(b, w, h) \<in> set (callers x)" "vinv y" "vused s = vused (vk x) @ [h]" "vavail y = vavail x" "vdone y = vdone x"
    "b_disk s = b_disk (vk x)" "bufs s = bufs (virtio_disk_rw b w (vk x))" "disk s = disk (virtio_disk_rw b w (vk x))" "dwrites s = dwrites (virtio_disk_rw b w (vk x))"
proof -
  obtain b w where c: "(b, w, h) \<in> set (callers x)" using vinvD(9) [OF assms(1)] assms(2) by blast
  let ?t = "upd_info h (\<lambda>y. y\<lparr>vi_status := 0\<rparr>) (virtio_disk_rw b w (vk x))"
  have s: "s = vpush len h ?t" using vserve_eq [OF assms(4) vinvD(7) [OF assms(1) c]] assms(3) by simp
  have h: "h < NUM" using vinvD(8) [OF assms(1) c, of h] by simp
  have l: "length (v_uring (vk x)) = NUM" "length (v_avail_ring (vk x)) = NUM" using assms(1) by (simp_all add: vinv_def)
  have t: "v_uring ?t = v_uring (vk x)" "vused ?t = vused (vk x)" by (simp_all add: upd_info_def virtio_disk_rw_def upd_buf_def vused_def)
  have "length (vused (vk x)) < NUM" using vinvD(2,4) [OF assms(1)] by (simp add: NUM_def)
  then have u: "vused s = vused (vk x) @ [h]" unfolding s using vused_push [of ?t h len] l h t by simp
  have f: "v_desc s = v_desc (vk x)" "v_free s = v_free (vk x)" "v_ops s = v_ops (vk x)" "b_disk s = b_disk (vk x)" "v_avail_ring s = v_avail_ring (vk x)"
    "v_avail_idx s = v_avail_idx (vk x)" "length (v_uring s) = NUM" "length (bufs s) = length (bufs (vk x))" "vi_b (v_info s i) = vi_b (v_info (vk x) i)"
    "bufs s = bufs (virtio_disk_rw b w (vk x))" "disk s = disk (virtio_disk_rw b w (vk x))" "dwrites s = dwrites (virtio_disk_rw b w (vk x))"
    "vi_status (v_info s i) = (if i = h then 0 else vi_status (v_info (vk x) i))" for i
    using l by (auto simp: s vpush_def upd_info_def virtio_disk_rw_def upd_buf_def)
  have bn: "b_blockno (bufs s ! i) = b_blockno (bufs (vk x) ! i)" for i
    unfolding f(10) by (cases "b < length (bufs (vk x))"; cases "i = b") (simp_all add: virtio_disk_rw_def upd_buf_def list_update_beyond)
  have r: "\<forall>c\<in>set (callers x). vreq s c" "vchains s (callers x) = vchains (vk x) (callers x)"
    by (rule vreq_frame [of "callers x" "vk x"]; use f bn vinvD(7) [OF assms(1)] in auto)+
  have v: "vk y = s" "callers y = callers x" "vavail y = vavail x" "vdone y = vdone x" "dv_taken y = remove1 h (dv_taken x)"
    using f by (simp_all add: y_def vavail_def vdone_def)
  have d: "distinct (dv_taken x)" using assms(1) by (simp add: vinv_def)
  have "vinv y" using assms(1,2) r f(2,5,7,13) l d unfolding vinv_def v u by (auto simp: distinct_remove1)
  then show thesis using that c u v f by blast
qed

lemma vinv_intr:
  assumes "vinv x"
  obtains s where "virtio_disk_intr (vk x) = Ok s" "vinv (x\<lparr>vk := s\<rparr>)" "bufs s = bufs (vk x)" "disk s = disk (vk x)" "dwrites s = dwrites (vk x)"
    "vused s = []" "vavail (x\<lparr>vk := s\<rparr>) = vavail x" "set (vdone (x\<lparr>vk := s\<rparr>)) = set (vdone x) \<union> set (vused (vk x))"
proof -
  let ?w = "vwrite VIRTIO_MMIO_INTERRUPT_ACK (v_regs (vk x) VIRTIO_MMIO_INTERRUPT_STATUS AND 0x3) (vk x)"
  have w: "v_info ?w = v_info (vk x)" "vused ?w = vused (vk x)" by (simp_all add: vwrite_def vused_def)
  have info: "vi_b (v_info (vk x) h) = Some b" if "(b, c, h) \<in> set (callers x)" for b c h
    using vinvD(7) [OF assms that] by (simp add: vreq_def Let_def)
  have ok: "vi_status (v_info ?w h) = 0 \<and> (\<exists>b. vi_b (v_info ?w h) = Some b)" if "h \<in> set (vused ?w)" for h
    using that assms info vinvD(9) [OF assms, of h] unfolding w by (auto simp: vinv_def)
  define s where "s = ?w\<lparr>v_used_idx := v_uidx ?w, procs := procs (case vintr_loop ?w of Ok s \<Rightarrow> s | _ \<Rightarrow> ?w),
      b_disk := (\<lambda>b. b_disk ?w b \<and> (\<forall>h\<in>set (vused ?w). vi_b (v_info ?w h) \<noteq> Some b))\<rparr>"
  have r: "virtio_disk_intr (vk x) = Ok s" using vintr_loop_ok [of ?w, OF ok] by (auto simp: virtio_disk_intr_def s_def)
  let ?y = "x\<lparr>vk := s\<rparr>"
  have f: "v_desc s = v_desc (vk x)" "v_free s = v_free (vk x)" "v_ops s = v_ops (vk x)" "v_info s = v_info (vk x)" "v_avail_ring s = v_avail_ring (vk x)"
    "v_avail_idx s = v_avail_idx (vk x)" "v_uring s = v_uring (vk x)" "bufs s = bufs (vk x)" "disk s = disk (vk x)" "dwrites s = dwrites (vk x)"
    by (simp_all add: s_def vwrite_def)
  have u: "vused s = []" by (simp add: s_def vused_def ring_empty)
  have bd: "b_disk s b \<longleftrightarrow> b_disk (vk x) b \<and> h \<notin> set (vused (vk x))" if "(b, c, h) \<in> set (callers x)" for b c h
  proof -
    have "h' = h" if "h' \<in> set (vused (vk x))" "vi_b (v_info (vk x) h') = Some b" for h'
    proof -
      from that(1) vinvD(9) [OF assms, of h'] obtain b' c' where c': "(b', c', h') \<in> set (callers x)" by blast
      then have "b' = b" using info [OF c'] that(2) by simp
      then show ?thesis using vinvD(6) [OF assms \<open>(b, c, h) \<in> _\<close>] c' by blast
    qed
    then show ?thesis using info [OF that] by (auto simp: s_def w) (simp_all add: vwrite_def)
  qed
  have r': "\<forall>c\<in>set (callers x). vreq s c" "vchains s (callers x) = vchains (vk x) (callers x)"
    by (rule vreq_frame [of "callers x" "vk x"]; use f vinvD(7) [OF assms] in auto)+
  have dn: "set (vdone ?y) = set (vdone x) \<union> set (vused (vk x))"
  proof (rule set_eqI)
    fix h
    show "h \<in> set (vdone ?y) \<longleftrightarrow> h \<in> set (vdone x) \<union> set (vused (vk x))"
      unfolding Un_iff in_vdone using bd vinvD(9) [OF assms, of h] by auto
  qed
  have dd: "distinct (vdone ?y)" using vinvD(1) [OF assms] by (simp add: vdone_def distinct_map_filter)
  have v: "vk ?y = s" "callers ?y = callers x" "vavail ?y = vavail x" "dv_taken ?y = dv_taken x" using f by (simp_all add: vavail_def)
  have "vinv ?y" using assms r' f(2,5,7) dd dn u unfolding vinv_def v by auto
  then show thesis using that r f u v(3) dn by blast
qed

lemma vinv_finish:
  assumes "vinv x" "(b, w, h) \<in> set (callers x)" "\<not> b_disk (vk x) b"
  obtains s where "virtio_disk_rw_end h (vk x) = Ok s" "vinv (x\<lparr>vk := s, callers := remove1 (b, w, h) (callers x)\<rparr>)"
    "bufs s = bufs (vk x)" "disk s = disk (vk x)" "dwrites s = dwrites (vk x)" "vused s = vused (vk x)" "b_disk s = b_disk (vk x)"
    "vavail (x\<lparr>vk := s, callers := remove1 (b, w, h) (callers x)\<rparr>) = vavail x"
    "length (vdone x) = Suc (length (vdone (x\<lparr>vk := s, callers := remove1 (b, w, h) (callers x)\<rparr>)))"
proof -
  let ?c = "(b, w, h)" and ?cs = "callers x"
  obtain i1 i2 where ch: "vchain (vk x) h = [h, i1, i2]" by (simp add: vchain_def Let_def)
  have dc: "distinct (vchains (vk x) ?cs)" using assms(1) by (simp add: vinv_def)
  note dv = distinct_vchains [OF dc]
  have dist: "distinct [h, i1, i2]" using dv(2) [OF assms(2)] ch by simp
  have use: "i < NUM \<and> \<not> v_free (vk x) i" if "i \<in> {h, i1, i2}" for i using vinvD(8) [OF assms(1,2), of i] that ch by auto
  obtain ps where e: "virtio_disk_rw_end h (vk x) = Ok ((vk x)\<lparr>v_desc := (v_desc (vk x))(h := null_desc, i1 := null_desc, i2 := null_desc),
      v_free := (v_free (vk x))(h := True, i1 := True, i2 := True), v_info := (v_info (vk x))(h := (v_info (vk x) h)\<lparr>vi_b := None\<rparr>), procs := ps\<rparr>)" (is "_ = Ok ?s")
    using free_chain_ok [OF vinvD(7) [OF assms(1,2)] ch dist use] by blast
  let ?y = "x\<lparr>vk := ?s, callers := remove1 ?c ?cs\<rparr>"
  have ne: "h' \<noteq> h" and nd: "set (vchain (vk x) h') \<inter> {h, i1, i2} = {}" if "(b', w', h') \<in> set (remove1 ?c ?cs)" for b' w' h'
  proof -
    have d: "distinct ?cs" using vinvD(1) [OF assms(1)] by (simp add: distinct_map)
    then have c': "(b', w', h') \<in> set ?cs" "(b', w', h') \<noteq> ?c" using that by auto
    show "h' \<noteq> h" using c' vinvD(5) [OF assms(1,2)] by blast
    show "set (vchain (vk x) h') \<inter> {h, i1, i2} = {}" using dv(4) [OF c'(1) assms(2) c'(2)] ch by simp
  qed
  have q: "vreq (vk x) c" if "c \<in> set (remove1 ?c ?cs)" for c using vinvD(7) [OF assms(1)] that by (meson notin_set_remove1)
  have ds: "v_desc ?s i = v_desc (vk x) i" if "c \<in> set (remove1 ?c ?cs)" "i \<in> set (vchain (vk x) (vhead c))" for c i
    using nd [of "fst c" "fst (snd c)" "vhead c"] that by auto
  have fs: "v_ops ?s h' = v_ops (vk x) h' \<and> vi_b (v_info ?s h') = vi_b (v_info (vk x) h') \<and> b_blockno (bufs ?s ! b') = b_blockno (bufs (vk x) ! b')"
    if "(b', w', h') \<in> set (remove1 ?c ?cs)" for b' w' h' using ne [OF that] by simp
  have r: "\<forall>c\<in>set (remove1 ?c ?cs). vreq ?s c" "vchains ?s (remove1 ?c ?cs) = vchains (vk x) (remove1 ?c ?cs)"
    by (rule vreq_frame [OF q ds fs]; simp)+
  have fr: "set (vchains ?s (remove1 ?c ?cs)) = {i. i < NUM \<and> \<not> v_free ?s i}" "distinct (vchains ?s (remove1 ?c ?cs))"
    using dv(3) [OF assms(2)] assms(1) use ch unfolding r(2) by (auto simp: vinv_def)
  have u: "vused ?s = vused (vk x)" "vavail ?y = vavail x" by (simp_all add: vused_def vavail_def)
  have d: "distinct (map vhead ?cs)" by (rule vinvD(1) [OF assms(1)])
  then have dc': "distinct ?cs" by (simp add: distinct_map)
  have dn: "set (vdone ?y) = set (vdone x) - {h}"
  proof (rule set_eqI)
    fix h'
    have "(b', w', h') \<in> set (remove1 ?c ?cs) \<longleftrightarrow> (b', w', h') \<in> set ?cs \<and> h' \<noteq> h" for b' w'
      using dc' ne [of b' w' h'] by (auto simp: set_remove1_eq)
    then show "h' \<in> set (vdone ?y) \<longleftrightarrow> h' \<in> set (vdone x) - {h}" unfolding Diff_iff in_vdone by auto
  qed
  have h: "h \<in> set (vdone x)" using assms(2,3) by (force simp: vdone_def)
  have dd: "distinct (vdone ?y)" "distinct (vdone x)" using d dc' by (auto simp: vdone_def distinct_map inj_on_def)
  have "card (set (vdone x)) = Suc (card (set (vdone ?y)))" unfolding dn using h by (metis card_Suc_Diff1 finite_set)
  then have len: "length (vdone x) = Suc (length (vdone ?y))" using dd by (simp add: distinct_card)
  have v: "vk ?y = ?s" "callers ?y = remove1 ?c ?cs" "dv_taken ?y = dv_taken x" by simp_all
  have hd: "vhead ` set (remove1 ?c ?cs) = vhead ` set ?cs - {h}"
    using d dc' assms(2) inj_on_image_set_diff [of vhead "set ?cs" "set ?cs" "{?c}"] by (simp add: distinct_map set_remove1_eq)
  have bf: "distinct (map fst (remove1 ?c ?cs))" using assms(1) dc' by (auto simp: vinv_def distinct_map inj_on_def)
  have ds: "distinct (vavail x @ dv_taken x @ vused (vk x) @ vdone x)" "set (vavail x @ dv_taken x @ vused (vk x) @ vdone x) = vhead ` set ?cs"
    using assms(1) unfolding vinv_def by blast+
  have "set (vavail x @ dv_taken x @ vused (vk x) @ vdone ?y) = set (vavail x @ dv_taken x @ vused (vk x) @ vdone x) - {h}"
    using ds(1) h dn by auto
  then have "distinct (vavail x @ dv_taken x @ vused (vk x) @ vdone ?y)" "set (vavail x @ dv_taken x @ vused (vk x) @ vdone ?y) = vhead ` set (remove1 ?c ?cs)"
    using ds dd dn unfolding hd by auto
  then have "vinv ?y" using assms(1) r(1) fr bf unfolding vinv_def v u by simp
  then show thesis using that [OF e] u len by simp
qed

end
