(* ===== verification/UnmapThms.thy ===== *)
theory UnmapThms
  imports Vm
begin

text \<open>
  Unmapping user pages, \<^verbatim>\<open>uvmunmap\<close> of \<^verbatim>\<open>kernel/vm.c\<close> in both of its build variants: which entries it
  clears and which frames go back to the allocator.
\<close>

section \<open>Steps on a page table\<close>

definition frame :: "'z kmem_scheme \<Rightarrow> addr \<Rightarrow> uint64 \<Rightarrow> addr" where
  "frame s root a = PTE2PA (pte_of (ram s) root a)"

text \<open>\<open>s'\<close> differs from \<open>s\<close> in that the entries of the pages \<open>A\<close> are cleared; \<open>ys\<close> is its free list.\<close>

definition cleared :: "addr \<Rightarrow> uint64 set \<Rightarrow> 'z kmem_scheme \<Rightarrow> 'z kmem_scheme \<Rightarrow> addr list \<Rightarrow> bool" where
  "cleared root A s s' ys \<longleftrightarrow> pt_wf s' root ys \<and> pt_pages (ram s') root = pt_pages (ram s) root \<and> kend s' = kend s \<and>
     (\<forall>v<MAXVA. pte_of (ram s') root v = (if PGROUNDDOWN v \<in> A then 0 else pte_of (ram s) root v))"

lemma cleared_trans: "cleared root A s s1 ys \<Longrightarrow> cleared root B s1 s2 zs \<Longrightarrow> cleared root (A \<union> B) s s2 zs"
  by (auto simp: cleared_def)

lemma pt_wf_cong:
  assumes "ram s' = ram s" "freelist s' = freelist s" "kend s' = kend s"
  shows "pt_wf s' root ys \<longleftrightarrow> pt_wf s root ys"
  using assms by (simp add: pt_wf_def kinv_def page_ok_def)

lemma free_frame:
  assumes wf: "pt_wf s root ys" and f: "page_ok s f" "f \<notin> set ys" "f \<notin> pt_pages (ram s) root"
  obtains s1 where "kfree f s = Ok s1" "cleared root {} s s1 (f # ys)"
    "\<And>p. path p \<Longrightarrow> tbl (ram s1) root p = tbl (ram s) root p"
proof -
  have inv: "kinv s ys" using wf by (simp add: pt_wf_def)
  obtain s1 where s1: "kfree f s = Ok s1" "kinv s1 (f # ys)" "\<And>a. PGROUNDDOWN a \<noteq> f \<Longrightarrow> ram s1 a = ram s a"
    "s1 = s\<lparr>ram := ram s1, freelist := f\<rparr>"
    using kfree_spec [OF inv f(1,2)] by blast
  have m: "ram s1 a = ram s a" if "PGROUNDDOWN a \<in> pt_pages (ram s) root" for a using that f(3) s1(3) by metis
  have k: "kend s1 = kend s" by (subst s1(4)) simp
  have "set ys \<inter> pt_pages (ram s) root = {}" using pt_wfD(2) [OF wf] unfolding pt_pages_def by blast
  then have "pt_wf s1 root (f # ys)" using f(3) by (intro pt_wf_transfer [OF wf s1(2) _ m k]) auto
  then have "cleared root {} s s1 (f # ys)"
    using pt_pages_frame [OF wf m] pte_of_frame [OF wf m] k by (simp add: cleared_def)
  then show thesis using that [OF s1(1)] tbl_frame [OF wf m] by blast
qed

lemma clear_entry:
  assumes wf: "pt_wf s root ys" and a: "a < MAXVA" "page_aligned a" and t: "tbl (ram s) root (idx 0 a) = Some t"
  shows "cleared root {a} s (Vm.set_pte (t + 8 * PX 0 a) 0 s) ys"
proof -
  let ?s = "s\<lparr>ram := st64 (ram s) (t + 8 * PX 0 a) 0\<rparr>"
  note g = PageTable.set_pte [OF wf t refl, of 0]
  have "pte_of (ram ?s) root v = (if PGROUNDDOWN v \<in> {a} then 0 else pte_of (ram s) root v)" if "v < MAXVA" for v
    using g(2) [of v] same_leaf_iff [OF a(1) that] a(2) by auto
  then show ?thesis using g(1) unfolding cleared_def pt_grow_def Vm.set_pte_def by auto
qed

text \<open>The pages \<open>as\<close> can be unmapped: user pages that are not swapped out, with frames of their own.\<close>

definition unmaps :: "addr \<Rightarrow> uint64 list \<Rightarrow> 'z kmem_scheme \<Rightarrow> addr list \<Rightarrow> bool" where
  "unmaps root as s ys \<longleftrightarrow> pt_wf s root ys \<and> distinct as \<and> distinct (map (frame s root) as) \<and>
     (\<forall>a\<in>set as. a < MAXVA \<and> page_aligned a \<and> user_pte (pte_of (ram s) root a) \<and> \<not> bit (pte_of (ram s) root a) 9 \<and>
        page_ok s (frame s root a) \<and> frame s root a \<notin> set ys \<and> frame s root a \<notin> pt_pages (ram s) root)"

lemma unmaps_next:
  assumes u: "unmaps root (a # as) s ys" and c: "cleared root {a} s s' zs" and z: "set zs \<subseteq> insert (frame s root a) (set ys)"
  shows "unmaps root as s' zs" "map (frame s' root) as = map (frame s root) as"
proof -
  have same: "pte_of (ram s') root b = pte_of (ram s) root b" if "b \<in> set as" for b
  proof -
    have "b \<noteq> a" "b < MAXVA" "page_aligned b" using u that by (auto simp: unmaps_def)
    then show ?thesis using c by (simp add: cleared_def)
  qed
  then have fr: "frame s' root b = frame s root b" if "b \<in> set as" for b using that by (simp add: frame_def)
  then show m: "map (frame s' root) as = map (frame s root) as" by simp
  have "frame s root b \<notin> set zs" if "b \<in> set as" for b
  proof -
    have "frame s root a \<notin> frame s root ` set as" using u by (simp add: unmaps_def)
    then have "frame s root b \<noteq> frame s root a" using imageI [OF that, of "frame s root"] by metis
    moreover have "frame s root b \<notin> set ys" using u that by (simp add: unmaps_def)
    ultimately show ?thesis using z by blast
  qed
  then show "unmaps root as s' zs"
    using u c same fr unfolding unmaps_def m cleared_def by (simp add: page_ok_def)
qed

lemma unmaps_walk:
  assumes u: "unmaps root (a # as) s ys"
  obtains t where "tbl (ram s) root (idx 0 a) = Some t" "walk root a False s = Ok (t + 8 * PX 0 a, s)"
    "t + 8 * PX 0 a \<noteq> 0" "ld64 (ram s) (t + 8 * PX 0 a) = pte_of (ram s) root a"
proof -
  have a: "a < MAXVA" "user_pte (pte_of (ram s) root a)" and wf: "pt_wf s root ys" using u by (auto simp: unmaps_def)
  then obtain t where t: "tbl (ram s) root (idx 0 a) = Some t"
    by (cases "tbl (ram s) root (idx 0 a)") (auto simp: pte_of_None user_pte_def)
  have "t + 8 * PX 0 a \<noteq> 0" by (rule pte_addr_nonzero [OF pt_wfD(3,4) [OF wf _ t] PX_less]) simp_all
  then show thesis using that [OF t] t a by (simp add: walk_noalloc pte_of_Some)
qed

lemma user_pte_flags: "user_pte e \<Longrightarrow> e AND PTE_V \<noteq> 0" "user_pte e \<Longrightarrow> PTE_FLAGS e \<noteq> PTE_V"
  "\<not> bit e 9 \<Longrightarrow> e AND PTE_PG = 0"
proof -
  assume u: "user_pte e"
  then show "e AND PTE_V \<noteq> 0" by (simp add: flag_bit user_pte_def)
  have "bit (PTE_FLAGS e) 4" using u by (simp add: PTE_FLAGS_eq bit_take_bit_iff user_pte_def)
  moreover have "\<not> bit PTE_V 4" unfolding PTE_V_def bit_push_bit_iff bit_1_iff by simp
  ultimately show "PTE_FLAGS e \<noteq> PTE_V" by metis
next
  assume "\<not> bit e 9"
  moreover have "bit PTE_PG n \<longleftrightarrow> n = 9" for n unfolding PTE_PG_def bit_push_bit_iff bit_1_iff by auto
  ultimately show "e AND PTE_PG = 0" by (intro bit_word_eqI) (auto simp: bit_and_iff)
qed

section \<open>The loops\<close>

lemma not_NONE_loop:
  fixes s :: "'z kprocs_scheme"
  assumes "unmaps root as s ys"
  shows "\<exists>s'. uvmunmap_not_NONE_loop root True as s = Ok s' \<and> cleared root (set as) s s' (rev (map (frame s root) as) @ ys)"
  using assms
proof (induction as arbitrary: s ys)
  case Nil
  then show ?case by (simp add: cleared_def unmaps_def)
next
  case (Cons a as)
  let ?e = "pte_of (ram s) root a" and ?f = "frame s root a"
  have a: "a < MAXVA" "page_aligned a" "user_pte ?e" "\<not> bit ?e 9" "pt_wf s root ys"
    "page_ok s ?f" "?f \<notin> set ys" "?f \<notin> pt_pages (ram s) root"
    using Cons.prems by (auto simp: unmaps_def)
  obtain t where t: "tbl (ram s) root (idx 0 a) = Some t" "walk root a False s = Ok (t + 8 * PX 0 a, s)"
    "t + 8 * PX 0 a \<noteq> 0" "ld64 (ram s) (t + 8 * PX 0 a) = ?e"
    using unmaps_walk [OF Cons.prems] by blast
  obtain s1 where s1: "kfree ?f s = Ok s1" "cleared root {} s s1 (?f # ys)" "tbl (ram s1) root (idx 0 a) = Some t"
    using free_frame [OF a(5-8)] t(1) path_idx by metis
  define s2 where "s2 = Vm.set_pte (t + 8 * PX 0 a) 0 s1"
  have c2: "cleared root {a} s s2 (?f # ys)"
    using cleared_trans [OF s1(2) clear_entry [OF _ a(1,2) s1(3), of "?f # ys"]] s1(2) by (simp add: cleared_def s2_def)
  define s3 where "s3 = (if p_pid (myproc s2) > 2 then upd_proc (cur s2) (forget_va a) s2 else s2)"
  have "ram s3 = ram s2" "freelist s3 = freelist s2" "kend s3 = kend s2" by (simp_all add: s3_def upd_proc_def)
  then have c3: "cleared root {a} s s3 (?f # ys)" using c2 pt_wf_cong [of s3 s2] by (simp add: cleared_def)
  have step: "uvmunmap_not_NONE_loop root True (a # as) s = uvmunmap_not_NONE_loop root True as s3"
    using t(2-4) user_pte_flags [of ?e] a(3,4) s1(1) by (simp add: Let_def s2_def s3_def frame_def)
  note next_s = unmaps_next [OF Cons.prems c3]
  obtain s' where s': "uvmunmap_not_NONE_loop root True as s3 = Ok s'"
    "cleared root (set as) s3 s' (rev (map (frame s3 root) as) @ ?f # ys)"
    using Cons.IH [OF next_s(1)] by auto
  have "cleared root (set (a # as)) s s' (rev (map (frame s root) (a # as)) @ ys)"
    using cleared_trans [OF c3 s'(2)] next_s(2) by simp
  then show ?case using s'(1) step by auto
qed

text \<open>The other variant, once the entry of the first page is gone: nothing more is freed.\<close>

lemma NONE_loop:
  assumes "unmaps root as s ys" "\<not> user_pte (pte_of (ram s) root va)" "va < MAXVA" "PGROUNDDOWN va \<notin> set as"
  shows "\<exists>s'. uvmunmap_NONE_loop root va True as s = Ok s' \<and> cleared root (set as) s s' ys"
  using assms
proof (induction as arbitrary: s)
  case Nil
  then show ?case by (simp add: cleared_def unmaps_def)
next
  case (Cons a as)
  let ?e = "pte_of (ram s) root a"
  have a: "a < MAXVA" "page_aligned a" "user_pte ?e" "pt_wf s root ys" using Cons.prems by (auto simp: unmaps_def)
  obtain t where t: "tbl (ram s) root (idx 0 a) = Some t" "walk root a False s = Ok (t + 8 * PX 0 a, s)"
    "t + 8 * PX 0 a \<noteq> 0" "ld64 (ram s) (t + 8 * PX 0 a) = ?e"
    using unmaps_walk [OF Cons.prems(1)] by blast
  define s2 where "s2 = Vm.set_pte (t + 8 * PX 0 a) 0 s"
  have c2: "cleared root {a} s s2 ys" unfolding s2_def by (rule clear_entry [OF a(4,1,2) t(1)])
  have "walkaddr root va s = Ok 0" using walkaddr_eq [OF a(4), of va] Cons.prems(2) by (auto simp: user_pte_def)
  then have step: "uvmunmap_NONE_loop root va True (a # as) s = uvmunmap_NONE_loop root va True as s2"
    using t(2-4) user_pte_flags [of ?e] a(3) by (simp add: Let_def s2_def)
  have "\<not> user_pte (pte_of (ram s2) root va)" using c2 Cons.prems(2-4) by (auto simp: cleared_def)
  then obtain s' where "uvmunmap_NONE_loop root va True as s2 = Ok s'" "cleared root (set as) s2 s' ys"
    using Cons.IH [OF unmaps_next(1) [OF Cons.prems(1) c2]] Cons.prems(3,4) by auto
  then show ?case using cleared_trans [OF c2] step by fastforce
qed

lemma NONE_loop_first:
  assumes u: "unmaps root (a # as) s ys"
  shows "\<exists>s'. uvmunmap_NONE_loop root a True (a # as) s = Ok s' \<and> cleared root (set (a # as)) s s' (frame s root a # ys)"
proof -
  let ?e = "pte_of (ram s) root a" and ?f = "frame s root a"
  have a: "a < MAXVA" "page_aligned a" "user_pte ?e" "pt_wf s root ys"
    "page_ok s ?f" "?f \<notin> set ys" "?f \<notin> pt_pages (ram s) root"
    using u by (auto simp: unmaps_def)
  obtain t where t: "tbl (ram s) root (idx 0 a) = Some t" "walk root a False s = Ok (t + 8 * PX 0 a, s)"
    "t + 8 * PX 0 a \<noteq> 0" "ld64 (ram s) (t + 8 * PX 0 a) = ?e"
    using unmaps_walk [OF u] by blast
  obtain s1 where s1: "kfree ?f s = Ok s1" "cleared root {} s s1 (?f # ys)" "tbl (ram s1) root (idx 0 a) = Some t"
    using free_frame [OF a(4-7)] t(1) path_idx by metis
  define s2 where "s2 = Vm.set_pte (t + 8 * PX 0 a) 0 s1"
  have c2: "cleared root {a} s s2 (?f # ys)"
    using cleared_trans [OF s1(2) clear_entry [OF _ a(1,2) s1(3), of "?f # ys"]] s1(2) by (simp add: cleared_def s2_def)
  have "?f \<noteq> 0" using page_ok_nonzero [of s ?f] a(4,5) by (simp add: pt_wf_def kinv_def)
  moreover have "walkaddr root a s = Ok ?f" using walkaddr_eq [OF a(4), of a] a(1,3) by (simp add: user_pte_def frame_def)
  ultimately have step: "uvmunmap_NONE_loop root a True (a # as) s = uvmunmap_NONE_loop root a True as s2"
    using t(2-4) user_pte_flags [of ?e] a(3) s1(1) by (simp add: Let_def s2_def frame_def)
  have "\<not> user_pte (pte_of (ram s2) root a)" using c2 a(1,2) by (simp add: cleared_def user_pte_def)
  moreover have "PGROUNDDOWN a \<notin> set as" using u a(2) by (simp add: unmaps_def)
  ultimately obtain s' where "uvmunmap_NONE_loop root a True as s2 = Ok s'" "cleared root (set as) s2 s' (?f # ys)"
    using NONE_loop [OF unmaps_next(1) [OF u c2] _ a(1)] by auto
  then show ?thesis using cleared_trans [OF c2] step by fastforce
qed

section \<open>Ranges of pages\<close>

definition pages_from :: "uint64 \<Rightarrow> nat \<Rightarrow> uint64 list" where
  "pages_from va n = map (\<lambda>k. va + word_of_nat k * PGSIZE) [0..<n]"

lemma unat_page:
  assumes "unat va + 4096 * n \<le> unat MAXVA" "k \<le> n"
  shows "unat (va + word_of_nat k * PGSIZE) = unat va + 4096 * k"
proof -
  have "unat va + 4096 * k < 2 ^ 64" using assms by (simp add: MAXVA_def)
  moreover have "unat (va + word_of_nat k * PGSIZE) = (unat va + 4096 * k) mod 2 ^ 64"
    by (simp add: PGSIZE_def unat_word_ariths unat_of_nat mod_simps mult.commute)
  ultimately show ?thesis by simp
qed

lemma page_range_pages:
  assumes "unat va + 4096 * n \<le> unat MAXVA"
  shows "page_range va (va + word_of_nat n * PGSIZE) = pages_from va n"
proof -
  have "unat (va + word_of_nat n * PGSIZE) = unat va + 4096 * n" by (rule unat_page [OF assms order_refl])
  then have "(if va < va + word_of_nat n * PGSIZE then (unat (va + word_of_nat n * PGSIZE) - unat va + 4095) div 4096 else 0) = n"
    by (auto simp: word_less_nat_alt)
  then show ?thesis unfolding page_range_def pages_from_def by (rule arg_cong)
qed

lemma pages_from_ok:
  assumes "page_aligned va" "unat va + 4096 * n \<le> unat MAXVA"
  shows "distinct (pages_from va n)" "\<And>a. a \<in> set (pages_from va n) \<Longrightarrow> a < MAXVA \<and> page_aligned a"
proof -
  note u = unat_page [OF assms(2)]
  show "distinct (pages_from va n)"
    unfolding pages_from_def distinct_map by (auto intro!: inj_onI dest!: arg_cong [of _ _ unat] simp: u)
  fix a assume "a \<in> set (pages_from va n)"
  then obtain k where k: "k < n" "a = va + word_of_nat k * PGSIZE" by (auto simp: pages_from_def)
  then show "a < MAXVA \<and> page_aligned a" using u [of k] assms by (simp add: word_less_nat_alt page_aligned_unat)
qed

lemma uspace_unmaps:
  assumes us: "uspace s root xs" and va: "page_aligned va" "unat va + 4096 * n \<le> unat MAXVA"
    and m: "\<And>a. a \<in> set (pages_from va n) \<Longrightarrow> user_pte (pte_of (ram s) root a) \<and> \<not> bit (pte_of (ram s) root a) 9"
  shows "unmaps root (pages_from va n) s xs"
proof -
  note ok = pages_from_ok [OF va]
  have "inj_on (frame s root) (set (pages_from va n))"
  proof (rule inj_onI)
    fix a b assume ab: "a \<in> set (pages_from va n)" "b \<in> set (pages_from va n)" "frame s root a = frame s root b"
    then have "PGROUNDDOWN a = PGROUNDDOWN b" using us m ok(2) unfolding uspace_def frame_def by metis
    then show "a = b" using ok(2) [OF ab(1)] ok(2) [OF ab(2)] by simp
  qed
  moreover have "frame s root a \<in> user_frames (ram s) root" if "a \<in> set (pages_from va n)" for a
    unfolding frame_def using m [OF that] ok(2) [OF that] by (intro user_framesI) auto
  ultimately show ?thesis using us m ok unfolding unmaps_def uspace_def by (simp add: distinct_map)
qed

text \<open>
  C10. Which frames \<^verbatim>\<open>uvmunmap\<close> gives back. In a well-formed address space, unmapping mapped user pages
  with \<^verbatim>\<open>do_free\<close> clears the entries of exactly these pages and does not panic. With a replacement
  policy the frames of all the pages go onto the free list. In the build without paging
  (\<^verbatim>\<open>NONE\<close>) only the first frame does, because the loop asks for the translation of the first address
  of the range, which is gone after the first round: the other frames are lost.
\<close>

theorem uvmunmap_frees_frames:
  assumes "uspace s root xs" "page_aligned va" "unat va + 4096 * n \<le> unat MAXVA" "0 < n"
    and "\<And>a. a \<in> set (pages_from va n) \<Longrightarrow> user_pte (pte_of (ram s) root a) \<and> \<not> bit (pte_of (ram s) root a) 9"
  shows "\<exists>s'. uvmunmap sel root va (word_of_nat n) True s = Ok s' \<and>
    pt_wf s' root ((if sel = NONE then [frame s root va] else rev (map (frame s root) (pages_from va n))) @ xs) \<and>
    (\<forall>v<MAXVA. pte_of (ram s') root v = (if PGROUNDDOWN v \<in> set (pages_from va n) then 0 else pte_of (ram s) root v))"
proof -
  note u = uspace_unmaps [OF assms(1-3,5)]
  have al: "va mod PGSIZE = 0" using assms(2) by (simp add: page_aligned_def)
  show ?thesis
  proof (cases "sel = NONE")
    case True
    obtain as where as: "pages_from va n = va # as" using assms(4) by (auto simp: pages_from_def upt_conv_Cons)
    from NONE_loop_first [OF u [unfolded as]] obtain s' where
      "uvmunmap_NONE_loop root va True (va # as) s = Ok s'" "cleared root (set (va # as)) s s' (frame s root va # xs)" by blast
    then show ?thesis
      using True al by (simp add: uvmunmap_def uvmunmap_NONE_def page_range_pages [OF assms(3)] as cleared_def)
  next
    case False
    from not_NONE_loop [OF u] show ?thesis
      using False al by (auto simp: uvmunmap_def uvmunmap_not_NONE_def page_range_pages [OF assms(3)] cleared_def)
  qed
qed

section \<open>An example\<close>

text \<open>The example address space with a second user page, at \<^verbatim>\<open>0x1000\<close>.\<close>

definition user_entry :: "addr \<Rightarrow> uint64" where
  "user_entry pa = PA2PTE pa OR (PTE_R OR PTE_W OR PTE_X OR PTE_U OR PTE_V)"

definition two_mapped :: kprocs where
  "two_mapped =
     \<lparr>ram = st64 (ram one_page) (0x80005000 + 8 * PX 0 0x1000) (user_entry 0x80007000), freelist = freelist one_page,
      kend = kend one_page, ketext = ketext one_page, ktrampoline = ktrampoline one_page,
      procs = [], cur = 0, nextpid = 1, initproc = None, kforkret = 0\<rparr>"

lemma user_entry_sel:
  assumes "pa \<in> {0x80006000, 0x80007000}"
  shows "PTE2PA (user_entry pa) = pa" "user_pte (user_entry pa)" "\<not> bit (user_entry pa) 9"
proof -
  let ?p = "PTE_R OR PTE_W OR PTE_X OR PTE_U OR PTE_V"
  have p: "page_aligned pa" "pa < PHYSTOP" "?p < 1024"
    using assms by (auto simp: page_aligned_def PGSIZE_def PHYSTOP_def KERNBASE_def PTE_V_def PTE_R_def PTE_W_def PTE_X_def PTE_U_def)
  show "PTE2PA (user_entry pa) = pa" unfolding user_entry_def by (rule PTE2PA_make(1) [OF p])
  show "user_pte (user_entry pa)" unfolding user_entry_def by (rule one_page_flags(2))
  have "bit (user_entry pa) 9 \<longleftrightarrow> bit (PTE_FLAGS (user_entry pa)) 9" by (simp add: PTE_FLAGS_eq bit_take_bit_iff)
  also have "PTE_FLAGS (user_entry pa) = ?p" unfolding user_entry_def by (rule PTE2PA_make(2) [OF p])
  also have "\<not> bit ?p 9" by (simp add: PTE_V_def PTE_R_def PTE_W_def PTE_X_def PTE_U_def)
  finally show "\<not> bit (user_entry pa) 9" by blast
qed

lemma one_page_child:
  assumes "i < 512"
  shows "child (ram one_page) 0x80003000 i = (if i = 0 then Some 0x80004000 else None)"
    "child (ram one_page) 0x80004000 i = (if i = 0 then Some 0x80005000 else None)"
  using assms one_page_entry [of "0x80003000" i] one_page_entry [of "0x80004000" i]
  by (auto simp: child_def one_page_PTE2PA) (simp_all add: PTE_V_def)

lemma one_page_pt:
  "pt_pages (ram one_page) 0x80003000 = {0x80003000, 0x80004000, 0x80005000}"
  "pte_of (ram one_page) 0x80003000 v = (if PX 2 v = 0 \<and> PX 1 v = 0 \<and> PX 0 v = 0 then user_entry 0x80006000 else 0)"
proof -
  have ok: "page_ok one_page t" "t \<notin> set [0x80001000, 0x80002000 :: addr]"
    if "t \<in> {0x80003000, 0x80004000, 0x80005000}" for t
    using that by (auto simp: page_ok_def one_page_def two_pages_def page_aligned_def PGSIZE_def PHYSTOP_def KERNBASE_def)
  note pt = pt_single [OF one_page_kinv, of "0x80003000" "0x80004000" "0x80005000"]
  show "pt_pages (ram one_page) 0x80003000 = {0x80003000, 0x80004000, 0x80005000}"
    by (rule pt; use ok one_page_child in auto)
  show "pte_of (ram one_page) 0x80003000 v = (if PX 2 v = 0 \<and> PX 1 v = 0 \<and> PX 0 v = 0 then user_entry 0x80006000 else 0)"
    using pt(3) [of v] ok one_page_child one_page_entry [of "0x80005000" "PX 0 v"] PX_less by (auto simp: user_entry_def)
qed

lemma PX_0x1000: "PX 2 0x1000 = 0" "PX (Suc 0) 0x1000 = 0" "PX 0 0x1000 = 1"
  by (simp_all add: PX_def PXSHIFT_def)

lemma two_mapped_pt:
  "pt_wf two_mapped 0x80003000 [0x80001000, 0x80002000]"
  "pt_pages (ram two_mapped) 0x80003000 = {0x80003000, 0x80004000, 0x80005000}"
  "pte_of (ram two_mapped) 0x80003000 v =
     (if PX 2 v = 0 \<and> PX 1 v = 0 \<and> PX 0 v = 1 then user_entry 0x80007000
      else if PX 2 v = 0 \<and> PX 1 v = 0 \<and> PX 0 v = 0 then user_entry 0x80006000 else 0)"
proof -
  let ?k = "one_page\<lparr>ram := st64 (ram one_page) (0x80005000 + 8 * PX 0 0x1000) (user_entry 0x80007000)\<rparr>"
  have wf: "pt_wf one_page 0x80003000 [0x80001000, 0x80002000]" using one_page_space(1) by (simp add: uspace_def)
  have t: "tbl (ram one_page) 0x80003000 (idx 0 0x1000) = Some 0x80005000"
    by (simp add: idx_0 PX_0x1000 one_page_child)
  note g = PageTable.set_pte [OF wf t refl, of "user_entry 0x80007000"]
  have same: "ram two_mapped = ram ?k" "freelist two_mapped = freelist ?k" "kend two_mapped = kend ?k"
    by (simp_all add: two_mapped_def)
  show "pt_wf two_mapped 0x80003000 [0x80001000, 0x80002000]"
    using pt_growD [OF g(1)] pt_wf_cong [OF same] by blast
  show "pt_pages (ram two_mapped) 0x80003000 = {0x80003000, 0x80004000, 0x80005000}"
    unfolding same using g(1) one_page_pt(1) by (auto simp: pt_grow_def)
  show "pte_of (ram two_mapped) 0x80003000 v =
     (if PX 2 v = 0 \<and> PX 1 v = 0 \<and> PX 0 v = 1 then user_entry 0x80007000
      else if PX 2 v = 0 \<and> PX 1 v = 0 \<and> PX 0 v = 0 then user_entry 0x80006000 else 0)"
    unfolding same g(2) [of v] one_page_pt(2) by (auto simp: idx_0 PX_0x1000)
qed

lemma two_mapped_space: "uspace two_mapped 0x80003000 [0x80001000, 0x80002000]"
proof -
  let ?pte = "pte_of (ram two_mapped) 0x80003000"
  have nz: "\<not> user_pte 0" by (simp add: user_pte_def)
  have ok: "page_ok two_mapped f" if "f \<in> {0x80006000, 0x80007000}" for f
    using that by (auto simp: page_ok_def two_mapped_def one_page_def two_pages_def page_aligned_def PGSIZE_def PHYSTOP_def KERNBASE_def)
  have "user_frames (ram two_mapped) 0x80003000 \<subseteq> {0x80006000, 0x80007000}"
    using nz user_entry_sel(1) by (auto simp: user_frames_def two_mapped_pt(3) split: if_splits)
  then have "\<forall>f \<in> user_frames (ram two_mapped) 0x80003000. page_ok two_mapped f \<and> f \<notin> set [0x80001000, 0x80002000] \<and>
      f \<notin> pt_pages (ram two_mapped) 0x80003000"
    using ok unfolding two_mapped_pt(2) by fastforce
  moreover have "PGROUNDDOWN v = PGROUNDDOWN w" if "v < MAXVA" "w < MAXVA" "user_pte (?pte v)" "user_pte (?pte w)"
    "PTE2PA (?pte v) = PTE2PA (?pte w)" for v w
    using that nz same_leaf_iff [of v w] user_entry_sel(1) by (auto simp: two_mapped_pt(3) idx_0 split: if_splits)
  ultimately show ?thesis unfolding uspace_def using two_mapped_pt(1) by blast
qed

text \<open>Two pages unmapped in the build without paging: one frame is freed, the other one is lost.\<close>

theorem uvmunmap_frees_frames_witness:
  "\<exists>s'. uvmunmap NONE 0x80003000 0 (word_of_nat 2) True two_mapped = Ok s' \<and>
     pt_wf s' 0x80003000 [0x80006000, 0x80001000, 0x80002000] \<and> pte_of (ram s') 0x80003000 0x1000 = 0"
proof -
  have p: "pages_from 0 2 = [0, 0x1000]" by (simp add: pages_from_def PGSIZE_def upt_rec)
  have z: "PX l 0 = 0" for l by (simp add: PX_def)
  have e: "pte_of (ram two_mapped) 0x80003000 0 = user_entry 0x80006000" "pte_of (ram two_mapped) 0x80003000 0x1000 = user_entry 0x80007000"
    by (simp_all add: two_mapped_pt(3) PX_0x1000 z)
  have al: "PGROUNDDOWN 0x1000 = 0x1000" by (simp add: page_aligned_def PGSIZE_def)
  have "\<exists>s'. uvmunmap NONE 0x80003000 0 (word_of_nat 2) True two_mapped = Ok s' \<and>
    pt_wf s' 0x80003000 ((if NONE = NONE then [frame two_mapped 0x80003000 0] else rev (map (frame two_mapped 0x80003000) (pages_from 0 2))) @
      [0x80001000, 0x80002000]) \<and>
    (\<forall>v<MAXVA. pte_of (ram s') 0x80003000 v = (if PGROUNDDOWN v \<in> set (pages_from 0 2) then 0 else pte_of (ram two_mapped) 0x80003000 v))"
    by (rule uvmunmap_frees_frames [OF two_mapped_space])
      (auto simp: p e user_entry_sel page_aligned_def MAXVA_def)
  then show ?thesis by (auto simp: frame_def e user_entry_sel p MAXVA_def al)
qed

end
