(* ===== verification/ReplaceThms.thy ===== *)
theory ReplaceThms
  imports Vm
begin

text \<open>
  The page replacement policies of \<^verbatim>\<open>kernel/vm.c\<close>. The searches of \<^verbatim>\<open>get_NFUA_index\<close> and
  \<^verbatim>\<open>get_LAPA_index\<close> are shown to return the first page with the least key, and the second-chance
  scan of \<^verbatim>\<open>get_SCFIFO_index\<close> to end: a round that passes a page over clears an accessed bit, and
  clearing accessed bits changes no translation, however the page table looks.
\<close>

section \<open>Clearing accessed bits\<close>

text \<open>\<open>m'\<close> is \<open>m\<close> with some accessed bits of table entries cleared.\<close>

definition clears_A :: "ram \<Rightarrow> ram \<Rightarrow> bool" where
  "clears_A m m' \<longleftrightarrow> (\<forall>t i. page_aligned t \<longrightarrow> i < 512 \<longrightarrow>
     ld64 m' (t + 8 * i) = ld64 m (t + 8 * i) \<or> ld64 m' (t + 8 * i) = ld64 m (t + 8 * i) AND NOT PTE_A)"

lemma clears_A_refl: "clears_A m m"
  by (simp add: clears_A_def)

lemma clears_A_trans: "clears_A m m' \<Longrightarrow> clears_A m' m'' \<Longrightarrow> clears_A m m''"
  by (fastforce simp: clears_A_def and.assoc dest: spec)

lemma clears_A_st64:
  assumes "page_aligned t" "i < 512"
  shows "clears_A m (st64 m (t + 8 * i) (ld64 m (t + 8 * i) AND NOT PTE_A))"
  unfolding clears_A_def
proof (intro allI impI)
  fix t' i' assume "page_aligned t'" "(i' :: 64 word) < 512"
  then show "ld64 (st64 m (t + 8 * i) (ld64 m (t + 8 * i) AND NOT PTE_A)) (t' + 8 * i') = ld64 m (t' + 8 * i') \<or>
     ld64 (st64 m (t + 8 * i) (ld64 m (t + 8 * i) AND NOT PTE_A)) (t' + 8 * i') = ld64 m (t' + 8 * i') AND NOT PTE_A"
    using assms ld64_st64_slot [of t t' i i' m] by (cases "t = t' \<and> i = i'") auto
qed

lemma bit_PTE: "bit PTE_A n \<longleftrightarrow> n = 6" "bit PTE_V n \<longleftrightarrow> n = 0" "bit PTE_U n \<longleftrightarrow> n = 4"
  unfolding PTE_A_def PTE_V_def PTE_U_def bit_push_bit_iff bit_1_iff by auto

lemma and_not_A:
  "(e AND NOT PTE_A) AND PTE_V = e AND PTE_V" "(e AND NOT PTE_A) AND PTE_U = e AND PTE_U" "PTE2PA (e AND NOT PTE_A) = PTE2PA e"
  "(e AND NOT PTE_A) AND PTE_A = 0"
  by (auto intro!: bit_word_eqI simp: bit_PTE PTE2PA_def bit_simps)

lemma clears_A_ld64:
  assumes "clears_A m m'" "page_aligned t" "i < 512"
  shows "ld64 m' (t + 8 * i) AND PTE_V = ld64 m (t + 8 * i) AND PTE_V"
    and "ld64 m' (t + 8 * i) AND PTE_U = ld64 m (t + 8 * i) AND PTE_U"
    and "PTE2PA (ld64 m' (t + 8 * i)) = PTE2PA (ld64 m (t + 8 * i))"
    and "ld64 m' (t + 8 * i) AND PTE_A \<noteq> 0 \<Longrightarrow> ld64 m (t + 8 * i) AND PTE_A \<noteq> 0"
proof -
  have "ld64 m' (t + 8 * i) = ld64 m (t + 8 * i) \<or> ld64 m' (t + 8 * i) = ld64 m (t + 8 * i) AND NOT PTE_A"
    using assms unfolding clears_A_def by blast
  then show "ld64 m' (t + 8 * i) AND PTE_V = ld64 m (t + 8 * i) AND PTE_V"
    and "ld64 m' (t + 8 * i) AND PTE_U = ld64 m (t + 8 * i) AND PTE_U"
    and "PTE2PA (ld64 m' (t + 8 * i)) = PTE2PA (ld64 m (t + 8 * i))"
    and "ld64 m' (t + 8 * i) AND PTE_A \<noteq> 0 \<Longrightarrow> ld64 m (t + 8 * i) AND PTE_A \<noteq> 0"
    by (auto simp: and_not_A)
qed

lemma page_aligned_PTE2PA: "page_aligned (PTE2PA e)"
  by (auto simp: page_aligned_bit PTE2PA_def bit_simps)

section \<open>Walks without allocation\<close>

lemma walk_loop_same: "snd (walk_loop l t va False s) = s"
  by (induction l arbitrary: t) (auto simp: Let_def)

lemma walk_loop_clears_A:
  "clears_A (ram s) (ram s') \<Longrightarrow> page_aligned t \<Longrightarrow> fst (walk_loop l t va False s') = fst (walk_loop l t va False s)"
  by (induction l arbitrary: t) (simp_all add: Let_def clears_A_ld64 PX_less page_aligned_PTE2PA)

lemma walk_loop_slot:
  "page_aligned t \<Longrightarrow> fst (walk_loop l t va False s) = 0 \<or>
     (\<exists>t' i. page_aligned t' \<and> i < 512 \<and> fst (walk_loop l t va False s) = t' + 8 * i)"
proof (induction l arbitrary: t)
  case 0
  then show ?case using PX_less by auto
next
  case (Suc l)
  then show ?case by (simp add: Let_def page_aligned_PTE2PA)
qed

lemma walk_pte_loop:
  "walk_pte t va s =
     (if va \<ge> MAXVA then Panic ''walk''
      else if fst (walk_loop 2 t va False s) = 0 then Panic ''kerneltrap'' else Ok (fst (walk_loop 2 t va False s)))"
  by (simp add: walk_pte_def walk_def split: prod.splits)

lemma walk_pte_clears_A:
  "clears_A (ram s) (ram s') \<Longrightarrow> page_aligned t \<Longrightarrow> walk_pte t va s' = walk_pte t va s"
  by (simp add: walk_pte_loop walk_loop_clears_A)

lemma walk_pte_slot:
  assumes "page_aligned t" "walk_pte t va s = Ok pte"
  obtains t' i where "page_aligned t'" "i < 512" "pte = t' + 8 * i"
  using assms walk_loop_slot [of t 2 va s] by (auto simp: walk_pte_loop split: if_splits)

section \<open>The search for the best page\<close>

text \<open>The resident pages among \<open>is\<close> that are mapped for the user: the candidates of a search.\<close>

definition candidates :: "nat list \<Rightarrow> 'z kprocs_scheme \<Rightarrow> nat set" where
  "candidates is s = {i \<in> set is. ram_user i s = Ok True}"

lemma candidates_Cons: "candidates (i # is) s = (if ram_user i s = Ok True then insert i (candidates is s) else candidates is s)"
  by (auto simp: candidates_def)

text \<open>What the comparison of keys has to satisfy for the search to find a least key.\<close>

locale ranking =
  fixes better :: "'k \<Rightarrow> 'k \<Rightarrow> bool"
  assumes better_irrefl: "\<not> better a a"
    and better_trans: "better a b \<Longrightarrow> better b c \<Longrightarrow> better a c"
    and better_cotrans: "better a c \<Longrightarrow> better a b \<or> better b c"
begin

lemma best_page_from:
  fixes key :: "page_data \<Rightarrow> 'k" and s :: "'z kprocs_scheme"
  defines "K \<equiv> \<lambda>i. key (p_ram (myproc s) ! i)"
  assumes "\<forall>i\<in>set is. \<exists>u. ram_user i s = Ok u" "sorted_wrt (<) is"
  shows "\<exists>n. best_page better key is (Some b) num s = Ok n \<and>
    (n = num \<and> (\<forall>j\<in>candidates is s. \<not> better (K j) b) \<or>
     n \<in> candidates is s \<and> better (K n) b \<and>
     (\<forall>j\<in>candidates is s. \<not> better (K j) (K n) \<and> (j < n \<longrightarrow> better (K n) (K j))))"
  using assms(2,3)
proof (induction "is" arbitrary: b num)
  case Nil
  then show ?case by (simp add: candidates_def)
next
  case (Cons i "is")
  from Cons.prems obtain u where u: "ram_user i s = Ok u" by auto
  have later: "i < j" if "j \<in> candidates is s" for j using that Cons.prems by (auto simp: candidates_def)
  note IH = Cons.IH [OF _ _, of "K i" i] Cons.IH [OF _ _, of b num]
  show ?case
  proof (cases "u \<and> better (K i) b")
    case True
    then have c: "candidates (i # is) s = insert i (candidates is s)" using u by (simp add: candidates_Cons)
    from IH(1) Cons.prems obtain n where n: "best_page better key is (Some (K i)) i s = Ok n"
      "n = i \<and> (\<forall>j\<in>candidates is s. \<not> better (K j) (K i)) \<or>
       n \<in> candidates is s \<and> better (K n) (K i) \<and> (\<forall>j\<in>candidates is s. \<not> better (K j) (K n) \<and> (j < n \<longrightarrow> better (K n) (K j)))"
      by auto
    have "best_page better key (i # is) (Some b) num s = Ok n" using u True n(1) by (simp add: K_def)
    moreover have "n \<in> candidates (i # is) s \<and> better (K n) b \<and>
        (\<forall>j\<in>candidates (i # is) s. \<not> better (K j) (K n) \<and> (j < n \<longrightarrow> better (K n) (K j)))"
      using n(2) True later better_irrefl unfolding c by (auto dest: less_asym better_trans)
    ultimately show ?thesis by blast
  next
    case False
    from IH(2) Cons.prems obtain n where n: "best_page better key is (Some b) num s = Ok n"
      "n = num \<and> (\<forall>j\<in>candidates is s. \<not> better (K j) b) \<or>
       n \<in> candidates is s \<and> better (K n) b \<and> (\<forall>j\<in>candidates is s. \<not> better (K j) (K n) \<and> (j < n \<longrightarrow> better (K n) (K j)))"
      by auto
    have "best_page better key (i # is) (Some b) num s = Ok n" using u False n(1) by (auto simp: K_def Let_def)
    moreover have "n = num \<and> (\<forall>j\<in>candidates (i # is) s. \<not> better (K j) b) \<or>
       n \<in> candidates (i # is) s \<and> better (K n) b \<and>
       (\<forall>j\<in>candidates (i # is) s. \<not> better (K j) (K n) \<and> (j < n \<longrightarrow> better (K n) (K j)))"
      using n(2) False u better_cotrans [of "K n" b "K i"] better_trans [of "K i" "K n" b] by (auto simp: candidates_Cons)
    ultimately show ?thesis by blast
  qed
qed

text \<open>The search returns the first candidate with a least key, and \<open>num\<close> when there is none.\<close>

lemma best_page_least:
  fixes key :: "page_data \<Rightarrow> 'k" and s :: "'z kprocs_scheme"
  defines "K \<equiv> \<lambda>i. key (p_ram (myproc s) ! i)"
  assumes "\<forall>i\<in>set is. \<exists>u. ram_user i s = Ok u" "sorted_wrt (<) is"
  shows "\<exists>n. best_page better key is None num s = Ok n \<and>
    (if candidates is s = {} then n = num
     else n \<in> candidates is s \<and> (\<forall>j\<in>candidates is s. \<not> better (K j) (K n) \<and> (j < n \<longrightarrow> better (K n) (K j))))"
  using assms(2,3)
proof (induction "is")
  case Nil
  then show ?case by (simp add: candidates_def)
next
  case (Cons i "is")
  from Cons.prems obtain u where u: "ram_user i s = Ok u" by auto
  have later: "i < j" if "j \<in> candidates is s" for j using that Cons.prems by (auto simp: candidates_def)
  show ?case
  proof (cases u)
    case True
    then have c: "candidates (i # is) s = insert i (candidates is s)" using u by (simp add: candidates_Cons)
    from best_page_from [of "is" s key "K i" i] Cons.prems obtain n where n: "best_page better key is (Some (K i)) i s = Ok n"
      "n = i \<and> (\<forall>j\<in>candidates is s. \<not> better (K j) (K i)) \<or>
       n \<in> candidates is s \<and> better (K n) (K i) \<and> (\<forall>j\<in>candidates is s. \<not> better (K j) (K n) \<and> (j < n \<longrightarrow> better (K n) (K j)))"
      unfolding K_def by auto
    have "best_page better key (i # is) None num s = Ok n" using u True n(1) by (simp add: K_def)
    moreover have "n \<in> candidates (i # is) s \<and>
        (\<forall>j\<in>candidates (i # is) s. \<not> better (K j) (K n) \<and> (j < n \<longrightarrow> better (K n) (K j)))"
      using n(2) later better_irrefl better_trans [of "K i" "K n" "K i"] unfolding c by (auto dest: less_asym)
    ultimately show ?thesis unfolding c by auto
  next
    case False
    then have e: "best_page better key (i # is) None num s = best_page better key is None num s" "candidates (i # is) s = candidates is s"
      using u by (simp_all add: candidates_Cons)
    show ?thesis unfolding e by (rule Cons.IH) (use Cons.prems in auto)
  qed
qed

end

interpretation least: ranking "(<) :: 'k :: linorder \<Rightarrow> 'k \<Rightarrow> bool"
  by unfold_locales (auto intro: less_trans)

interpretation fewest_ones: ranking "\<lambda>(c :: nat, a :: uint32) (c', a'). c < c' \<or> c' = c \<and> a < a'"
  by unfold_locales auto

section \<open>Ages\<close>

text \<open>
  C22. Not-frequently-used and least-accessed page replacement choose the right victim. When the
  address of every resident page has a table entry and some page is mapped for the user,
  \<^verbatim>\<open>get_NFUA_index\<close> returns the first user page with the least age, and \<^verbatim>\<open>get_LAPA_index\<close> the first user
  page whose age has the fewest ones, the smaller age deciding among equals.
\<close>

theorem aging_policies_choose_least:
  fixes s :: "'z kprocs_scheme"
  assumes "\<And>i. i < MAX_PSYC_PAGES \<Longrightarrow> \<exists>u. ram_user i s = Ok u"
    and "v < MAX_PSYC_PAGES" "ram_user v s = Ok True"
  defines "age \<equiv> \<lambda>i. pg_age (p_ram (myproc s) ! i)"
  shows "(\<exists>n<MAX_PSYC_PAGES. get_NFUA_index s = Ok n \<and> ram_user n s = Ok True \<and>
      (\<forall>j<MAX_PSYC_PAGES. ram_user j s = Ok True \<longrightarrow> age n \<le> age j \<and> (j < n \<longrightarrow> age n < age j))) \<and>
    (\<exists>n<MAX_PSYC_PAGES. get_LAPA_index s = Ok n \<and> ram_user n s = Ok True \<and>
      (\<forall>j<MAX_PSYC_PAGES. ram_user j s = Ok True \<longrightarrow>
         ones (age n) < ones (age j) \<or> ones (age n) = ones (age j) \<and> age n \<le> age j \<and> (j < n \<longrightarrow> age n < age j)))"
proof (rule conjI)
  have ok: "\<forall>i\<in>set [0..<MAX_PSYC_PAGES]. \<exists>u. ram_user i s = Ok u" using assms(1) by simp
  have up: "sorted_wrt (<) [0..<MAX_PSYC_PAGES]" by (rule sorted_wrt_upt)
  have C: "j \<in> candidates [0..<MAX_PSYC_PAGES] s \<longleftrightarrow> j < MAX_PSYC_PAGES \<and> ram_user j s = Ok True" for j
    by (simp add: candidates_def)
  have ne: "candidates [0..<MAX_PSYC_PAGES] s \<noteq> {}" using assms(2,3) C by blast
  show "\<exists>n<MAX_PSYC_PAGES. get_NFUA_index s = Ok n \<and> ram_user n s = Ok True \<and>
      (\<forall>j<MAX_PSYC_PAGES. ram_user j s = Ok True \<longrightarrow> age n \<le> age j \<and> (j < n \<longrightarrow> age n < age j))"
    using least.best_page_least [OF ok up, of pg_age 0] ne unfolding get_NFUA_index_def age_def
    by (auto simp: Ball_def C not_less)
  show "\<exists>n<MAX_PSYC_PAGES. get_LAPA_index s = Ok n \<and> ram_user n s = Ok True \<and>
      (\<forall>j<MAX_PSYC_PAGES. ram_user j s = Ok True \<longrightarrow>
         ones (age n) < ones (age j) \<or> ones (age n) = ones (age j) \<and> age n \<le> age j \<and> (j < n \<longrightarrow> age n < age j))"
  proof -
    obtain n where n: "get_LAPA_index s = Ok n" "n < MAX_PSYC_PAGES" "ram_user n s = Ok True"
      and le: "\<And>j. j < MAX_PSYC_PAGES \<Longrightarrow> ram_user j s = Ok True \<Longrightarrow>
        \<not> (ones (age j) < ones (age n) \<or> ones (age n) = ones (age j) \<and> age j < age n) \<and>
        (j < n \<longrightarrow> ones (age n) < ones (age j) \<or> ones (age j) = ones (age n) \<and> age n < age j)"
      using fewest_ones.best_page_least [OF ok up, of "\<lambda>pd. (ones (pg_age pd), pg_age pd)" 0] ne
      unfolding get_LAPA_index_def age_def by (auto simp: Ball_def C)
    then show ?thesis by (intro exI [of _ n]) (use le in \<open>force simp: not_less\<close>)
  qed
qed

text \<open>A process whose sixteen resident pages are all mapped, in a memory full of one valid entry.\<close>

definition resident :: "page_data list \<Rightarrow> kprocs" where
  "resident pages =
     \<lparr>ram = \<lambda>_. 0x51, freelist = 0, kend = 0, ketext = 0, ktrampoline = 0,
      procs = [\<lparr>p_state = RUNNING, p_chan = None, p_killed = False, p_xstate = 0, p_pid = 3, p_parent = None, p_kstack = 0,
        p_sz = 0x10000, p_pagetable = 0x80001000, p_trapframe = 0, p_context = \<lparr>ctx_ra = 0, ctx_sp = 0, ctx_s = []\<rparr>,
        p_ofile = [], p_cwd = None, p_name = [], p_swapFile = None, p_ram = pages, p_swap = [], p_fifo_counter = 16\<rparr>],
      cur = 0, nextpid = 4, initproc = None, kforkret = 0\<rparr>"

definition sixteen_pages :: "page_data list" where
  "sixteen_pages = map (\<lambda>i. \<lparr>pg_offset = -1, pg_used = True, pg_va = word_of_nat (i * 4096),
     pg_age = (if i = 5 then 0x80000000 else if i = 7 then 3 else 0xFF), pg_fifo_time = word_of_nat i\<rparr>) [0..<16]"

lemma resident_sel:
  "p_pagetable (myproc (resident pages)) = 0x80001000" "p_ram (myproc (resident pages)) = pages"
  "ram (resident pages) = (\<lambda>_. 0x51)" "cur (resident pages) = 0" "length (procs (resident pages)) = 1"
  by (simp_all add: resident_def myproc_def)

lemma ld64_const: "ld64 (\<lambda>_. 0x51) a = 0x5151515151515151"
proof -
  have "(8 :: nat) = Suc (Suc (Suc (Suc (Suc (Suc (Suc (Suc 0)))))))" by simp
  then show ?thesis unfolding ld64_def by (simp only: ld.simps) simp
qed

lemma slot_nonzero: "page_aligned t \<Longrightarrow> t \<noteq> 0 \<Longrightarrow> i < 512 \<Longrightarrow> t + 8 * i \<noteq> 0"
  using slot_in_page [of t i 0] by (auto simp: PGROUNDDOWN_def)

lemma resident_walk:
  assumes "va < MAXVA"
  shows "walk_pte 0x80001000 va (resident pages) = Ok (PTE2PA 0x5151515151515151 + 8 * PX 0 va)"
proof -
  have "PTE2PA 0x5151515151515151 + 8 * PX 0 va \<noteq> 0"
    by (rule slot_nonzero [OF page_aligned_PTE2PA _ PX_less]) (simp add: PTE2PA_def)
  moreover have "(0x5151515151515151 :: uint64) AND PTE_V \<noteq> 0" by (simp add: PTE_V_def)
  ultimately show ?thesis
    using assms by (simp add: walk_pte_loop resident_sel numeral_2_eq_2 Let_def ld64_const)
qed

lemma resident_user: "i < 16 \<Longrightarrow> ram_user i (resident sixteen_pages) = Ok True"
proof -
  assume i: "i < 16"
  then have "i \<in> {0, 1, 2, 3, 4, 5, 6, 7, 8, 9, 10, 11, 12, 13, 14, 15}" unfolding insert_iff empty_iff by presburger
  then have "(scast (word_of_nat (i * 4096) :: uint32) :: uint64) < MAXVA"
    by (elim insertE emptyE) (simp_all add: MAXVA_def)
  with i have va: "(scast (pg_va (sixteen_pages ! i)) :: uint64) < MAXVA" by (simp add: sixteen_pages_def)
  have "(0x5151515151515151 :: uint64) AND PTE_U \<noteq> 0" by (simp add: PTE_U_def)
  then show ?thesis by (simp add: ram_user_def resident_sel resident_walk [OF va] ld64_const)
qed

lemma sixteen_age: "i < 16 \<Longrightarrow> pg_age (sixteen_pages ! i) = (if i = 5 then 0x80000000 else if i = 7 then 3 else 0xFF)"
  by (simp add: sixteen_pages_def)

lemma ones_ages: "ones 0x80000000 = 1" "ones 3 = 2" "ones 0xFF = 8"
  unfolding ones_def by code_simp+

theorem aging_policies_choose_least_witness:
  "get_NFUA_index (resident sixteen_pages) = Ok 7 \<and> get_LAPA_index (resident sixteen_pages) = Ok 5"
proof -
  have u: "\<And>i. i < MAX_PSYC_PAGES \<Longrightarrow> \<exists>u. ram_user i (resident sixteen_pages) = Ok u"
    and v: "7 < MAX_PSYC_PAGES" "5 < MAX_PSYC_PAGES" "ram_user 7 (resident sixteen_pages) = Ok True" "ram_user 5 (resident sixteen_pages) = Ok True"
    using resident_user by (auto simp: MAX_PSYC_PAGES_def)
  note least = aging_policies_choose_least [OF u v(1,3), unfolded resident_sel]
  from conjunct1 [OF least] v obtain n where
    n: "n < 16" "get_NFUA_index (resident sixteen_pages) = Ok n" "pg_age (sixteen_pages ! n) \<le> pg_age (sixteen_pages ! 7)"
    unfolding MAX_PSYC_PAGES_def by blast
  from conjunct2 [OF least] v obtain k where
    k: "k < 16" "get_LAPA_index (resident sixteen_pages) = Ok k" "ones (pg_age (sixteen_pages ! k)) \<le> ones (pg_age (sixteen_pages ! 5))"
    unfolding MAX_PSYC_PAGES_def by (metis less_or_eq_imp_le)
  from n k show ?thesis by (auto simp: sixteen_age ones_ages split: if_splits)
qed

section \<open>The second-chance scan\<close>

text \<open>Whether the accessed bit of resident page \<open>i\<close> is set.\<close>

definition accessed :: "nat \<Rightarrow> 'z kprocs_scheme \<Rightarrow> bool res" where
  "accessed i s =
     and_then (walk_pte (p_pagetable (myproc s)) (scast (pg_va (p_ram (myproc s) ! i))) s) (\<lambda>pte.
     Ok (ld64 (ram s) pte AND PTE_A \<noteq> 0))"

text \<open>The current process is in the table, has all its page records and an aligned page table.\<close>

definition proc_ok :: "'z kprocs_scheme \<Rightarrow> bool" where
  "proc_ok s \<longleftrightarrow> cur s < length (procs s) \<and> length (p_ram (myproc s)) = MAX_PSYC_PAGES \<and> page_aligned (p_pagetable (myproc s))"

text \<open>What the scan may change: accessed bits, loading times and the counter they are taken from.\<close>

definition rescheduled :: "'z kprocs_scheme \<Rightarrow> 'z kprocs_scheme \<Rightarrow> bool" where
  "rescheduled s s' \<longleftrightarrow> (\<exists>m r c. s' = upd_proc (cur s) (\<lambda>p. p\<lparr>p_ram := r, p_fifo_counter := c\<rparr>) (s\<lparr>ram := m\<rparr>) \<and>
     clears_A (ram s) m \<and> map (pg_fifo_time_update (\<lambda>_. 0)) r = map (pg_fifo_time_update (\<lambda>_. 0)) (p_ram (myproc s)))"

lemma upd_proc_sel:
  "cur (upd_proc i f s) = cur s" "ram (upd_proc i f s) = ram s" "length (procs (upd_proc i f s)) = length (procs s)"
  "cur s < length (procs s) \<Longrightarrow> myproc (upd_proc (cur s) f s) = f (myproc s)"
  by (simp_all add: upd_proc_def myproc_def)

lemma myproc_ram: "myproc (s\<lparr>ram := m\<rparr>) = myproc s"
  by (simp add: myproc_def)

lemma same_records:
  assumes "map (pg_fifo_time_update (\<lambda>_. 0)) r = map (pg_fifo_time_update (\<lambda>_. 0)) r'"
  shows "length r = length r'" "i < length r' \<Longrightarrow> pg_va (r ! i) = pg_va (r' ! i)"
proof -
  show l: "length r = length r'" using assms by (metis length_map)
  assume "i < length r'"
  then have "pg_fifo_time_update (\<lambda>_. 0) (r ! i) = pg_fifo_time_update (\<lambda>_. 0) (r' ! i)" using assms l by (metis nth_map)
  then show "pg_va (r ! i) = pg_va (r' ! i)" by (metis page_data.select_convs(3) page_data.surjective page_data.update_convs(5))
qed

lemma rescheduledD:
  assumes "rescheduled s s'" "proc_ok s"
  shows "proc_ok s'" "clears_A (ram s) (ram s')" "p_pagetable (myproc s') = p_pagetable (myproc s)"
    "i < MAX_PSYC_PAGES \<Longrightarrow> pg_va (p_ram (myproc s') ! i) = pg_va (p_ram (myproc s) ! i)"
proof -
  from assms(1) obtain m r c where s': "s' = upd_proc (cur s) (\<lambda>p. p\<lparr>p_ram := r, p_fifo_counter := c\<rparr>) (s\<lparr>ram := m\<rparr>)"
    and m: "clears_A (ram s) m" and r: "map (pg_fifo_time_update (\<lambda>_. 0)) r = map (pg_fifo_time_update (\<lambda>_. 0)) (p_ram (myproc s))"
    unfolding rescheduled_def by blast
  have my: "myproc s' = myproc s\<lparr>p_ram := r, p_fifo_counter := c\<rparr>"
    using assms(2) upd_proc_sel(4) [of "s\<lparr>ram := m\<rparr>" "\<lambda>p. p\<lparr>p_ram := r, p_fifo_counter := c\<rparr>"]
    by (simp add: s' proc_ok_def myproc_ram)
  show "proc_ok s'" using assms(2) same_records(1) [OF r] my by (simp add: proc_ok_def s' upd_proc_sel)
  show "clears_A (ram s) (ram s')" using m by (simp add: s' upd_proc_sel)
  show "p_pagetable (myproc s') = p_pagetable (myproc s)" by (simp add: my)
  show "i < MAX_PSYC_PAGES \<Longrightarrow> pg_va (p_ram (myproc s') ! i) = pg_va (p_ram (myproc s) ! i)"
    using same_records(2) [OF r, of i] assms(2) by (simp add: my proc_ok_def)
qed

lemma rescheduled_refl: "rescheduled s s"
proof -
  have "s = upd_proc (cur s) (\<lambda>p. p\<lparr>p_ram := p_ram (myproc s), p_fifo_counter := p_fifo_counter (myproc s)\<rparr>) (s\<lparr>ram := ram s\<rparr>)"
    by (simp add: upd_proc_def myproc_def)
  then show ?thesis unfolding rescheduled_def using clears_A_refl by blast
qed

lemma rescheduled_trans:
  assumes "rescheduled s s'" "rescheduled s' s''" "proc_ok s"
  shows "rescheduled s s''"
proof -
  from assms(1) obtain m r c where s': "s' = upd_proc (cur s) (\<lambda>p. p\<lparr>p_ram := r, p_fifo_counter := c\<rparr>) (s\<lparr>ram := m\<rparr>)"
    and m: "clears_A (ram s) m" and r: "map (pg_fifo_time_update (\<lambda>_. 0)) r = map (pg_fifo_time_update (\<lambda>_. 0)) (p_ram (myproc s))"
    unfolding rescheduled_def by blast
  from assms(2) obtain m' r' c' where s'': "s'' = upd_proc (cur s') (\<lambda>p. p\<lparr>p_ram := r', p_fifo_counter := c'\<rparr>) (s'\<lparr>ram := m'\<rparr>)"
    and m': "clears_A (ram s') m'" and r': "map (pg_fifo_time_update (\<lambda>_. 0)) r' = map (pg_fifo_time_update (\<lambda>_. 0)) (p_ram (myproc s'))"
    unfolding rescheduled_def by blast
  have c: "cur s < length (procs s)" using assms(3) by (simp add: proc_ok_def)
  then have "p_ram (myproc s') = r" using upd_proc_sel(4) [of "s\<lparr>ram := m\<rparr>"] by (simp add: s')
  with r r' have "map (pg_fifo_time_update (\<lambda>_. 0)) r' = map (pg_fifo_time_update (\<lambda>_. 0)) (p_ram (myproc s))" by simp
  moreover have "clears_A (ram s) m'" using clears_A_trans [OF m] m' by (simp add: s' upd_proc_sel)
  moreover have "s'' = upd_proc (cur s) (\<lambda>p. p\<lparr>p_ram := r', p_fifo_counter := c'\<rparr>) (s\<lparr>ram := m'\<rparr>)"
    using c by (simp add: s'' s' upd_proc_def)
  ultimately show ?thesis unfolding rescheduled_def by blast
qed

lemma rescheduled_walk:
  assumes "rescheduled s s'" "proc_ok s" "i < MAX_PSYC_PAGES"
  shows "walk_pte (p_pagetable (myproc s')) (scast (pg_va (p_ram (myproc s') ! i))) s' =
    walk_pte (p_pagetable (myproc s)) (scast (pg_va (p_ram (myproc s) ! i))) s"
  using rescheduledD [OF assms(1,2)] assms by (simp add: walk_pte_clears_A proc_ok_def)

lemma rescheduled_bits:
  assumes "rescheduled s s'" "proc_ok s" "i < MAX_PSYC_PAGES"
  shows "ram_user i s' = ram_user i s" "accessed i s' = Ok True \<Longrightarrow> accessed i s = Ok True"
proof -
  let ?w = "walk_pte (p_pagetable (myproc s)) (scast (pg_va (p_ram (myproc s) ! i))) s"
  have "ram_user i s' = ram_user i s \<and> (accessed i s' = Ok True \<longrightarrow> accessed i s = Ok True)"
  proof (cases ?w)
    case (Ok pte)
    then obtain t j where "page_aligned t" "j < 512" "pte = t + 8 * j"
      using walk_pte_slot assms(2) unfolding proc_ok_def by metis
    then show ?thesis
      using clears_A_ld64(2,4) [OF rescheduledD(2) [OF assms(1,2)]] Ok
      by (simp add: ram_user_def accessed_def rescheduled_walk [OF assms])
  qed (simp_all add: ram_user_def accessed_def rescheduled_walk [OF assms])
  then show "ram_user i s' = ram_user i s" "accessed i s' = Ok True \<Longrightarrow> accessed i s = Ok True" by auto
qed

text \<open>A round that passes page \<open>n\<close> over.\<close>

definition second_chance :: "nat \<Rightarrow> addr \<Rightarrow> 'z kprocs_scheme \<Rightarrow> 'z kprocs_scheme" where
  "second_chance n pte s =
     upd_proc (cur s) (\<lambda>p. p\<lparr>p_ram := (p_ram p)[n := (p_ram p ! n)\<lparr>pg_fifo_time := p_fifo_counter p\<rparr>],
                            p_fifo_counter := p_fifo_counter p + 1\<rparr>)
       (set_pte pte (ld64 (ram s) pte AND NOT PTE_A) s)"

lemma second_chance_clears:
  assumes ok: "proc_ok s" "n < MAX_PSYC_PAGES"
    and w: "walk_pte (p_pagetable (myproc s)) (scast (pg_va (p_ram (myproc s) ! n))) s = Ok pte"
  shows "rescheduled s (second_chance n pte s)" "accessed n (second_chance n pte s) = Ok False"
proof -
  obtain t j where slot: "page_aligned t" "j < 512" "pte = t + 8 * j"
    using walk_pte_slot [OF _ w] ok unfolding proc_ok_def by blast
  let ?r = "(p_ram (myproc s))[n := (p_ram (myproc s) ! n)\<lparr>pg_fifo_time := p_fifo_counter (myproc s)\<rparr>]"
  have "second_chance n pte s = upd_proc (cur s) (\<lambda>p. p\<lparr>p_ram := ?r, p_fifo_counter := p_fifo_counter (myproc s) + 1\<rparr>)
      (s\<lparr>ram := st64 (ram s) pte (ld64 (ram s) pte AND NOT PTE_A)\<rparr>)"
    by (simp add: second_chance_def set_pte_def upd_proc_def myproc_def)
  moreover have "clears_A (ram s) (st64 (ram s) pte (ld64 (ram s) pte AND NOT PTE_A))"
    unfolding slot(3) by (rule clears_A_st64 [OF slot(1,2)])
  moreover have "map (pg_fifo_time_update (\<lambda>_. 0)) ?r = map (pg_fifo_time_update (\<lambda>_. 0)) (p_ram (myproc s))"
    using ok by (intro nth_equalityI) (auto simp: nth_list_update proc_ok_def)
  ultimately show r: "rescheduled s (second_chance n pte s)" unfolding rescheduled_def by blast
  have "ram (second_chance n pte s) = st64 (ram s) pte (ld64 (ram s) pte AND NOT PTE_A)"
    by (simp add: second_chance_def upd_proc_sel set_pte_def)
  then show "accessed n (second_chance n pte s) = Ok False"
    using w by (simp add: accessed_def rescheduled_walk [OF r ok] and_not_A)
qed

text \<open>The pages that would be passed over.\<close>

definition hot :: "'z kprocs_scheme \<Rightarrow> nat set" where
  "hot s = {i. i < MAX_PSYC_PAGES \<and> accessed i s = Ok True}"

lemma finite_hot: "finite (hot s)"
  by (rule finite_subset [of _ "{..<MAX_PSYC_PAGES}"]) (auto simp: hot_def)

lemma second_chance_hot:
  assumes "proc_ok s" "n \<in> hot s"
    and "walk_pte (p_pagetable (myproc s)) (scast (pg_va (p_ram (myproc s) ! n))) s = Ok pte"
  shows "card (hot (second_chance n pte s)) < card (hot s)"
proof (rule psubset_card_mono [OF finite_hot])
  have n: "n < MAX_PSYC_PAGES" using assms(2) by (simp add: hot_def)
  note sc = second_chance_clears [OF assms(1) n assms(3)]
  have "hot (second_chance n pte s) \<subseteq> hot s"
    using rescheduled_bits(2) [OF sc(1) assms(1)] unfolding hot_def by blast
  moreover have "n \<notin> hot (second_chance n pte s)" using sc(2) by (simp add: hot_def)
  ultimately show "hot (second_chance n pte s) \<subset> hot s" using assms(2) by blast
qed

lemma scfifo_loop_Suc:
  "scfifo_loop (Suc fuel) s =
     and_then (best_page (<) pg_fifo_time [0..<MAX_PSYC_PAGES] None 0 s) (\<lambda>n.
     and_then (walk_pte (p_pagetable (myproc s)) (scast (pg_va (p_ram (myproc s) ! n))) s) (\<lambda>pte.
     if ld64 (ram s) pte AND PTE_A \<noteq> 0 then scfifo_loop fuel (second_chance n pte s) else Ok (n, s)))"
  by (simp only: scfifo_loop.simps second_chance_def)

lemma best_fifo:
  assumes "\<And>i. i < MAX_PSYC_PAGES \<Longrightarrow> \<exists>u. ram_user i s = Ok u"
  obtains n where "best_page (<) pg_fifo_time [0..<MAX_PSYC_PAGES] None 0 s = Ok n" "n < MAX_PSYC_PAGES"
    "\<And>v. v < MAX_PSYC_PAGES \<Longrightarrow> ram_user v s = Ok True \<Longrightarrow>
       ram_user n s = Ok True \<and> pg_fifo_time (p_ram (myproc s) ! n) \<le> pg_fifo_time (p_ram (myproc s) ! v)"
proof -
  let ?is = "[0..<MAX_PSYC_PAGES]"
  have C: "j \<in> candidates ?is s \<longleftrightarrow> j < MAX_PSYC_PAGES \<and> ram_user j s = Ok True" for j by (simp add: candidates_def)
  have "\<forall>i\<in>set ?is. \<exists>u. ram_user i s = Ok u" using assms by simp
  from least.best_page_least [OF this sorted_wrt_upt, of pg_fifo_time 0] obtain n where
    n: "best_page (<) pg_fifo_time ?is None 0 s = Ok n" and
    l: "if candidates ?is s = {} then n = 0 else n \<in> candidates ?is s \<and>
      (\<forall>j\<in>candidates ?is s. \<not> pg_fifo_time (p_ram (myproc s) ! j) < pg_fifo_time (p_ram (myproc s) ! n) \<and>
         (j < n \<longrightarrow> pg_fifo_time (p_ram (myproc s) ! n) < pg_fifo_time (p_ram (myproc s) ! j)))"
    by blast
  from l have "n < MAX_PSYC_PAGES" using C [of n] by (auto simp: MAX_PSYC_PAGES_def split: if_splits)
  moreover have "ram_user n s = Ok True \<and> pg_fifo_time (p_ram (myproc s) ! n) \<le> pg_fifo_time (p_ram (myproc s) ! v)"
    if "v < MAX_PSYC_PAGES" "ram_user v s = Ok True" for v
    using l that C [of v] C [of n] by (auto simp: not_less split: if_splits)
  ultimately show thesis using n that by blast
qed

lemma scfifo_loop_enough:
  assumes "proc_ok s" "\<And>i. i < MAX_PSYC_PAGES \<Longrightarrow> \<exists>u. ram_user i s = Ok u" "card (hot s) < fuel"
  shows "\<exists>n s'. scfifo_loop fuel s = Ok (n, s') \<and> rescheduled s s' \<and> n < MAX_PSYC_PAGES \<and> accessed n s' = Ok False \<and>
    (\<forall>v<MAX_PSYC_PAGES. ram_user v s = Ok True \<longrightarrow>
       ram_user n s = Ok True \<and> pg_fifo_time (p_ram (myproc s') ! n) \<le> pg_fifo_time (p_ram (myproc s') ! v))"
  using assms
proof (induction fuel arbitrary: s)
  case (Suc fuel)
  from best_fifo [OF Suc.prems(2)] obtain n where n: "best_page (<) pg_fifo_time [0..<MAX_PSYC_PAGES] None 0 s = Ok n"
    "n < MAX_PSYC_PAGES" and first: "\<And>v. v < MAX_PSYC_PAGES \<Longrightarrow> ram_user v s = Ok True \<Longrightarrow>
       ram_user n s = Ok True \<and> pg_fifo_time (p_ram (myproc s) ! n) \<le> pg_fifo_time (p_ram (myproc s) ! v)" by blast
  from Suc.prems(2) [OF n(2)] obtain pte where
    w: "walk_pte (p_pagetable (myproc s)) (scast (pg_va (p_ram (myproc s) ! n))) s = Ok pte"
    by (auto simp: ram_user_def and_then_eq_Ok)
  show ?case
  proof (cases "ld64 (ram s) pte AND PTE_A = 0")
    case True
    then have "scfifo_loop (Suc fuel) s = Ok (n, s)" "accessed n s = Ok False"
      using n(1) w unfolding scfifo_loop_Suc by (simp_all add: accessed_def)
    then show ?thesis using n(2) first rescheduled_refl by blast
  next
    case False
    let ?s1 = "second_chance n pte s"
    have step: "scfifo_loop (Suc fuel) s = scfifo_loop fuel ?s1" using False n(1) w unfolding scfifo_loop_Suc by simp
    have "n \<in> hot s" using False n(2) w by (simp add: hot_def accessed_def)
    then have less: "card (hot ?s1) < fuel" using second_chance_hot [OF Suc.prems(1) _ w] Suc.prems(3) by simp
    note r1 = second_chance_clears(1) [OF Suc.prems(1) n(2) w]
    note user = rescheduled_bits(1) [OF r1 Suc.prems(1)]
    from Suc.IH [OF rescheduledD(1) [OF r1 Suc.prems(1)] _ less] Suc.prems(2) user obtain k s' where
      "scfifo_loop fuel ?s1 = Ok (k, s')" "rescheduled ?s1 s'" "k < MAX_PSYC_PAGES" "accessed k s' = Ok False"
      "\<forall>v<MAX_PSYC_PAGES. ram_user v s = Ok True \<longrightarrow>
         ram_user k s = Ok True \<and> pg_fifo_time (p_ram (myproc s') ! k) \<le> pg_fifo_time (p_ram (myproc s') ! v)"
      by auto
    then show ?thesis unfolding step using rescheduled_trans [OF r1 _ Suc.prems(1)] by blast
  qed
qed simp

text \<open>
  C11. The second-chance scan ends. For a process whose page table is aligned and whose resident
  pages all have a table entry, \<^verbatim>\<open>get_SCFIFO_index\<close> returns a page after at most one round more than
  there are resident pages. The accessed bit of that page is clear, and when some page is mapped
  for the user, it is a user page that no other user page is older than. The scan changes nothing but accessed bits and
  the loading times with their counter.
\<close>

theorem get_SCFIFO_index_returns:
  assumes "proc_ok s" "\<And>i. i < MAX_PSYC_PAGES \<Longrightarrow> \<exists>u. ram_user i s = Ok u"
  shows "\<exists>n s'. get_SCFIFO_index s = Ok (n, s') \<and> rescheduled s s' \<and> n < MAX_PSYC_PAGES \<and> accessed n s' = Ok False \<and>
    (\<forall>v<MAX_PSYC_PAGES. ram_user v s = Ok True \<longrightarrow>
       ram_user n s = Ok True \<and> pg_fifo_time (p_ram (myproc s') ! n) \<le> pg_fifo_time (p_ram (myproc s') ! v))"
proof -
  have "card (hot s) \<le> card {..<MAX_PSYC_PAGES}" by (rule card_mono) (auto simp: hot_def)
  then show ?thesis unfolding get_SCFIFO_index_def by (intro scfifo_loop_enough assms) simp_all
qed

text \<open>The scan when all sixteen pages were accessed.\<close>

theorem get_SCFIFO_index_returns_witness:
  "proc_ok (resident sixteen_pages) \<and>
   (\<exists>n s'. get_SCFIFO_index (resident sixteen_pages) = Ok (n, s') \<and> n < 16 \<and> accessed n s' = Ok False)"
proof
  show ok: "proc_ok (resident sixteen_pages)"
    by (simp add: proc_ok_def resident_sel MAX_PSYC_PAGES_def sixteen_pages_def page_aligned_def PGSIZE_def)
  show "\<exists>n s'. get_SCFIFO_index (resident sixteen_pages) = Ok (n, s') \<and> n < 16 \<and> accessed n s' = Ok False"
    using get_SCFIFO_index_returns [OF ok] resident_user unfolding MAX_PSYC_PAGES_def by blast
qed

end
