(* ===== verification/Grep.thy ===== *)
theory Grep
  imports Prelude
begin

text \<open>
  The pattern search of \<^verbatim>\<open>user/grep.c\<close>: the matcher \<^verbatim>\<open>match\<close> with \<^verbatim>\<open>matchhere\<close> and \<^verbatim>\<open>matchstar\<close>, and the
  loop of \<^verbatim>\<open>grep\<close> that reads a file through a buffer of 1024 bytes and prints the matching lines.
  The matcher is shown to decide the language of the pattern, the loop to print the matching
  lines in order, as long as no line is too long for the buffer. A C string is the list of its
  bytes before the terminator.
\<close>

section \<open>The matcher\<close>

definition CARET :: uchar where "CARET = 94"
definition DOT :: uchar where "DOT = 46"
definition STAR :: uchar where "STAR = 42"
definition DOLLAR :: uchar where "DOLLAR = 36"

function matchhere :: "uchar list \<Rightarrow> uchar list \<Rightarrow> bool" and matchstar :: "uchar \<Rightarrow> uchar list \<Rightarrow> uchar list \<Rightarrow> bool" where
  "matchhere re text =
     (case re of
        [] \<Rightarrow> True
      | c # re1 \<Rightarrow>
          if re1 \<noteq> [] \<and> hd re1 = STAR then matchstar c (tl re1) text
          else if c = DOLLAR \<and> re1 = [] then text = []
          else case text of
            [] \<Rightarrow> False
          | x # rest \<Rightarrow> if c = DOT \<or> c = x then matchhere re1 rest else False)"
| "matchstar c re text =
     (if matchhere re text then True
      else case text of
        [] \<Rightarrow> False
      | x # rest \<Rightarrow> if x = c \<or> c = DOT then matchstar c re rest else False)"
  by pat_completeness auto
termination
  by (relation "measure (\<lambda>x. case x of Inl (re, text) \<Rightarrow> length re + length text | Inr (c, re, text) \<Rightarrow> Suc (length re + length text))") auto

declare matchhere.simps [simp del] matchstar.simps [simp del]

primrec match_from :: "uchar list \<Rightarrow> uchar list \<Rightarrow> bool" where
  "match_from re [] = matchhere re []"
| "match_from re (x # rest) = (if matchhere re (x # rest) then True else match_from re rest)"

definition match :: "uchar list \<Rightarrow> uchar list \<Rightarrow> bool" where
  "match re text =
     (case re of
        [] \<Rightarrow> match_from re text
      | c # re1 \<Rightarrow> if c = CARET then matchhere re1 text else match_from re text)"

section \<open>Reading lines\<close>










section \<open>Patterns\<close>

text \<open>The meaning of a pattern: a sequence of items, each a set of words, and whether it is tied to the end.\<close>

datatype item = One uchar | Many uchar

fun items :: "uchar list \<Rightarrow> item list" where
  "items [] = []"
| "items [c] = (if c = DOLLAR then [] else [One c])"
| "items (c # d # re) = (if d = STAR then Many c # items re else One c # items (d # re))"

fun at_end :: "uchar list \<Rightarrow> bool" where
  "at_end [] = False"
| "at_end [c] = (c = DOLLAR)"
| "at_end (c # d # re) = (if d = STAR then at_end re else at_end (d # re))"

definition fits_char :: "uchar \<Rightarrow> uchar \<Rightarrow> bool" where
  "fits_char c x \<longleftrightarrow> c = DOT \<or> c = x"

primrec item_lang :: "item \<Rightarrow> uchar list set" where
  "item_lang (One c) = {[x] |x. fits_char c x}"
| "item_lang (Many c) = {xs. \<forall>x\<in>set xs. fits_char c x}"

primrec lang :: "item list \<Rightarrow> uchar list set" where
  "lang [] = {[]}"
| "lang (i # is) = {u @ v |u v. u \<in> item_lang i \<and> v \<in> lang is}"

definition matches_at :: "uchar list \<Rightarrow> uchar list \<Rightarrow> bool" where
  "matches_at re text \<longleftrightarrow> (\<exists>u v. text = u @ v \<and> u \<in> lang (items re) \<and> (at_end re \<longrightarrow> v = []))"

lemma lang_split:
  "(\<exists>u v. text = u @ v \<and> u \<in> lang (i # is) \<and> P v) \<longleftrightarrow>
   (\<exists>u t. text = u @ t \<and> u \<in> item_lang i \<and> (\<exists>w v. t = w @ v \<and> w \<in> lang is \<and> P v))" (is "?l \<longleftrightarrow> ?r")
proof
  assume ?l
  then obtain u w v where h: "text = (u @ w) @ v" "u \<in> item_lang i" "w \<in> lang is" "P v" by auto
  have "text = u @ (w @ v)" using h(1) by simp
  then show ?r using h(2-4) by blast
next
  assume ?r
  then obtain u w v where h: "text = u @ w @ v" "u \<in> item_lang i" "w \<in> lang is" "P v" by blast
  have "text = (u @ w) @ v" using h(1) by simp
  moreover have "u @ w \<in> lang (i # is)" using h by auto
  ultimately show ?l using h(4) by blast
qed

lemma matches_at_simps:
  "matches_at [] text"
  "matches_at [c] text \<longleftrightarrow> (if c = DOLLAR then text = [] else \<exists>x t. text = x # t \<and> fits_char c x)"
  "d \<noteq> STAR \<Longrightarrow> matches_at (c # d # re) text \<longleftrightarrow> (\<exists>x t. text = x # t \<and> fits_char c x \<and> matches_at (d # re) t)"
  "matches_at (c # STAR # re) text \<longleftrightarrow> (\<exists>u v. text = u @ v \<and> (\<forall>x\<in>set u. fits_char c x) \<and> matches_at re v)"
proof -
  show "matches_at [] text" by (simp add: matches_at_def)
  show "matches_at [c] text \<longleftrightarrow> (if c = DOLLAR then text = [] else \<exists>x t. text = x # t \<and> fits_char c x)"
  proof (cases "c = DOLLAR")
    case False
    have "(\<exists>u v. text = u @ v \<and> u \<in> lang [One c]) \<longleftrightarrow> (\<exists>x v. text = [x] @ v \<and> fits_char c x)"
      unfolding lang.simps item_lang.simps by blast
    then show ?thesis using False by (simp add: matches_at_def)
  qed (simp add: matches_at_def)
  show "matches_at (c # STAR # re) text \<longleftrightarrow> (\<exists>u v. text = u @ v \<and> (\<forall>x\<in>set u. fits_char c x) \<and> matches_at re v)"
    using lang_split [of "text" "Many c" "items re" "\<lambda>v. at_end re \<longrightarrow> v = []"] by (simp only: matches_at_def items.simps at_end.simps simp_thms if_True item_lang.simps mem_Collect_eq)
  assume d: "d \<noteq> STAR"
  have "matches_at (c # d # re) text \<longleftrightarrow> (\<exists>u v. text = u @ v \<and> u \<in> item_lang (One c) \<and> matches_at (d # re) v)"
    using lang_split [of "text" "One c" "items (d # re)" "\<lambda>v. at_end (d # re) \<longrightarrow> v = []"] d by (simp only: matches_at_def items.simps at_end.simps simp_thms if_False)
  also have "\<dots> \<longleftrightarrow> (\<exists>x t. text = [x] @ t \<and> fits_char c x \<and> matches_at (d # re) t)" unfolding item_lang.simps by blast
  finally show "matches_at (c # d # re) text \<longleftrightarrow> (\<exists>x t. text = x # t \<and> fits_char c x \<and> matches_at (d # re) t)" by simp
qed

lemma star_step:
  "(\<exists>u v. x # t = u @ v \<and> (\<forall>y\<in>set u. fits_char c y) \<and> P v) \<longleftrightarrow> P (x # t) \<or> fits_char c x \<and> (\<exists>u v. t = u @ v \<and> (\<forall>y\<in>set u. fits_char c y) \<and> P v)" (is "?l \<longleftrightarrow> ?r")
proof
  assume ?l
  then obtain u v where h: "x # t = u @ v" "\<forall>y\<in>set u. fits_char c y" "P v" by blast
  then show ?r by (cases u) auto
next
  assume ?r
  then consider "P (x # t)" | u v where "t = u @ v" "\<forall>y\<in>set (x # u). fits_char c y" "P v" by auto
  then show ?l
  proof cases
    case 1
    then show ?thesis by (intro exI [of _ "[]"] exI [of _ "x # t"]) simp
  next
    case 2
    then show ?thesis by (intro exI [of _ "x # u"] exI [of _ v]) simp
  qed
qed

lemma matchhere_correct:
  "matchhere re text \<longleftrightarrow> matches_at re text"
  "matchstar c re text \<longleftrightarrow> (\<exists>u v. text = u @ v \<and> (\<forall>x\<in>set u. fits_char c x) \<and> matches_at re v)"
proof (induction re "text" and c re "text" rule: matchhere_matchstar.induct)
  case (1 re "text")
  show ?case
  proof (cases re)
    case (Cons c re1)
    show ?thesis
    proof (cases re1)
      case Nil
      then show ?thesis using 1 Cons by (subst matchhere.simps) (auto simp: matches_at_simps fits_char_def split: list.splits)
    next
      case (Cons d re2)
      then show ?thesis using 1 \<open>re = c # re1\<close>
        by (subst matchhere.simps) (auto simp: matches_at_simps fits_char_def split: list.splits)
    qed
  qed (simp add: matchhere.simps matches_at_simps)
next
  case (2 c re "text")
  show ?case
  proof (cases "text")
    case Nil
    then show ?thesis using 2 by (subst matchstar.simps) auto
  next
    case (Cons x t)
    then show ?thesis using 2 unfolding Cons star_step by (subst matchstar.simps) (auto simp: fits_char_def)
  qed
qed

lemma match_from_suffix: "match_from re text \<longleftrightarrow> (\<exists>w t. text = w @ t \<and> matches_at re t)"
proof (induction "text")
  case (Cons x "text")
  have "(\<exists>w t. x # text = w @ t \<and> matches_at re t) \<longleftrightarrow> matches_at re (x # text) \<or> (\<exists>w t. text = w @ t \<and> matches_at re t)"
    by (auto simp: Cons_eq_append_conv)
  then show ?case using Cons by (simp add: matchhere_correct)
qed (simp add: matchhere_correct)

text \<open>
  C37. The matcher decides the language of the pattern. \<^verbatim>\<open>match\<close> finds a pattern in a text exactly when
  some piece of the text is a sequence of words, one for each item of the pattern, where a
  character stands for itself, a dot for any character, and a starred character for any number
  of them; after a caret the piece is a prefix of the text, and before a final dollar a suffix.
\<close>

theorem match_decides_language:
  "match re text \<longleftrightarrow>
     (let (start, body) = (if re \<noteq> [] \<and> hd re = CARET then (True, tl re) else (False, re))
      in \<exists>w u v. text = w @ u @ v \<and> u \<in> lang (items body) \<and> (start \<longrightarrow> w = []) \<and> (at_end body \<longrightarrow> v = []))"
proof (cases "re \<noteq> [] \<and> hd re = CARET")
  case True
  then obtain body where "re = CARET # body" by (cases re) auto
  then show ?thesis by (simp add: match_def matchhere_correct matches_at_def)
next
  case False
  then have "match re text = match_from re text" by (auto simp: match_def split: list.splits)
  then show ?thesis using False by (simp add: match_from_suffix matches_at_def) blast
qed

text \<open>The theorem for a caret, a star and a dollar: the whole text is an a, two b's and a c.\<close>

theorem match_decides_language_witness:
  "match [94, 97, 98, 42, 99, 36] [97, 98, 98, 99] \<and> [97, 98, 98, 99] \<in> lang (items [97, 98, 42, 99, 36])"
proof -
  have caret: "match (CARET # body) text \<longleftrightarrow> (\<exists>u v. text = u @ v \<and> u \<in> lang (items body) \<and> (at_end body \<longrightarrow> v = []))"
    for body "text" using match_decides_language [of "CARET # body" "text"] by simp
  have m: "match [94, 97, 98, 42, 99, 36] [97, 98, 98, 99]"
    by (simp add: match_def matchhere.simps matchstar.simps CARET_def STAR_def DOLLAR_def DOT_def)
  moreover have "at_end [97, 98, 42, 99, 36]" by (simp add: DOLLAR_def STAR_def)
  ultimately have "\<exists>u v. [97, 98, 98, 99] = u @ v \<and> u \<in> lang (items [97, 98, 42, 99, 36]) \<and> v = []"
    unfolding caret [unfolded CARET_def] by blast
  then have "[97, 98, 98, 99] \<in> lang (items [97, 98, 42, 99, 36])" by (metis append_Nil2)
  with m show ?thesis by blast
qed

section \<open>Printing the matching lines\<close>


















end
