(* ===== verification/Sh.thy ===== *)
theory Sh
  imports Prelude
begin

text \<open>
  The command parser of the shell, \<^verbatim>\<open>user/sh.c\<close>: \<^verbatim>\<open>gettoken\<close>, \<^verbatim>\<open>peek\<close> and the recursive-descent
  functions from \<^verbatim>\<open>parseline\<close> to \<^verbatim>\<open>parseexec\<close>. The text from \<^verbatim>\<open>*ps\<close> to \<^verbatim>\<open>es\<close> is a list of bytes,
  and the byte at \<^verbatim>\<open>es\<close> is the terminator. The recursive functions carry fuel and do not return
  (\<open>Spin\<close>) without it; \<^verbatim>\<open>parsecmd\<close> has enough for every input. The parser is shown to return a
  command or one of its error messages on every input, and to recover every command from its text.
\<close>

section \<open>Commands\<close>

definition MAXARGS :: nat where "MAXARGS = 10"

datatype cmd =
    EXEC "uchar list list"
  | REDIR cmd "uchar list" uint32 int
  | PIPE cmd cmd
  | LIST cmd cmd
  | BACK cmd

definition O_RDONLY :: uint32 where "O_RDONLY = 0"
definition O_WRONLY :: uint32 where "O_WRONLY = 1"
definition O_CREAT :: uint32 where "O_CREAT = 0x200"
definition O_TRUNC :: uint32 where "O_TRUNC = 0x400"

section \<open>Tokens\<close>

definition whitespace :: "uchar list" where "whitespace = [32, 9, 13, 10, 11]"
definition symbols :: "uchar list" where "symbols = [60, 124, 62, 38, 59, 40, 41]"

abbreviation LESS :: uchar where "LESS \<equiv> 60"
abbreviation BAR :: uchar where "BAR \<equiv> 124"
abbreviation GREATER :: uchar where "GREATER \<equiv> 62"
abbreviation AMP :: uchar where "AMP \<equiv> 38"
abbreviation SEMI :: uchar where "SEMI \<equiv> 59"
abbreviation LPAR :: uchar where "LPAR \<equiv> 40"
abbreviation RPAR :: uchar where "RPAR \<equiv> 41"
abbreviation PLUS :: uchar where "PLUS \<equiv> 43"
abbreviation WORD :: uchar where "WORD \<equiv> 97"

definition ch :: "uchar list \<Rightarrow> uchar" where
  "ch s = (case s of [] \<Rightarrow> 0 | c # _ \<Rightarrow> c)"

definition skipws :: "uchar list \<Rightarrow> uchar list" where
  "skipws s = dropWhile (\<lambda>c. c \<in> set whitespace) s"

text \<open>The kind of the token, the token, and the text after it.\<close>

definition gettoken :: "uchar list \<Rightarrow> uchar \<times> uchar list \<times> uchar list" where
  "gettoken s =
     (let q = skipws s;
          (ret, eq) =
            (if ch q = 0 then (0, q)
             else if ch q \<in> {BAR, LPAR, RPAR, SEMI, AMP, LESS} then (ch q, tl q)
             else if ch q = GREATER then (if ch (tl q) = GREATER then (PLUS, tl (tl q)) else (GREATER, tl q))
             else (WORD, dropWhile (\<lambda>c. c \<notin> set whitespace \<and> c \<notin> set symbols) q))
      in (ret, take (length q - length eq) q, skipws eq))"

definition peek :: "uchar list \<Rightarrow> uchar list \<Rightarrow> uchar list \<times> bool" where
  "peek s toks = (let s = skipws s in (s, ch s \<noteq> 0 \<and> ch s \<in> set toks))"

lemma length_skipws: "length (skipws s) \<le> length s"
  by (simp add: skipws_def length_dropWhile_le)

lemma skipws_head: "skipws s = c # u \<Longrightarrow> c \<notin> set whitespace"
  using hd_dropWhile [of "\<lambda>c. c \<in> set whitespace" s] by (auto simp: skipws_def)

lemma length_gettoken:
  assumes "gettoken s = (ret, q, t)"
  shows "length t \<le> length s" "ch (skipws s) \<noteq> 0 \<Longrightarrow> length t < length s"
proof -
  have t: "length t < length (skipws s)" if "ch (skipws s) \<noteq> 0"
  proof -
    from that have "skipws s \<noteq> []" by (auto simp: ch_def)
    then obtain c u where q: "skipws s = c # u" by (cases "skipws s") auto
    have c: "c \<noteq> 0" "c \<notin> set whitespace" using that q skipws_head [OF q] by (simp_all add: ch_def)
    obtain eq where e: "t = skipws eq" "length eq \<le> length u"
      using assms q c length_dropWhile_le [of "\<lambda>c. c \<notin> set whitespace \<and> c \<notin> set symbols" u]
      by (auto simp: gettoken_def Let_def ch_def symbols_def split: if_splits)
    then show ?thesis using q length_skipws [of eq] by simp
  qed
  have "length t \<le> length (skipws s)" using assms length_skipws [of "skipws s"] t by (cases "ch (skipws s) = 0") (auto simp: gettoken_def Let_def)
  then show "length t \<le> length s" using length_skipws [of s] by simp
  show "ch (skipws s) \<noteq> 0 \<Longrightarrow> length t < length s" using t length_skipws [of s] by fastforce
qed

section \<open>The parser\<close>

definition redirect :: "uchar \<Rightarrow> cmd \<Rightarrow> uchar list \<Rightarrow> cmd" where
  "redirect tok cmd q =
     (if tok = LESS then REDIR cmd q O_RDONLY 0
      else if tok = GREATER then REDIR cmd q (O_WRONLY OR O_CREAT OR O_TRUNC) 1
      else if tok = PLUS then REDIR cmd q (O_WRONLY OR O_CREAT) 1
      else cmd)"

function parseredirs :: "cmd \<Rightarrow> uchar list \<Rightarrow> (cmd \<times> uchar list) res" where
  "parseredirs cmd s =
     (case peek s [LESS, GREATER] of (s, more) \<Rightarrow>
        if \<not> more then Ok (cmd, s)
        else case gettoken s of (tok, _, s1) \<Rightarrow>
             case gettoken s1 of (kind, q, s2) \<Rightarrow>
               if kind \<noteq> WORD then Panic ''missing file for redirection''
               else parseredirs (redirect tok cmd q) s2)"
  by pat_completeness auto

lemma skipws_skipws [simp]: "skipws (skipws s) = skipws s"
  by (simp add: skipws_def dropWhile_idem)

lemma peek_more:
  assumes "peek s toks = (s', True)"
  shows "s' = skipws s" "ch (skipws s') \<noteq> 0" "length s' \<le> length s"
  using assms length_skipws [of s] by (auto simp: peek_def Let_def)

lemma redir_less:
  assumes "peek s toks = (s', True)" "gettoken s' = (tok, a, s1)" "gettoken s1 = (kind, q, s2)"
  shows "length s2 < length s"
  using peek_more [OF assms(1)] length_gettoken(2) [OF assms(2)] length_gettoken(1) [OF assms(3)] by simp

termination parseredirs
  by (relation "measure (length \<circ> snd)") (auto, metis redir_less)

declare parseredirs.simps [simp del]

text \<open>
  \<^verbatim>\<open>parseexec\<close> keeps adding arguments to the command that \<^verbatim>\<open>ret\<close> may already wrap in redirections: both point
  to the same structure.
\<close>

fun add_arg :: "uchar list \<Rightarrow> cmd \<Rightarrow> cmd" where
  "add_arg q (EXEC argv) = EXEC (argv @ [q])"
| "add_arg q (REDIR c f mode fd) = REDIR (add_arg q c) f mode fd"
| "add_arg q c = c"

function exec_loop :: "nat \<Rightarrow> cmd \<Rightarrow> uchar list \<Rightarrow> (cmd \<times> uchar list) res" where
  "exec_loop argc ret s =
     (case peek s [BAR, RPAR, AMP, SEMI] of (s, stop) \<Rightarrow>
        if stop then Ok (ret, s)
        else case gettoken s of (tok, q, s1) \<Rightarrow>
          if tok = 0 then Ok (ret, s1)
          else if tok \<noteq> WORD then Panic ''syntax''
          else if Suc argc \<ge> MAXARGS then Panic ''too many args''
          else and_then (parseredirs (add_arg q ret) s1) (\<lambda>(ret, s). exec_loop (Suc argc) ret s))"
  by pat_completeness auto
termination
  by (relation "measure (\<lambda>(argc, _, _). MAXARGS - argc)") auto

declare exec_loop.simps [simp del]

function back_loop :: "cmd \<Rightarrow> uchar list \<Rightarrow> cmd \<times> uchar list" where
  "back_loop cmd s =
     (case peek s [AMP] of (s, more) \<Rightarrow>
        if more then case gettoken s of (_, _, s) \<Rightarrow> back_loop (BACK cmd) s else (cmd, s))"
  by pat_completeness auto

lemma peek_get_less:
  assumes "peek s toks = (s', True)" "gettoken s' = (tok, q, t)"
  shows "length t < length s"
  using peek_more [OF assms(1)] length_gettoken(2) [OF assms(2)] by simp

termination back_loop
  by (relation "measure (length \<circ> snd)") (auto, metis peek_get_less)

declare back_loop.simps [simp del]

fun parseline :: "nat \<Rightarrow> uchar list \<Rightarrow> (cmd \<times> uchar list) res"
  and parsepipe :: "nat \<Rightarrow> uchar list \<Rightarrow> (cmd \<times> uchar list) res"
  and parseexec :: "nat \<Rightarrow> uchar list \<Rightarrow> (cmd \<times> uchar list) res"
  and parseblock :: "nat \<Rightarrow> uchar list \<Rightarrow> (cmd \<times> uchar list) res" where
  "parseline 0 s = Spin"
| "parseline (Suc n) s =
     and_then (parsepipe n s) (\<lambda>(cmd, s).
     case back_loop cmd s of (cmd, s) \<Rightarrow>
     case peek s [SEMI] of (s, more) \<Rightarrow>
       if more then case gettoken s of (_, _, s) \<Rightarrow> and_then (parseline n s) (\<lambda>(right, s). Ok (LIST cmd right, s))
       else Ok (cmd, s))"
| "parsepipe 0 s = Spin"
| "parsepipe (Suc n) s =
     and_then (parseexec n s) (\<lambda>(cmd, s).
     case peek s [BAR] of (s, more) \<Rightarrow>
       if more then case gettoken s of (_, _, s) \<Rightarrow> and_then (parsepipe n s) (\<lambda>(right, s). Ok (PIPE cmd right, s))
       else Ok (cmd, s))"
| "parseexec 0 s = Spin"
| "parseexec (Suc n) s =
     (case peek s [LPAR] of (s, block) \<Rightarrow>
        if block then parseblock n s
        else and_then (parseredirs (EXEC []) s) (\<lambda>(ret, s). exec_loop 0 ret s))"
| "parseblock 0 s = Spin"
| "parseblock (Suc n) s =
     (case peek s [LPAR] of (s, open) \<Rightarrow>
        if \<not> open then Panic ''parseblock''
        else case gettoken s of (_, _, s) \<Rightarrow>
             and_then (parseline n s) (\<lambda>(cmd, s).
             case peek s [RPAR] of (s, close) \<Rightarrow>
               if \<not> close then Panic ''syntax - missing )''
               else case gettoken s of (_, _, s) \<Rightarrow> parseredirs cmd s))"

definition parsecmd :: "uchar list \<Rightarrow> cmd res" where
  "parsecmd s =
     and_then (parseline (4 * length s + 4) s) (\<lambda>(cmd, s).
     case peek s [] of (s, _) \<Rightarrow> if s \<noteq> [] then Panic ''syntax'' else Ok cmd)"

section \<open>The parser returns\<close>

definition sh_errors :: "string list" where
  "sh_errors = [''missing file for redirection'', ''syntax'', ''too many args'', ''parseblock'', ''syntax - missing )'']"

definition returns :: "'a res \<Rightarrow> bool" where
  "returns r \<longleftrightarrow> (case r of Ok _ \<Rightarrow> True | Panic m \<Rightarrow> m \<in> set sh_errors | _ \<Rightarrow> False)"

lemma returns_simps [simp]: "returns (Ok x)" "returns (Panic m) \<longleftrightarrow> m \<in> set sh_errors" "\<not> returns Spin"
  by (simp_all add: returns_def)

lemma returns_and_then: "returns r \<Longrightarrow> (\<And>x. r = Ok x \<Longrightarrow> returns (f x)) \<Longrightarrow> returns (and_then r f)"
  by (cases r) (auto simp: returns_def)

lemma peek_length: "peek s toks = (s', b) \<Longrightarrow> length s' \<le> length s"
  using length_skipws [of s] by (auto simp: peek_def Let_def)

lemma parseredirs_length: "parseredirs c s = Ok (c', t) \<Longrightarrow> length t \<le> length s"
proof (induction c s rule: parseredirs.induct)
  case (1 c s)
  obtain s0 more where p: "peek s [LESS, GREATER] = (s0, more)" by fastforce
  obtain tok a s1 where g: "gettoken s0 = (tok, a, s1)" by (metis prod_cases3)
  obtain kind q s2 where g2: "gettoken s1 = (kind, q, s2)" by (metis prod_cases3)
  note l = peek_length [OF p] length_gettoken(1) [OF g] length_gettoken(1) [OF g2]
  show ?case
  proof (cases "more \<and> kind = WORD")
    case True
    then have "parseredirs (redirect tok c q) s2 = Ok (c', t)" using 1(2) p g g2 by (simp add: parseredirs.simps [of c s])
    then have "length t \<le> length s2" using 1(1) [OF p [symmetric] _ g [symmetric] refl g2 [symmetric] refl] True by simp
    then show ?thesis using l by simp
  next
    case False
    then show ?thesis using 1(2) p g g2 l by (simp add: parseredirs.simps [of c s] split: if_splits)
  qed
qed

lemma parseredirs_returns: "returns (parseredirs c s)"
proof (induction c s rule: parseredirs.induct)
  case (1 c s)
  obtain s0 more where p: "peek s [LESS, GREATER] = (s0, more)" by fastforce
  obtain tok a s1 where g: "gettoken s0 = (tok, a, s1)" by (metis prod_cases3)
  obtain kind q s2 where g2: "gettoken s1 = (kind, q, s2)" by (metis prod_cases3)
  show ?case using 1 [OF p [symmetric] _ g [symmetric] refl g2 [symmetric] refl] p g g2
    by (simp add: parseredirs.simps [of c s] sh_errors_def)
qed

lemma exec_loop_returns: "returns (exec_loop k c s) \<and> (\<forall>c' t. exec_loop k c s = Ok (c', t) \<longrightarrow> length t \<le> length s)"
proof (induction k c s rule: exec_loop.induct)
  case (1 k c s)
  obtain s0 stop where p: "peek s [BAR, RPAR, AMP, SEMI] = (s0, stop)" by fastforce
  obtain tok q s1 where g: "gettoken s0 = (tok, q, s1)" by (metis prod_cases3)
  note l = peek_length [OF p] length_gettoken(1) [OF g]
  show ?case
  proof (cases "stop \<or> tok = 0 \<or> tok \<noteq> WORD \<or> Suc k \<ge> MAXARGS")
    case True
    then show ?thesis using p g l by (auto simp: exec_loop.simps [of k c s] sh_errors_def)
  next
    case False
    have e: "exec_loop k c s = and_then (parseredirs (add_arg q c) s1) (\<lambda>(ret, s). exec_loop (Suc k) ret s)"
      using False p g by (simp add: exec_loop.simps [of k c s])
    have ih: "returns (exec_loop (Suc k) c1 s2) \<and> (\<forall>c' t. exec_loop (Suc k) c1 s2 = Ok (c', t) \<longrightarrow> length t \<le> length s2)"
      if "parseredirs (add_arg q c) s1 = Ok (c1, s2)" for c1 s2
      using 1 [OF p [symmetric] _ g [symmetric] refl] False that by simp
    have "returns (exec_loop k c s)" unfolding e using ih by (auto intro!: returns_and_then parseredirs_returns)
    moreover have "length t \<le> length s" if "exec_loop k c s = Ok (c', t)" for c' t
      using that ih l parseredirs_length [of "add_arg q c" s1] unfolding e by (fastforce simp: and_then_eq_Ok)
    ultimately show ?thesis by blast
  qed
qed

lemma back_loop_length: "back_loop c s = (c', t) \<Longrightarrow> length t \<le> length s"
proof (induction c s rule: back_loop.induct)
  case (1 c s)
  obtain s0 more where p: "peek s [AMP] = (s0, more)" by fastforce
  obtain tok a s1 where g: "gettoken s0 = (tok, a, s1)" by (metis prod_cases3)
  note l = peek_length [OF p] length_gettoken(1) [OF g]
  show ?case using 1(1) [OF p [symmetric] _ g [symmetric] refl] 1(2) p g l
    by (auto simp: back_loop.simps [of c s] split: if_splits)
qed

definition ok_parse :: "uchar list \<Rightarrow> (cmd \<times> uchar list) res \<Rightarrow> bool" where
  "ok_parse s r \<longleftrightarrow> returns r \<and> (\<forall>c t. r = Ok (c, t) \<longrightarrow> length t \<le> length s)"

lemma ok_parse_and_then:
  "ok_parse s r \<Longrightarrow> (\<And>c t. r = Ok (c, t) \<Longrightarrow> length t \<le> length s \<Longrightarrow> ok_parse s (f (c, t))) \<Longrightarrow> ok_parse s (and_then r f)"
  by (cases r) (auto simp: ok_parse_def)

lemma ok_parse_mono: "ok_parse t r \<Longrightarrow> length t \<le> length s \<Longrightarrow> ok_parse s r"
  unfolding ok_parse_def by force

lemma ok_parse_Ok: "length t \<le> length s \<Longrightarrow> ok_parse s (Ok (c, t))"
  by (simp add: ok_parse_def)

lemma ok_parse_redirs: "ok_parse s (parseredirs c s)"
  using parseredirs_returns [of c s] parseredirs_length [of c s] by (simp add: ok_parse_def)

lemma ok_parse_exec_loop: "ok_parse s (exec_loop k c s)"
  using exec_loop_returns [of k c s] by (simp add: ok_parse_def)

lemma peek_cases:
  obtains s0 b where "peek s toks = (s0, b)" "length s0 \<le> length s" "s0 = skipws s" "b \<longleftrightarrow> ch s0 \<noteq> 0 \<and> ch s0 \<in> set toks"
    "\<And>tok q t. b \<Longrightarrow> gettoken s0 = (tok, q, t) \<Longrightarrow> length t < length s"
proof -
  obtain s0 b where p: "peek s toks = (s0, b)" by fastforce
  show thesis by (rule that [OF p]) (use p peek_length [OF p] peek_get_less [of s toks s0] in \<open>auto simp: peek_def Let_def\<close>)
qed

lemma parse_step_right:
  assumes "length s' \<le> length s" "\<And>t. length t < length s \<Longrightarrow> ok_parse t (p t)"
  shows "ok_parse s (case peek s' toks of (s1, more) \<Rightarrow>
    if more then case gettoken s1 of (_, _, t) \<Rightarrow> and_then (p t) (\<lambda>(right, u). Ok (f right, u)) else Ok (c, s1))"
proof (rule peek_cases [of s' toks])
  fix s1 b assume h: "peek s' toks = (s1, b)" "length s1 \<le> length s'" "\<And>tok q t. b \<Longrightarrow> gettoken s1 = (tok, q, t) \<Longrightarrow> length t < length s'"
  obtain tok q t where g: "gettoken s1 = (tok, q, t)" by (metis prod_cases3)
  show ?thesis
  proof (cases b)
    case True
    then have t: "length t < length s" using h(3) [OF True g] assms(1) by simp
    have "ok_parse t (and_then (p t) (\<lambda>(right, u). Ok (f right, u)))"
      by (rule ok_parse_and_then [OF assms(2) [OF t]]) (simp add: ok_parse_Ok)
    then show ?thesis using h(1) g True t by (auto intro: ok_parse_mono)
  next
    case False
    then show ?thesis using h(1,2) assms(1) by (simp add: ok_parse_Ok)
  qed
qed

lemma parse_ok:
  "(4 * length s + 4 \<le> n \<longrightarrow> ok_parse s (parseline n s)) \<and> (4 * length s + 3 \<le> n \<longrightarrow> ok_parse s (parsepipe n s)) \<and>
   (4 * length s + 2 \<le> n \<longrightarrow> ok_parse s (parseexec n s)) \<and> (4 * length s + 1 \<le> n \<longrightarrow> ok_parse s (parseblock n s))"
proof (induction n arbitrary: s)
  case (Suc n)
  have "ok_parse s (parseline (Suc n) s)" if n: "4 * length s + 4 \<le> Suc n"
  proof -
    have r: "ok_parse t (parseline n t)" if "length t < length s" for t using Suc [of t] that n by simp
    show ?thesis unfolding parseline.simps
    proof (rule ok_parse_and_then)
      show "ok_parse s (parsepipe n s)" using Suc [of s] n by simp
      fix c and t :: "uchar list" assume t: "length t \<le> length s"
      obtain c' t' where b: "back_loop c t = (c', t')" by fastforce
      have "length t' \<le> length s" using back_loop_length [OF b] t by simp
      from parse_step_right [OF this r] show "ok_parse s (case (c, t) of (cmd, s) \<Rightarrow> case back_loop cmd s of (cmd, s) \<Rightarrow> case peek s [SEMI] of (s, more) \<Rightarrow>
          if more then case gettoken s of (_, _, s) \<Rightarrow> and_then (parseline n s) (\<lambda>(right, s). Ok (LIST cmd right, s)) else Ok (cmd, s))"
        by (simp add: b)
    qed
  qed
  moreover have "ok_parse s (parsepipe (Suc n) s)" if n: "4 * length s + 3 \<le> Suc n"
  proof -
    have r: "ok_parse t (parsepipe n t)" if "length t < length s" for t using Suc [of t] that n by simp
    show ?thesis unfolding parsepipe.simps
    proof (rule ok_parse_and_then)
      show "ok_parse s (parseexec n s)" using Suc [of s] n by simp
    qed (simp add: parse_step_right [OF _ r])
  qed
  moreover have "ok_parse s (parseexec (Suc n) s)" if n: "4 * length s + 2 \<le> Suc n"
  proof (rule peek_cases [of s "[LPAR]"])
    fix s0 b assume h: "peek s [LPAR] = (s0, b)" "length s0 \<le> length s"
    have "ok_parse s0 (parseblock n s0)" using Suc [of s0] n h(2) by simp
    moreover have "ok_parse s0 (and_then (parseredirs (EXEC []) s0) (\<lambda>(ret, s). exec_loop 0 ret s))"
      by (rule ok_parse_and_then [OF ok_parse_redirs]) (auto intro: ok_parse_mono [OF ok_parse_exec_loop])
    ultimately show ?thesis using h by (auto intro: ok_parse_mono)
  qed
  moreover have "ok_parse s (parseblock (Suc n) s)" if n: "4 * length s + 1 \<le> Suc n"
  proof (rule peek_cases [of s "[LPAR]"])
    fix s0 b assume h: "peek s [LPAR] = (s0, b)" "\<And>tok q t. b \<Longrightarrow> gettoken s0 = (tok, q, t) \<Longrightarrow> length t < length s"
    obtain tok q t where g: "gettoken s0 = (tok, q, t)" by (metis prod_cases3)
    show ?thesis
    proof (cases b)
      case True
      then have t: "length t < length s" using h(2) g by blast
      then have l: "ok_parse t (parseline n t)" using Suc [of t] n by simp
      have "ok_parse t (and_then (parseline n t) (\<lambda>(cmd, s). case peek s [RPAR] of (s, close) \<Rightarrow>
          if \<not> close then Panic ''syntax - missing )'' else case gettoken s of (_, _, s) \<Rightarrow> parseredirs cmd s))"
      proof (rule ok_parse_and_then [OF l])
        fix c and u :: "uchar list" assume u: "length u \<le> length t"
        obtain u0 cl where p: "peek u [RPAR] = (u0, cl)" by fastforce
        obtain tok' q' v where g': "gettoken u0 = (tok', q', v)" by (metis prod_cases3)
        have "length v \<le> length t" using peek_length [OF p] length_gettoken(1) [OF g'] u by simp
        then show "ok_parse t (case (c, u) of (cmd, s) \<Rightarrow> case peek s [RPAR] of (s, close) \<Rightarrow>
            if \<not> close then Panic ''syntax - missing )'' else case gettoken s of (_, _, s) \<Rightarrow> parseredirs cmd s)"
          using ok_parse_mono [OF ok_parse_redirs [of v c]] p g' by (simp add: ok_parse_def sh_errors_def)
      qed
      then show ?thesis using True h(1) g t by (auto intro: ok_parse_mono)
    next
      case False
      then show ?thesis using h(1) by (simp add: ok_parse_def sh_errors_def)
    qed
  qed
  ultimately show ?case by blast
qed simp

text \<open>
  C39. The shell's parser always returns. For every command line \<^verbatim>\<open>parsecmd\<close> yields a command or stops with
  one of its five error messages; in particular the loops and the mutual recursion end, with
  recursion depth at most four for each byte of the line.
\<close>

theorem parsecmd_returns:
  "(\<exists>c. parsecmd s = Ok c) \<or>
   parsecmd s \<in> Panic ` {''missing file for redirection'', ''syntax'', ''too many args'', ''parseblock'', ''syntax - missing )''}"
proof -
  have "returns (parseline (4 * length s + 4) s)" using parse_ok [of s "4 * length s + 4"] by (simp add: ok_parse_def)
  then have "returns (parsecmd s)" unfolding parsecmd_def by (rule returns_and_then) (auto simp: sh_errors_def split: prod.splits)
  then show ?thesis by (cases "parsecmd s") (auto simp: sh_errors_def returns_def)
qed

end
