(* ===== verification/ShThms.thy ===== *)
theory ShThms
  imports Sh
begin

text \<open>
  Printing a command of the shell and parsing the text gives the command back: precedence of
  the operators, grouping by parentheses, arguments and redirections are parsed as meant.
\<close>

declare One_nat_def [simp del]

section \<open>The text of a command\<close>

definition word_ok :: "uchar list \<Rightarrow> bool" where
  "word_ok a \<longleftrightarrow> a \<noteq> [] \<and> (\<forall>c\<in>set a. c \<notin> set whitespace \<and> c \<notin> set symbols \<and> c \<noteq> 0)"

primrec lev :: "cmd \<Rightarrow> nat" where
  "lev (EXEC argv) = 0"
| "lev (REDIR c f mode fd) = 0"
| "lev (PIPE l r) = 1"
| "lev (BACK c) = 2"
| "lev (LIST l r) = 3"

definition wrap :: "nat \<Rightarrow> cmd \<Rightarrow> uchar list \<Rightarrow> uchar list" where
  "wrap k c t = (if lev c \<le> k then t else LPAR # 32 # t @ [RPAR, 32])"

definition redir_op :: "uint32 \<Rightarrow> uchar list" where
  "redir_op mode = (if mode = O_RDONLY then [LESS] else if mode = O_WRONLY OR O_CREAT OR O_TRUNC then [GREATER] else [GREATER, GREATER])"

primrec show_cmd :: "cmd \<Rightarrow> uchar list" where
  "show_cmd (EXEC argv) = concat (map (\<lambda>a. a @ [32]) argv)"
| "show_cmd (REDIR c f mode fd) = wrap 0 c (show_cmd c) @ redir_op mode @ 32 # f @ [32]"
| "show_cmd (PIPE l r) = wrap 0 l (show_cmd l) @ BAR # 32 # wrap 1 r (show_cmd r)"
| "show_cmd (BACK c) = wrap 2 c (show_cmd c) @ [AMP, 32]"
| "show_cmd (LIST l r) = wrap 2 l (show_cmd l) @ SEMI # 32 # wrap 3 r (show_cmd r)"

definition redir_ok :: "uchar list \<times> uint32 \<times> int \<Rightarrow> bool" where
  "redir_ok r \<longleftrightarrow> (case r of (f, mode, fd) \<Rightarrow> word_ok f \<and>
     (mode, fd) \<in> {(O_RDONLY, 0), (O_WRONLY OR O_CREAT OR O_TRUNC, 1), (O_WRONLY OR O_CREAT, 1)})"

primrec cmd_ok :: "cmd \<Rightarrow> bool" where
  "cmd_ok (EXEC argv) \<longleftrightarrow> length argv < MAXARGS \<and> (\<forall>a\<in>set argv. word_ok a)"
| "cmd_ok (REDIR c f mode fd) \<longleftrightarrow> cmd_ok c \<and> redir_ok (f, mode, fd)"
| "cmd_ok (PIPE l r) \<longleftrightarrow> cmd_ok l \<and> cmd_ok r"
| "cmd_ok (BACK c) \<longleftrightarrow> cmd_ok c"
| "cmd_ok (LIST l r) \<longleftrightarrow> cmd_ok l \<and> cmd_ok r"

section \<open>Tokens of the text\<close>

abbreviation tight :: "uchar list \<Rightarrow> bool" where
  "tight z \<equiv> skipws z = z"

lemma tight_iff: "tight z \<longleftrightarrow> z = [] \<or> hd z \<notin> set whitespace"
  by (simp add: skipws_def dropWhile_eq_self_iff)

lemma ch_Cons [simp]: "ch (c # z) = c" "ch [] = 0"
  by (simp_all add: ch_def)

lemma skipws_32 [simp]: "skipws (32 # z) = skipws z"
  by (simp add: skipws_def whitespace_def)

lemma word_okD: "word_ok a \<Longrightarrow> \<exists>c u. a = c # u \<and> c \<notin> set whitespace \<and> c \<notin> set symbols \<and> c \<noteq> 0"
  by (cases a) (auto simp: word_ok_def)

lemma gettoken_word:
  assumes "word_ok a"
  shows "gettoken (a @ 32 # z) = (WORD, a, skipws z)"
proof -
  obtain c u where a: "a = c # u" "c \<notin> set whitespace" "c \<notin> set symbols" "c \<noteq> 0" using word_okD [OF assms] by blast
  let ?w = "\<lambda>c. c \<notin> set whitespace \<and> c \<notin> set symbols"
  have t: "skipws (a @ 32 # z) = a @ 32 # z" using a by (simp add: tight_iff)
  have "dropWhile ?w (a @ 32 # z) = dropWhile ?w (32 # z)" using assms by (intro dropWhile_append2) (auto simp: word_ok_def)
  then have d: "dropWhile ?w (a @ 32 # z) = 32 # z" by (simp add: whitespace_def)
  have "ch (a @ 32 # z) \<notin> {0, BAR, LPAR, RPAR, SEMI, AMP, LESS, GREATER}" using a by (auto simp: symbols_def)
  then show ?thesis unfolding gettoken_def Let_def t by (simp add: d)
qed

lemma skipws_sym: "skipws (BAR # z) = BAR # z" "skipws (LPAR # z) = LPAR # z" "skipws (RPAR # z) = RPAR # z" "skipws (SEMI # z) = SEMI # z"
  "skipws (AMP # z) = AMP # z" "skipws (LESS # z) = LESS # z" "skipws (GREATER # z) = GREATER # z"
  by (simp_all add: tight_iff whitespace_def)

lemma gettoken_sym:
  "c \<in> {BAR, LPAR, RPAR, SEMI, AMP, LESS} \<Longrightarrow> gettoken (c # 32 # z) = (c, [c], skipws z)"
  "gettoken (GREATER # 32 # z) = (GREATER, [GREATER], skipws z)"
  "gettoken (GREATER # GREATER # 32 # z) = (PLUS, [GREATER, GREATER], skipws z)"
proof -
  show "c \<in> {BAR, LPAR, RPAR, SEMI, AMP, LESS} \<Longrightarrow> gettoken (c # 32 # z) = (c, [c], skipws z)"
    by (elim insertE emptyE) (simp_all add: gettoken_def Let_def skipws_sym)
qed (simp_all add: gettoken_def Let_def skipws_sym)

lemma peek_tight: "tight z \<Longrightarrow> peek z toks = (z, ch z \<noteq> 0 \<and> ch z \<in> set toks)"
  by (simp add: peek_def Let_def)

section \<open>Redirections and arguments\<close>

definition show_redirs :: "(uchar list \<times> uint32 \<times> int) list \<Rightarrow> uchar list" where
  "show_redirs rs = concat (map (\<lambda>(f, mode, fd). redir_op mode @ 32 # f @ [32]) rs)"

definition redirs :: "cmd \<Rightarrow> (uchar list \<times> uint32 \<times> int) list \<Rightarrow> cmd" where
  "redirs c rs = foldl (\<lambda>c (f, mode, fd). REDIR c f mode fd) c rs"

lemma show_redirs_Cons: "show_redirs ((f, mode, fd) # rs) @ z = redir_op mode @ 32 # f @ 32 # (show_redirs rs @ z)"
  by (simp add: show_redirs_def)

lemma redir_op_ch: "ch (redir_op mode @ z) \<in> {LESS, GREATER}" "redir_op mode \<noteq> []"
  by (auto simp: redir_op_def)

lemma tight_redirs: "tight z \<Longrightarrow> tight (show_redirs rs @ z)"
proof (cases rs)
  case (Cons r rs')
  obtain f mode fd where "r = (f, mode, fd)" by (metis prod_cases3)
  then show ?thesis using Cons by (simp add: show_redirs_Cons) (auto simp: tight_iff redir_op_def whitespace_def)
qed (simp add: show_redirs_def)

lemma mode_neq: "O_WRONLY OR O_CREAT OR O_TRUNC \<noteq> O_RDONLY" "O_WRONLY OR O_CREAT \<noteq> O_RDONLY" "O_WRONLY OR O_CREAT \<noteq> O_WRONLY OR O_CREAT OR O_TRUNC"
  by (simp_all add: O_RDONLY_def O_WRONLY_def O_CREAT_def O_TRUNC_def)

lemma parseredirs_show:
  assumes "\<forall>r\<in>set rs. redir_ok r" "tight z" "ch z \<notin> {LESS, GREATER}"
  shows "parseredirs c (show_redirs rs @ z) = Ok (redirs c rs, z)"
  using assms(1)
proof (induction rs arbitrary: c)
  case Nil
  then show ?case using assms(2,3) by (simp add: show_redirs_def redirs_def parseredirs.simps [of c z] peek_tight)
next
  case (Cons r rs)
  obtain f mode fd where r: "r = (f, mode, fd)" by (metis prod_cases3)
  let ?u = "show_redirs rs @ z" and ?t = "show_redirs (r # rs) @ z"
  have f: "word_ok f" "(mode, fd) \<in> {(O_RDONLY, 0), (O_WRONLY OR O_CREAT OR O_TRUNC, 1), (O_WRONLY OR O_CREAT, 1)}"
    using Cons.prems r by (auto simp: redir_ok_def)
  have t: "tight ?u" "tight ?t" using tight_redirs [OF assms(2)] by blast+
  have ft: "tight (f @ 32 # ?u)" using word_okD [OF f(1)] by (auto simp: tight_iff)
  have g: "\<exists>tok q. gettoken ?t = (tok, q, f @ 32 # ?u) \<and> redirect tok c f = REDIR c f mode fd"
    using f(2) ft mode_neq unfolding r show_redirs_Cons by (auto simp: redir_op_def gettoken_sym redirect_def)
  then obtain tok q where g: "gettoken ?t = (tok, q, f @ 32 # ?u)" "redirect tok c f = REDIR c f mode fd" by blast
  have p: "peek ?t [LESS, GREATER] = (?t, True)"
    using t(2) redir_op_ch(1) [of mode "32 # f @ 32 # ?u"] by (auto simp: peek_tight r show_redirs_Cons)
  have "parseredirs c ?t = parseredirs (REDIR c f mode fd) ?u"
    using p g gettoken_word [OF f(1), of ?u] t(1) by (simp add: parseredirs.simps [of c ?t])
  then show ?case using Cons.IH [of "REDIR c f mode fd"] Cons.prems by (simp add: redirs_def r)
qed

abbreviation stop_exec :: "uchar list \<Rightarrow> bool" where
  "stop_exec z \<equiv> z = [] \<or> ch z \<in> {BAR, AMP, SEMI, RPAR}"

lemma stop_exec_tight: "stop_exec z \<Longrightarrow> tight z \<and> ch z \<notin> {LESS, GREATER}"
  by (cases z) (auto simp: tight_iff whitespace_def)

lemma exec_loop_stop: "stop_exec z \<Longrightarrow> exec_loop k c z = Ok (c, z)"
proof -
  assume z: "stop_exec z"
  have "gettoken [] = (0, [], [])" by (simp add: gettoken_def Let_def skipws_def)
  then show ?thesis using z stop_exec_tight [OF z] by (auto simp: exec_loop.simps [of k c z] peek_tight)
qed

abbreviation show_args :: "uchar list list \<Rightarrow> uchar list" where
  "show_args as \<equiv> concat (map (\<lambda>a. a @ [32]) as)"

lemma exec_loop_args:
  assumes "\<forall>a\<in>set (b # bs). word_ok a" "\<forall>r\<in>set rs. redir_ok r" "stop_exec z" "length pre + length (b # bs) < MAXARGS"
  shows "exec_loop (length pre) (EXEC pre) (show_args (b # bs) @ show_redirs rs @ z) = Ok (redirs (EXEC (pre @ b # bs)) rs, z)"
  using assms(1,4)
proof (induction bs arbitrary: b pre)
  case Nil
  note z = stop_exec_tight [OF assms(3)]
  have t: "tight (show_redirs rs @ z)" using tight_redirs z by blast
  have b: "word_ok b" using Nil by simp
  obtain c u where c: "b = c # u" "c \<notin> set whitespace" "c \<notin> set symbols" using word_okD [OF b] by blast
  have "parseredirs (EXEC (pre @ [b])) (show_redirs rs @ z) = Ok (redirs (EXEC (pre @ [b])) rs, z)"
    using parseredirs_show [OF assms(2)] z by blast
  then show ?case using c Nil.prems gettoken_word [OF b, of "show_redirs rs @ z"] t exec_loop_stop [OF assms(3)]
    by (subst exec_loop.simps) (auto simp: peek_tight tight_iff symbols_def)
next
  case (Cons b' bs)
  have b: "word_ok b" "word_ok b'" using Cons by simp_all
  obtain c u where c: "b = c # u" "c \<notin> set whitespace" "c \<notin> set symbols" using word_okD [OF b(1)] by blast
  obtain c' u' where c': "b' = c' # u'" "c' \<notin> set whitespace" "c' \<notin> set symbols" using word_okD [OF b(2)] by blast
  let ?t = "show_args (b' # bs) @ show_redirs rs @ z"
  have t: "tight ?t" using c' by (simp add: tight_iff)
  have "parseredirs (EXEC (pre @ [b])) ?t = Ok (EXEC (pre @ [b]), ?t)"
    using t c' by (subst parseredirs.simps) (auto simp: peek_tight symbols_def)
  moreover have "exec_loop (length (pre @ [b])) (EXEC (pre @ [b])) ?t = Ok (redirs (EXEC ((pre @ [b]) @ b' # bs)) rs, z)"
    using Cons.IH [of b' "pre @ [b]"] Cons.prems by simp
  moreover have "gettoken (b @ 32 # ?t) = (WORD, b, ?t)" using gettoken_word [OF b(1), of ?t] t by simp
  moreover have "tight (b @ 32 # ?t)" using c by (simp add: tight_iff)
  ultimately show ?case using c Cons.prems by (subst exec_loop.simps) (auto simp: peek_tight symbols_def)
qed

section \<open>Parsing the text\<close>

fun spine :: "cmd \<Rightarrow> cmd \<times> (uchar list \<times> uint32 \<times> int) list" where
  "spine (REDIR c f mode fd) = (case spine c of (b, rs) \<Rightarrow> (b, rs @ [(f, mode, fd)]))"
| "spine c = (c, [])"

fun is_redir :: "cmd \<Rightarrow> bool" where
  "is_redir (REDIR c f mode fd) = True"
| "is_redir c = False"

fun is_back :: "cmd \<Rightarrow> bool" where
  "is_back (BACK c) = True"
| "is_back c = False"

lemma spine_cmd:
  assumes "spine c = (b, rs)" "cmd_ok c"
  shows "c = redirs b rs \<and> wrap 0 c (show_cmd c) = wrap 0 b (show_cmd b) @ show_redirs rs \<and> cmd_ok b \<and> (\<forall>r\<in>set rs. redir_ok r) \<and>
    size b \<le> size c \<and> \<not> is_redir b \<and> (is_redir c \<longrightarrow> size b < size c)"
  using assms
proof (induction c arbitrary: rs)
  case (REDIR c f mode fd)
  obtain rs' where s: "spine c = (b, rs')" "rs = rs' @ [(f, mode, fd)]" using REDIR.prems(1) by (auto split: prod.splits)
  have ok: "cmd_ok c" "redir_ok (f, mode, fd)" using REDIR.prems(2) by simp_all
  have w: "wrap 0 (REDIR c f mode fd) t = t" for t by (simp add: wrap_def)
  have i: "c = redirs b rs'" "wrap 0 c (show_cmd c) = wrap 0 b (show_cmd b) @ show_redirs rs'" "cmd_ok b" "\<forall>r\<in>set rs'. redir_ok r" "size b \<le> size c" "\<not> is_redir b"
    using REDIR.IH [OF s(1) ok(1)] by blast+
  have "redirs b rs = REDIR c f mode fd" unfolding s(2) by (simp add: redirs_def i(1) [unfolded redirs_def, symmetric])
  moreover have "show_redirs rs = show_redirs rs' @ redir_op mode @ 32 # f @ [32]" by (simp add: s(2) show_redirs_def)
  ultimately show ?case using i(2-) ok(2) by (simp add: w s(2))
qed (auto simp: redirs_def show_redirs_def)

lemma tight_show: "cmd_ok c \<Longrightarrow> tight z \<Longrightarrow> tight (wrap k c (show_cmd c) @ z)"
proof (induction c arbitrary: k z)
  case (EXEC argv)
  show ?case
  proof (cases argv)
    case (Cons a as)
    then obtain d u where "a = d # u" "d \<notin> set whitespace" using EXEC word_okD [of a] by auto
    then show ?thesis using Cons by (simp add: wrap_def tight_iff)
  qed (use EXEC in \<open>simp add: wrap_def\<close>)
next
  case (REDIR c f mode fd)
  have "tight (redir_op mode @ 32 # f @ 32 # z)" by (auto simp: redir_op_def tight_iff whitespace_def)
  then show ?case using REDIR by (simp add: wrap_def [of k])
next
  case (PIPE l r)
  have "tight (BAR # 32 # wrap 1 r (show_cmd r) @ z)" "tight (LPAR # y)" for y by (simp_all add: tight_iff whitespace_def)
  then show ?case using PIPE by (simp add: wrap_def [of k])
next
  case (BACK c)
  have "tight (AMP # 32 # z)" "tight (LPAR # y)" for y by (simp_all add: tight_iff whitespace_def)
  then show ?case using BACK by (simp add: wrap_def [of k])
next
  case (LIST l r)
  have "tight (SEMI # 32 # wrap 3 r (show_cmd r) @ z)" "tight (LPAR # y)" for y by (simp_all add: tight_iff whitespace_def)
  then show ?case using LIST by (simp add: wrap_def [of k])
qed

text \<open>What has to be shown of a command at each level of the grammar.\<close>

definition exec_good :: "cmd \<Rightarrow> bool" where
  "exec_good c \<longleftrightarrow> (\<forall>n z. stop_exec z \<longrightarrow> 4 * length (wrap 0 c (show_cmd c) @ z) + 2 \<le> n \<longrightarrow>
     parseexec n (wrap 0 c (show_cmd c) @ z) = Ok (c, z))"

definition pipe_good :: "cmd \<Rightarrow> bool" where
  "pipe_good c \<longleftrightarrow> (\<forall>n z. z = [] \<or> ch z \<in> {AMP, SEMI, RPAR} \<longrightarrow> 4 * length (wrap 1 c (show_cmd c) @ z) + 3 \<le> n \<longrightarrow>
     parsepipe n (wrap 1 c (show_cmd c) @ z) = Ok (c, z))"

definition back_good :: "cmd \<Rightarrow> bool" where
  "back_good c \<longleftrightarrow> (\<forall>n z. z = [] \<or> ch z \<in> {SEMI, RPAR} \<longrightarrow> 4 * length (wrap 2 c (show_cmd c) @ z) + 3 \<le> n \<longrightarrow>
     and_then (parsepipe n (wrap 2 c (show_cmd c) @ z)) (\<lambda>(c, s). Ok (back_loop c s)) = Ok (c, z))"

definition line_good :: "cmd \<Rightarrow> bool" where
  "line_good c \<longleftrightarrow> (\<forall>n z. z = [] \<or> ch z = RPAR \<longrightarrow> 4 * length (show_cmd c @ z) + 4 \<le> n \<longrightarrow>
     parseline n (show_cmd c @ z) = Ok (c, z))"

lemma pipe_of_exec:
  assumes "exec_good c" "lev c \<noteq> 1"
  shows "pipe_good c"
  unfolding pipe_good_def
proof (intro allI impI)
  fix n z assume h: "z = [] \<or> ch z \<in> {AMP, SEMI, RPAR}" "4 * length (wrap 1 c (show_cmd c) @ z) + 3 \<le> n"
  have w: "wrap 1 c (show_cmd c) = wrap 0 c (show_cmd c)" using assms(2) by (auto simp: wrap_def)
  obtain m where m: "n = Suc m" using h(2) by (cases n) auto
  have s: "stop_exec z" using h(1) by auto
  have "4 * length (wrap 0 c (show_cmd c) @ z) + 2 \<le> m" using h(2) unfolding w m by simp
  from assms(1) [unfolded exec_good_def, rule_format, OF s this] have "parseexec m (wrap 0 c (show_cmd c) @ z) = Ok (c, z)" .
  then show "parsepipe n (wrap 1 c (show_cmd c) @ z) = Ok (c, z)"
    unfolding m w parsepipe.simps using h(1) stop_exec_tight [OF s] by (auto simp: peek_tight)
qed

lemma back_loop_stop: "z = [] \<or> ch z \<in> {SEMI, RPAR} \<Longrightarrow> back_loop c z = (c, z)"
proof -
  assume z: "z = [] \<or> ch z \<in> {SEMI, RPAR}"
  then have "tight z" using stop_exec_tight [of z] by auto
  then show ?thesis using z by (auto simp: back_loop.simps [of c z] peek_tight)
qed

lemma back_of_pipe:
  assumes "pipe_good c" "\<not> is_back c"
  shows "back_good c"
  unfolding back_good_def
proof (intro allI impI)
  fix n z assume h: "z = [] \<or> ch z \<in> {SEMI, RPAR}" "4 * length (wrap 2 c (show_cmd c) @ z) + 3 \<le> n"
  have w: "wrap 2 c (show_cmd c) = wrap 1 c (show_cmd c)" using assms(2) by (cases c) (auto simp: wrap_def)
  have "parsepipe n (wrap 1 c (show_cmd c) @ z) = Ok (c, z)" using assms(1) h unfolding pipe_good_def w by auto
  then show "and_then (parsepipe n (wrap 2 c (show_cmd c) @ z)) (\<lambda>(c, s). Ok (back_loop c s)) = Ok (c, z)"
    using back_loop_stop [OF h(1)] by (simp add: w)
qed

lemma parseline_back:
  "parseline (Suc n) s = and_then (and_then (parsepipe n s) (\<lambda>(c, s). Ok (back_loop c s))) (\<lambda>(cmd, s).
     case peek s [SEMI] of (s, more) \<Rightarrow>
       if more then case gettoken s of (_, _, s) \<Rightarrow> and_then (parseline n s) (\<lambda>(right, s). Ok (LIST cmd right, s))
       else Ok (cmd, s))"
  by (simp add: and_then_assoc) (cases "parsepipe n s", auto)

lemma line_of_back:
  assumes "back_good c" "lev c \<noteq> 3"
  shows "line_good c"
  unfolding line_good_def
proof (intro allI impI)
  fix n z assume h: "z = [] \<or> ch z = RPAR" "4 * length (show_cmd c @ z) + 4 \<le> n"
  have w: "wrap 2 c (show_cmd c) = show_cmd c" using assms(2) by (cases c) (auto simp: wrap_def)
  obtain m where m: "n = Suc m" using h(2) by (cases n) auto
  have t: "tight z" using stop_exec_tight [of z] h(1) by auto
  have "and_then (parsepipe m (show_cmd c @ z)) (\<lambda>(c, s). Ok (back_loop c s)) = Ok (c, z)"
    using assms(1) h unfolding back_good_def w m by auto
  then show "parseline n (show_cmd c @ z) = Ok (c, z)" using h(1) t unfolding m parseline_back by (auto simp: peek_tight)
qed

lemma tight_line: "cmd_ok c \<Longrightarrow> tight z \<Longrightarrow> tight (show_cmd c @ z)"
  using tight_show [of c z 3] by (cases c) (simp_all add: wrap_def)

lemma exec_block:
  assumes "line_good b" "lev b \<noteq> 0" "cmd_ok b" "\<forall>r\<in>set rs. redir_ok r" "stop_exec z" "4 * length (wrap 0 b (show_cmd b) @ show_redirs rs @ z) + 2 \<le> n"
  shows "parseexec n (wrap 0 b (show_cmd b) @ show_redirs rs @ z) = Ok (redirs b rs, z)"
proof -
  let ?y = "show_redirs rs @ z"
  let ?t = "show_cmd b @ RPAR # 32 # ?y"
  have w: "wrap 0 b (show_cmd b) @ ?y = LPAR # 32 # ?t" using assms(2) by (simp add: wrap_def)
  have "8 < n" using assms(6) unfolding w by simp
  then obtain m where m: "n = Suc (Suc m)" using that [of "n - 2"] by simp
  note z = stop_exec_tight [OF assms(5)]
  have y: "tight ?y" using tight_redirs z by blast
  have r: "tight (RPAR # 32 # ?y)" by (simp add: skipws_sym)
  have t: "tight ?t" using tight_line [OF assms(3) r] .
  have "4 * length ?t + 4 \<le> m" using assms(6) unfolding w m by simp
  then have l: "parseline m ?t = Ok (b, RPAR # 32 # ?y)" using assms(1) unfolding line_good_def by simp
  have g: "gettoken (LPAR # 32 # ?t) = (LPAR, [LPAR], ?t)" "gettoken (RPAR # 32 # ?y) = (RPAR, [RPAR], ?y)"
    using gettoken_sym(1) [of LPAR ?t] gettoken_sym(1) [of RPAR ?y] t y by auto
  have p: "peek (LPAR # 32 # ?t) [LPAR] = (LPAR # 32 # ?t, True)" "peek (RPAR # 32 # ?y) [RPAR] = (RPAR # 32 # ?y, True)"
    by (simp_all add: peek_tight skipws_sym)
  have "parseredirs b ?y = Ok (redirs b rs, z)" using parseredirs_show [OF assms(4)] z by blast
  then show ?thesis unfolding w m parseexec.simps parseblock.simps by (simp add: p g l)
qed

lemma exec_args:
  assumes "cmd_ok (EXEC argv)" "\<forall>r\<in>set rs. redir_ok r" "stop_exec z" "0 < n"
  shows "parseexec n (show_args argv @ show_redirs rs @ z) = Ok (redirs (EXEC argv) rs, z)"
proof -
  let ?t = "show_args argv @ show_redirs rs @ z"
  obtain m where m: "n = Suc m" using assms(4) by (cases n) auto
  note z = stop_exec_tight [OF assms(3)]
  have y: "tight (show_redirs rs @ z)" using tight_redirs z by blast
  then have t: "tight ?t" using tight_line [OF assms(1), of "show_redirs rs @ z"] by simp
  show ?thesis
  proof (cases argv)
    case Nil
    have "ch (show_redirs rs @ z) \<noteq> LPAR"
    proof (cases rs)
      case (Cons r rs')
      obtain f mode fd where "r = (f, mode, fd)" by (metis prod_cases3)
      then show ?thesis using Cons redir_op_ch(1) [of mode "32 # f @ 32 # (show_redirs rs' @ z)"] by (auto simp: show_redirs_Cons)
    qed (use assms(3) in \<open>auto simp: show_redirs_def\<close>)
    then show ?thesis using Nil y parseredirs_show [OF assms(2), of z "EXEC []"] z exec_loop_stop [OF assms(3)]
      unfolding m parseexec.simps by (simp add: peek_tight)
  next
    case (Cons b bs)
    have ok: "\<forall>a\<in>set (b # bs). word_ok a" "length ([] :: uchar list list) + length (b # bs) < MAXARGS" using assms(1) Cons by simp_all
    obtain c u where c: "b = c # u" "c \<notin> set whitespace" "c \<notin> set symbols" using word_okD [of b] ok by auto
    have h: "ch ?t = c" using Cons c by simp
    have n: "c \<noteq> LPAR" "c \<noteq> LESS" "c \<noteq> GREATER" using c by (auto simp: symbols_def)
    have "parseredirs (EXEC []) ?t = Ok (EXEC [], ?t)" using t h n by (subst parseredirs.simps) (simp add: peek_tight)
    moreover have "exec_loop 0 (EXEC []) ?t = Ok (redirs (EXEC argv) rs, z)"
      using exec_loop_args [OF ok(1) assms(2,3) ok(2)] Cons by simp
    ultimately show ?thesis using t h n unfolding m parseexec.simps by (simp add: peek_tight)
  qed
qed

lemma exec_goodI:
  assumes "cmd_ok c" "spine c = (b, rs)" "lev b \<noteq> 0 \<Longrightarrow> line_good b"
  shows "exec_good c"
  unfolding exec_good_def
proof (intro allI impI)
  fix n z assume h: "stop_exec z" "4 * length (wrap 0 c (show_cmd c) @ z) + 2 \<le> n"
  note s = spine_cmd [OF assms(2,1)]
  have w: "wrap 0 c (show_cmd c) @ z = wrap 0 b (show_cmd b) @ show_redirs rs @ z" using s by (metis append.assoc)
  have b: "cmd_ok b" "\<forall>r\<in>set rs. redir_ok r" "c = redirs b rs" using s by blast+
  show "parseexec n (wrap 0 c (show_cmd c) @ z) = Ok (c, z)"
  proof (cases "lev b = 0")
    case True
    then obtain argv where e: "b = EXEC argv" using s by (cases b) auto
    have "0 < n" using h(2) by simp
    then have "parseexec n (wrap 0 b (show_cmd b) @ show_redirs rs @ z) = Ok (redirs b rs, z)"
      using exec_args [OF _ b(2) h(1), of argv n] b(1) by (simp add: e wrap_def)
    then show ?thesis unfolding w using b(3) by simp
  next
    case False
    show ?thesis using exec_block [OF assms(3) [OF False] False b(1,2) h(1)] h(2) b(3) unfolding w by simp
  qed
qed

lemma pipe_goodI:
  assumes "exec_good l" "pipe_good r" "cmd_ok r"
  shows "pipe_good (PIPE l r)"
  unfolding pipe_good_def
proof (intro allI impI)
  fix n z assume h: "z = [] \<or> ch z \<in> {AMP, SEMI, RPAR}" "4 * length (wrap 1 (PIPE l r) (show_cmd (PIPE l r)) @ z) + 3 \<le> n"
  let ?r = "wrap 1 r (show_cmd r) @ z" and ?l = "wrap 0 l (show_cmd l)"
  have w: "wrap 1 (PIPE l r) (show_cmd (PIPE l r)) @ z = ?l @ BAR # 32 # ?r" by (simp add: wrap_def [of 1 "PIPE l r"])
  obtain m where m: "n = Suc m" using h(2) by (cases n) auto
  have z: "tight z" using stop_exec_tight [of z] h(1) by auto
  have "4 * length (?l @ BAR # 32 # ?r) + 2 \<le> m" "4 * length ?r + 3 \<le> m" using h(2) unfolding w m by simp_all
  then have p: "parseexec m (?l @ BAR # 32 # ?r) = Ok (l, BAR # 32 # ?r)" "parsepipe m ?r = Ok (r, z)"
    using assms(1) [unfolded exec_good_def, rule_format, of "BAR # 32 # ?r" m] assms(2) [unfolded pipe_good_def, rule_format, OF h(1), of m] by auto
  have "gettoken (BAR # 32 # ?r) = (BAR, [BAR], ?r)" using gettoken_sym(1) [of BAR ?r] tight_show [OF assms(3) z, of 1] by simp
  then show "parsepipe n (wrap 1 (PIPE l r) (show_cmd (PIPE l r)) @ z) = Ok (PIPE l r, z)"
    unfolding w m parsepipe.simps by (simp add: p [simplified] peek_tight skipws_sym)
qed

lemma line_goodI:
  assumes "back_good l" "line_good r" "cmd_ok r"
  shows "line_good (LIST l r)"
  unfolding line_good_def
proof (intro allI impI)
  fix n z assume h: "z = [] \<or> ch z = RPAR" "4 * length (show_cmd (LIST l r) @ z) + 4 \<le> n"
  let ?r = "show_cmd r @ z" and ?l = "wrap 2 l (show_cmd l)"
  have "lev r \<le> 3" by (cases r) simp_all
  then have w: "show_cmd (LIST l r) @ z = ?l @ SEMI # 32 # ?r" by (simp add: wrap_def [of 3 r])
  obtain m where m: "n = Suc m" using h(2) by (cases n) auto
  have z: "tight z" using stop_exec_tight [of z] h(1) by auto
  have "4 * length (?l @ SEMI # 32 # ?r) + 3 \<le> m" "4 * length ?r + 4 \<le> m" using h(2) unfolding w m by simp_all
  then have p: "and_then (parsepipe m (?l @ SEMI # 32 # ?r)) (\<lambda>(c, s). Ok (back_loop c s)) = Ok (l, SEMI # 32 # ?r)" "parseline m ?r = Ok (r, z)"
    using assms(1) [unfolded back_good_def, rule_format, of "SEMI # 32 # ?r" m] assms(2) [unfolded line_good_def, rule_format, OF h(1), of m] by auto
  have "gettoken (SEMI # 32 # ?r) = (SEMI, [SEMI], ?r)" using gettoken_sym(1) [of SEMI ?r] tight_line [OF assms(3) z] by simp
  then show "parseline n (show_cmd (LIST l r) @ z) = Ok (LIST l r, z)"
    unfolding w m parseline_back p(1) by (simp add: p(2) peek_tight skipws_sym)
qed

definition amps :: "nat \<Rightarrow> uchar list" where
  "amps k = concat (replicate k [AMP, 32])"

lemma back_loop_amps:
  assumes "z = [] \<or> ch z \<in> {SEMI, RPAR}"
  shows "back_loop c (amps k @ z) = ((BACK ^^ k) c, z)"
proof (induction k arbitrary: c)
  case 0
  then show ?case using back_loop_stop [OF assms] by (simp add: amps_def)
next
  case (Suc k)
  have z: "tight z" using stop_exec_tight [of z] assms by auto
  have a: "amps (Suc k) @ z = AMP # 32 # (amps k @ z)" by (simp add: amps_def)
  have "tight (amps k @ z)" using z by (cases k) (simp_all add: amps_def skipws_sym)
  then have "gettoken (AMP # 32 # (amps k @ z)) = (AMP, [AMP], amps k @ z)" using gettoken_sym(1) [of AMP "amps k @ z"] by simp
  then have "back_loop c (amps (Suc k) @ z) = back_loop (BACK c) (amps k @ z)"
    unfolding a by (subst back_loop.simps) (simp add: peek_tight skipws_sym)
  then show ?case using Suc.IH [of "BACK c"] by (simp add: funpow_swap1)
qed

lemma back_chain_end:
  assumes "\<not> is_back c"
  shows "\<exists>p k. c = (BACK ^^ k) p \<and> \<not> is_back p \<and> wrap 2 c (show_cmd c) = wrap 1 p (show_cmd p) @ amps k \<and> (k > 0 \<longrightarrow> size p < size c) \<and> (cmd_ok c \<longrightarrow> cmd_ok p)"
proof -
  have "wrap 2 c (show_cmd c) = wrap 1 c (show_cmd c)" using assms by (cases c) (simp_all add: wrap_def)
  then show ?thesis using assms by (intro exI [of _ c] exI [of _ 0]) (simp add: amps_def)
qed

lemma back_chain:
  "\<exists>p k. c = (BACK ^^ k) p \<and> \<not> is_back p \<and> wrap 2 c (show_cmd c) = wrap 1 p (show_cmd p) @ amps k \<and> (k > 0 \<longrightarrow> size p < size c) \<and> (cmd_ok c \<longrightarrow> cmd_ok p)"
proof (induction c)
  case (BACK c)
  then obtain p k where c: "c = (BACK ^^ k) p" "\<not> is_back p" "wrap 2 c (show_cmd c) = wrap 1 p (show_cmd p) @ amps k"
    "k > 0 \<longrightarrow> size p < size c" "cmd_ok c \<longrightarrow> cmd_ok p" by blast
  have s: "size p \<le> size c" using c(1,4) by (cases k) auto
  have "amps k @ [AMP, 32] = amps (Suc k)" by (simp add: amps_def replicate_append_same [symmetric])
  then have "wrap 2 (BACK c) (show_cmd (BACK c)) = wrap 1 p (show_cmd p) @ amps (Suc k)" using c(3) by (simp add: wrap_def [of 2 "BACK c"])
  moreover have "BACK c = (BACK ^^ Suc k) p" using c(1) by simp
  moreover have "size p < size (BACK c)" "cmd_ok (BACK c) \<longrightarrow> cmd_ok p" using s c(5) by simp_all
  ultimately show ?case using c(2) by blast
qed (rule back_chain_end, simp)+

lemma back_goodI:
  assumes "c = (BACK ^^ k) p" "wrap 2 c (show_cmd c) = wrap 1 p (show_cmd p) @ amps k" "pipe_good p"
  shows "back_good c"
  unfolding back_good_def
proof (intro allI impI)
  fix n z assume h: "z = [] \<or> ch z \<in> {SEMI, RPAR}" "4 * length (wrap 2 c (show_cmd c) @ z) + 3 \<le> n"
  have a: "amps k @ z = [] \<or> ch (amps k @ z) \<in> {AMP, SEMI, RPAR}" using h(1) by (cases k) (auto simp: amps_def)
  have w: "wrap 2 c (show_cmd c) @ z = wrap 1 p (show_cmd p) @ (amps k @ z)" using assms(2) by simp
  have "parsepipe n (wrap 1 p (show_cmd p) @ (amps k @ z)) = Ok (p, amps k @ z)"
    using assms(3) [unfolded pipe_good_def, rule_format, OF a] h(2) unfolding w by simp
  then have "and_then (parsepipe n (wrap 1 p (show_cmd p) @ (amps k @ z))) (\<lambda>(c, s). Ok (back_loop c s)) = Ok ((BACK ^^ k) p, z)"
    by (simp add: back_loop_amps [OF h(1)])
  then show "and_then (parsepipe n (wrap 2 c (show_cmd c) @ z)) (\<lambda>(c, s). Ok (back_loop c s)) = Ok (c, z)"
    unfolding w assms(1) [symmetric] .
qed

lemma cmd_good: "cmd_ok c \<Longrightarrow> exec_good c \<and> pipe_good c \<and> back_good c \<and> line_good c"
proof (induction "size c" arbitrary: c rule: less_induct)
  case less
  have exec: "exec_good c" if l: "lev c \<noteq> 0 \<Longrightarrow> line_good c"
  proof -
    obtain b rs where s: "spine c = (b, rs)" by fastforce
    note sp = spine_cmd [OF s less.prems]
    have "line_good b" if "lev b \<noteq> 0"
    proof (cases "is_redir c")
      case True
      then show ?thesis using less.hyps [of b] sp by blast
    next
      case False
      then have "b = c" using s by (cases c) auto
      then show ?thesis using l that by simp
    qed
    then show ?thesis using exec_goodI [OF less.prems s] by blast
  qed
  show ?case
  proof (cases c)
    case (PIPE l r)
    have "pipe_good c" unfolding PIPE using less.hyps [of l] less.hyps [of r] less.prems PIPE by (intro pipe_goodI) auto
    moreover from this have b: "back_good c" using PIPE by (intro back_of_pipe) auto
    moreover have l: "line_good c" using PIPE by (intro line_of_back [OF b]) simp
    ultimately show ?thesis using exec by blast
  next
    case (BACK d)
    obtain p k where p: "c = (BACK ^^ k) p" "\<not> is_back p" "wrap 2 c (show_cmd c) = wrap 1 p (show_cmd p) @ amps k" "k > 0 \<longrightarrow> size p < size c" "cmd_ok p"
      using back_chain [of c] less.prems by blast
    have "k > 0" using p(1,2) BACK by (cases k) auto
    then have "pipe_good p" using less.hyps [of p] p(4,5) by blast
    then have b: "back_good c" using back_goodI [OF p(1,3)] by blast
    have l: "line_good c" using BACK by (intro line_of_back [OF b]) simp
    have "exec_good c" using exec l by blast
    then show ?thesis using b l pipe_of_exec [of c] BACK by simp
  next
    case (LIST l r)
    have n: "line_good c" unfolding LIST using less.hyps [of l] less.hyps [of r] less.prems LIST by (intro line_goodI) auto
    then have "exec_good c" using exec by blast
    moreover from this have "pipe_good c" using LIST by (intro pipe_of_exec) simp_all
    moreover from this have "back_good c" using LIST by (intro back_of_pipe) simp_all
    ultimately show ?thesis using n by blast
  qed (use exec pipe_of_exec [of c] back_of_pipe [of c] line_of_back [of c] in simp_all)
qed

text \<open>
  C40. The shell parses what it prints. For every command of words, redirections, pipes, lists and
  background jobs, nested in any way, with at most nine arguments for each program: the text with
  operators in the usual precedence, and parentheses where a command of lower precedence is
  nested, is parsed to exactly this command.
\<close>

theorem parsecmd_show_cmd:
  assumes "cmd_ok c"
  shows "parsecmd (show_cmd c) = Ok c"
proof -
  have "parseline (4 * length (show_cmd c) + 4) (show_cmd c @ []) = Ok (c, [])"
    using cmd_good [OF assms] unfolding line_good_def by simp
  then show ?thesis by (simp add: parsecmd_def peek_def skipws_def Let_def)
qed

text \<open>The command \<^verbatim>\<open>( ls | wc > x ) & ; a\<close>.\<close>

definition sample_cmd :: cmd where
  "sample_cmd = LIST (BACK (PIPE (EXEC [[108, 115]]) (REDIR (EXEC [[119, 99]]) [120] (O_WRONLY OR O_CREAT OR O_TRUNC) 1))) (EXEC [[97]])"

theorem parsecmd_show_cmd_witness:
  "parsecmd (show_cmd sample_cmd) = Ok sample_cmd \<and> show_cmd sample_cmd =
     [108, 115, 32, BAR, 32, 119, 99, 32, GREATER, 32, 120, 32, AMP, 32, SEMI, 32, 97, 32]"
proof -
  have "cmd_ok sample_cmd" by (simp add: sample_cmd_def MAXARGS_def word_ok_def redir_ok_def whitespace_def symbols_def)
  then have "parsecmd (show_cmd sample_cmd) = Ok sample_cmd" by (rule parsecmd_show_cmd)
  then show ?thesis by (simp add: sample_cmd_def wrap_def redir_op_def O_RDONLY_def O_WRONLY_def O_CREAT_def O_TRUNC_def)
qed

end
