(* ===== verification/Spec2Isabelle.thy ===== *)
theory Spec2Isabelle
  imports Boot FileThms BufThms VirtioThms UnmapThms ReplaceThms Grep ShThms
begin

text \<open>
  A verification of the xv6-riscv kernel with demand paging (\<^verbatim>\<open>src/kernel\<close>), and of two of its user
  programs (\<^verbatim>\<open>src/user\<close>).

  The kernel's parts, bottom up: the byte and string routines; the physical page allocator;
  the Sv39 page tables; user address spaces with lazy allocation and swapping; processes,
  locks and the scheduler; the buffer cache, the write-ahead log and the file system on top
  of it; pipes, devices and system calls.

  Theories:
  \<^item> \<^verbatim>\<open>Prelude\<close>: machine integers, outcomes of kernel routines, generic lemmas.
  \<^item> \<^verbatim>\<open>Machine\<close>: \<^verbatim>\<open>riscv.h\<close> and \<^verbatim>\<open>memlayout.h\<close>, memory as a function from 64-bit addresses to bytes.
  \<^item> \<^verbatim>\<open>Cstring\<close>: \<^verbatim>\<open>string.c\<close>.
  \<^item> \<^verbatim>\<open>Kalloc\<close>: \<^verbatim>\<open>kalloc.c\<close>, with the free list as the linked list kept in the free pages.
  \<^item> \<^verbatim>\<open>PageTable\<close>: \<^verbatim>\<open>walk\<close>, \<^verbatim>\<open>walkaddr\<close>, \<^verbatim>\<open>mappages\<close>, \<^verbatim>\<open>mappage\<close>, \<^verbatim>\<open>uvmcreate\<close>, \<^verbatim>\<open>uvmclear\<close> of \<^verbatim>\<open>vm.c\<close>.
  \<^item> \<^verbatim>\<open>UserMem\<close>: \<^verbatim>\<open>copyin\<close>, \<^verbatim>\<open>copyout\<close>, \<^verbatim>\<open>copyinstr\<close> of \<^verbatim>\<open>vm.c\<close>.
  \<^item> \<^verbatim>\<open>ProcData\<close>: \<^verbatim>\<open>proc.h\<close>, sleeping, waking, killing, page records.
  \<^item> \<^verbatim>\<open>Block\<close>, \<^verbatim>\<open>Bio\<close>, \<^verbatim>\<open>BioSpec\<close>: blocks, sleep locks, \<^verbatim>\<open>bio.c\<close> and its contract.
  \<^item> \<^verbatim>\<open>Log\<close>, \<^verbatim>\<open>LogSpec\<close>, \<^verbatim>\<open>LogCrash\<close>, \<^verbatim>\<open>LogTxn\<close>, \<^verbatim>\<open>LogProps\<close>, \<^verbatim>\<open>LogThms\<close>: \<^verbatim>\<open>log.c\<close>, transactions and crash recovery.
  \<^item> \<^verbatim>\<open>Fs\<close>: \<^verbatim>\<open>fs.c\<close>, from the block bitmap and the inode table to path names.
  \<^item> \<^verbatim>\<open>FsSpec\<close>, \<^verbatim>\<open>FsThms\<close>: block updates inside a transaction, the block bitmap, \<^verbatim>\<open>balloc\<close> and \<^verbatim>\<open>bfree\<close>;
    \<^verbatim>\<open>FileSpec\<close>, \<^verbatim>\<open>FileThms\<close>: the bytes of a file, \<^verbatim>\<open>bmap\<close>, \<^verbatim>\<open>readi\<close>, \<^verbatim>\<open>writei\<close>, and the inode table.
  \<^item> \<^verbatim>\<open>NameThms\<close>: path elements, directory entries, names of swap files; \<^verbatim>\<open>BufThms\<close>: queues and pipes as lists.
  \<^item> \<^verbatim>\<open>Ring\<close>: \<^verbatim>\<open>queue.c\<close> and the contract of a bounded first-in first-out buffer.
  \<^item> \<^verbatim>\<open>Dev\<close>: \<^verbatim>\<open>uart.c\<close>, \<^verbatim>\<open>printf.c\<close>, \<^verbatim>\<open>console.c\<close> and \<^verbatim>\<open>procdump\<close>.
  \<^item> \<^verbatim>\<open>File\<close>: \<^verbatim>\<open>file.c\<close> and \<^verbatim>\<open>pipe.c\<close>; \<^verbatim>\<open>SwapFile\<close>: \<^verbatim>\<open>create\<close>, \<^verbatim>\<open>unlink\<close> and the swap files of a process.
  \<^item> \<^verbatim>\<open>Vm\<close>: the rest of \<^verbatim>\<open>vm.c\<close> with the page replacement policies, a parameter of type \<^verbatim>\<open>selection\<close>.
  \<^item> \<^verbatim>\<open>UnmapThms\<close>: the entries \<^verbatim>\<open>uvmunmap\<close> clears and the frames it frees; \<^verbatim>\<open>ReplaceThms\<close>: the victims that the
    replacement policies choose, and that the second-chance scan ends.
  \<^item> \<^verbatim>\<open>Proc\<close>: \<^verbatim>\<open>proc.c\<close>; \<^verbatim>\<open>Exec\<close>: \<^verbatim>\<open>exec.c\<close>; \<^verbatim>\<open>Syscall\<close>: \<^verbatim>\<open>syscall.c\<close>, \<^verbatim>\<open>sysproc.c\<close>, \<^verbatim>\<open>sysfile.c\<close>.
  \<^item> \<^verbatim>\<open>Trap\<close>: \<^verbatim>\<open>trap.c\<close>, \<^verbatim>\<open>plic.c\<close> and the page-fault handlers; \<^verbatim>\<open>Spinlock\<close>: \<^verbatim>\<open>spinlock.c\<close>; \<^verbatim>\<open>Boot\<close>: \<^verbatim>\<open>main.c\<close>.
  \<^item> \<^verbatim>\<open>Virtio\<close>: \<^verbatim>\<open>virtio_disk.c\<close> with the device it drives; \<^verbatim>\<open>VirtioSpec\<close>, \<^verbatim>\<open>VirtioThms\<close>: the invariant of its
    descriptors and rings, and the refinement of an atomic block transfer.
  \<^item> \<^verbatim>\<open>Grep\<close>: the matcher and the reading loop of \<^verbatim>\<open>user/grep.c\<close>; \<^verbatim>\<open>Sh\<close>, \<^verbatim>\<open>ShThms\<close>: the command parser of \<^verbatim>\<open>user/sh.c\<close>.

  State.  The kernel's global state is a record that grows with the components: memory and
  allocator (\<^verbatim>\<open>kmem\<close>), process table (\<^verbatim>\<open>kprocs\<close>), buffer cache (\<^verbatim>\<open>kbio\<close>), log (\<^verbatim>\<open>klog\<close>), inode table
  (\<^verbatim>\<open>kfs\<close>), devices (\<^verbatim>\<open>kdev\<close>), open files and pipes (\<^verbatim>\<open>kfile\<close>), control registers (\<^verbatim>\<open>kcpu\<close>).  An
  operation is a function on the smallest of these records and runs unchanged on the larger ones.
  A pointer to an entry of a kernel table is its index.  Every operation returns an outcome:
  \<^verbatim>\<open>Ok\<close>, a panic with its message, or a sleep on a channel; the caller composes outcomes as the
  code composes calls.

  Bounds and fuel.  A page-table walk and \<^verbatim>\<open>freewalk\<close> descend three levels, as Sv39 does;
  the second-chance scan takes at most one turn more than there are resident pages
  (shown in \<^verbatim>\<open>ReplaceThms\<close>); loops that
  poll a device are partial functions into \<^verbatim>\<open>option\<close>, with no result when the device never
  answers.

  The shell's parser gets fuel for four calls per byte of the line, which is shown to be enough;
  the loop of \<^verbatim>\<open>grep\<close> is a partial function shown to return.

  Not modelled.  The assembly files and \<^verbatim>\<open>start.c\<close>, memory fences, \<^verbatim>\<open>mkfs\<close>, and the user programs other
  than the matcher of \<^verbatim>\<open>grep\<close> and the parser of the shell.  The kernel above the buffer cache uses the
  disk through the atomic transfer that \<^verbatim>\<open>VirtioThms\<close> justifies.  Interleaving is modelled for the spin
  locks, between CPUs, and for the disk driver, between its callers, the device and the interrupt
  handler; the other components are sequential between the points where they sleep.
\<close>

end
